(* ===== verification/Prelude.thy ===== *)
theory Prelude
  imports Main "HOL-Library.Word" "HOL-Library.Monad_Syntax"
begin

text \<open>
  What every component of the development shares.

  \<^item> Machine integers: \<open>u8\<close>, \<open>u16\<close>, \<open>u32\<close>, \<open>u64\<close> are words. A \<open>usize\<close> that only counts or
    addresses memory is a \<open>nat\<close>; where the code's behaviour on overflow matters the checked
    operations \<open>usize_add\<close>, \<open>usize_sub\<close> and \<open>usize_mul\<close> write it out.
  \<^item> Panics: a computation that may panic has type \<open>'a option\<close>, \<open>None\<close> is the panic, and
    \<open>do\<close> blocks sequence it. A \<open>Result<A, E>\<close> is a sum \<open>'e + 'a\<close> with the error on the left.
  \<^item> \<open>debug_assert!\<close> fires only in builds with debug assertions; every operation that contains
    one takes the build mode \<open>dbg\<close> as its first argument.
  \<^item> Ring memory: the slots \<open>r, \<dots>, w - 1\<close> of a ring of \<open>n\<close> cells, read in order. The three ring
    buffers of the code base (the two lock-free index queues and the container queue) are
    all proved correct through \<open>ring_window\<close>.
\<close>

section \<open>Machine integers, panics and debug assertions\<close>

type_synonym u8 = "8 word"
type_synonym u16 = "16 word"
type_synonym u32 = "32 word"
type_synonym u64 = "64 word"
type_synonym usize = nat

named_theorems rust_simps \<open>unfolding of the panic monad and of the checked arithmetic\<close>

abbreviation usize_max :: nat where
  "usize_max \<equiv> 2 ^ 64 - 1"

definition debug_assert :: "bool \<Rightarrow> bool \<Rightarrow> unit option" where
  "debug_assert dbg c = (if dbg \<and> \<not> c then None else Some ())"

definition panic_unless :: "bool \<Rightarrow> unit option" where
  "panic_unless c = (if c then Some () else None)"

text \<open>Rust's \<open>+\<close>, \<open>-\<close> and \<open>*\<close> on \<open>usize\<close>: a panic in debug builds, wrap-around otherwise.\<close>

definition usize_add :: "bool \<Rightarrow> nat \<Rightarrow> nat \<Rightarrow> nat option" where
  "usize_add dbg a b = (if dbg \<and> 2 ^ 64 \<le> a + b then None else Some ((a + b) mod 2 ^ 64))"

definition usize_sub :: "bool \<Rightarrow> nat \<Rightarrow> nat \<Rightarrow> nat option" where
  "usize_sub dbg a b = (if b \<le> a then Some (a - b) else if dbg then None else Some (a + 2 ^ 64 - b))"

definition usize_mul :: "bool \<Rightarrow> nat \<Rightarrow> nat \<Rightarrow> nat option" where
  "usize_mul dbg a b = (if dbg \<and> 2 ^ 64 \<le> a * b then None else Some ((a * b) mod 2 ^ 64))"

definition word_sub :: "bool \<Rightarrow> 'a::len word \<Rightarrow> 'a word \<Rightarrow> 'a word option" where
  "word_sub dbg a b = (if dbg \<and> a < b then None else Some (a - b))"

text \<open>Indexing a slice panics out of range, in every build.\<close>

definition slice_get :: "'a list \<Rightarrow> nat \<Rightarrow> 'a option" where
  "slice_get xs i = (if i < length xs then Some (xs ! i) else None)"

definition slice_set :: "'a list \<Rightarrow> nat \<Rightarrow> 'a \<Rightarrow> 'a list option" where
  "slice_set xs i v = (if i < length xs then Some (xs[i := v]) else None)"

lemma debug_assert_True [simp]: "debug_assert dbg True = Some ()"
  by (simp add: debug_assert_def)

lemma debug_assert_holds [rust_simps]: "c \<Longrightarrow> debug_assert dbg c = Some ()"
  by (simp add: debug_assert_def)

lemma debug_assert_eq_Some [simp]: "debug_assert dbg c = Some u \<longleftrightarrow> (dbg \<longrightarrow> c)"
  by (auto simp: debug_assert_def)

lemma debug_assert_eq_None [simp]: "debug_assert dbg c = None \<longleftrightarrow> dbg \<and> \<not> c"
  by (auto simp: debug_assert_def)

lemma debug_assert_release [simp]: "debug_assert False c = Some ()"
  by (simp add: debug_assert_def)

lemma panic_unless_eq_Some [simp]: "panic_unless c = Some u \<longleftrightarrow> c"
  by (auto simp: panic_unless_def)

lemma panic_unless_True [simp]: "panic_unless True = Some ()"
  by (simp add: panic_unless_def)

lemma panic_unless_False [simp]: "panic_unless False = None"
  by (simp add: panic_unless_def)

lemma usize_sub_le [simp]: "b \<le> a \<Longrightarrow> usize_sub dbg a b = Some (a - b)"
  by (simp add: usize_sub_def)

lemma word_sub_le [simp]: "b \<le> a \<Longrightarrow> word_sub dbg a b = Some (a - b)"
  by (simp add: word_sub_def not_less)

lemma usize_add_fits [simp]: "a + b < 2 ^ 64 \<Longrightarrow> usize_add dbg a b = Some (a + b)"
  by (simp add: usize_add_def)

lemma usize_mul_fits [simp]: "a * b < 2 ^ 64 \<Longrightarrow> usize_mul dbg a b = Some (a * b)"
  by (simp add: usize_mul_def)

lemma slice_get_in [simp]: "i < length xs \<Longrightarrow> slice_get xs i = Some (xs ! i)"
  by (simp add: slice_get_def)

lemma slice_get_out [simp]: "length xs \<le> i \<Longrightarrow> slice_get xs i = None"
  by (simp add: slice_get_def)

lemma slice_get_eq_Some: "slice_get xs i = Some x \<longleftrightarrow> i < length xs \<and> x = xs ! i"
  by (auto simp: slice_get_def)

lemma slice_set_in [simp]: "i < length xs \<Longrightarrow> slice_set xs i v = Some (xs[i := v])"
  by (simp add: slice_set_def)

lemma slice_set_out [simp]: "length xs \<le> i \<Longrightarrow> slice_set xs i v = None"
  by (simp add: slice_set_def)

lemma slice_set_eq_Some: "slice_set xs i v = Some ys \<longleftrightarrow> i < length xs \<and> ys = xs[i := v]"
  by (auto simp: slice_set_def)

text \<open>The \<open>?\<close> operator on a \<open>Result\<close>: errors pass through, values go on.\<close>

lemma result_eq_Inr [simp]:
  "(case r of Inl e \<Rightarrow> Inl (g e) | Inr a \<Rightarrow> Inr (f a)) = Inr x \<longleftrightarrow> (\<exists>a. r = Inr a \<and> x = f a)"
  by (cases r) auto

lemma result_eq_Inl [simp]:
  "(case r of Inl e \<Rightarrow> Inl (g e) | Inr a \<Rightarrow> Inr (f a)) = Inl x \<longleftrightarrow> (\<exists>e. r = Inl e \<and> x = g e)"
  by (cases r) auto

lemmas panic_monad [rust_simps] =
  Option.bind.simps option.simps Let_def

section \<open>Ring memory\<close>

text \<open>
  Two positions less than \<open>n\<close> apart fall on different cells of a ring of \<open>n\<close> cells. Every
  argument that a ring buffer's producer does not overwrite an element still in the queue
  comes down to this.
\<close>

lemma ring_slot_neq: "r \<le> p \<Longrightarrow> p < w \<Longrightarrow> w < r + n \<Longrightarrow> w mod n \<noteq> p mod (n::nat)"
proof
  assume bounds: "r \<le> p" "p < w" "w < r + n" and eq: "w mod n = p mod n"
  from eq bounds have "n dvd w - p" by (simp add: mod_eq_dvd_iff_nat)
  moreover from bounds have "0 < w - p" "w - p < n" by simp_all
  ultimately show False by (auto dest: dvd_imp_le)
qed

definition ring_window :: "'a list \<Rightarrow> nat \<Rightarrow> nat \<Rightarrow> nat \<Rightarrow> 'a list" where
  "ring_window data n r w = map (\<lambda>p. data ! (p mod n)) [r..<w]"

lemma length_ring_window [simp]: "length (ring_window data n r w) = w - r"
  by (simp add: ring_window_def)

lemma ring_window_Nil_iff [simp]: "ring_window data n r w = [] \<longleftrightarrow> w \<le> r"
  by (auto simp: ring_window_def)

lemma ring_window_empty [simp]: "ring_window data n r r = []"
  by simp

lemma ring_window_nth: "i < w - r \<Longrightarrow> ring_window data n r w ! i = data ! ((r + i) mod n)"
  by (simp add: ring_window_def)

lemma ring_window_Cons:
  "r < w \<Longrightarrow> ring_window data n r w = data ! (r mod n) # ring_window data n (Suc r) w"
  by (simp add: ring_window_def upt_conv_Cons)

lemma ring_window_hd: "r < w \<Longrightarrow> hd (ring_window data n r w) = data ! (r mod n)"
  by (simp add: ring_window_Cons)

lemma ring_window_tl: "tl (ring_window data n r w) = ring_window data n (Suc r) w"
  by (cases "r < w") (simp_all add: ring_window_Cons, simp add: ring_window_def)

lemma ring_window_Suc:
  "r \<le> w \<Longrightarrow> ring_window data n r (Suc w) = ring_window data n r w @ [data ! (w mod n)]"
  by (simp add: ring_window_def)

text \<open>Writing at the end of a window that leaves a cell free does not disturb the window.\<close>

lemma ring_window_write:
  assumes "w < r + n"
  shows "ring_window (data[w mod n := v]) n r w = ring_window data n r w"
  unfolding ring_window_def
proof (rule map_cong)
  fix p assume "p \<in> set [r..<w]"
  then have "w mod n \<noteq> p mod n" using assms by (intro ring_slot_neq) auto
  then show "data[w mod n := v] ! (p mod n) = data ! (p mod n)" by simp
qed simp

lemma ring_window_append:
  assumes "r \<le> w" "w < r + n" "length data = n"
  shows "ring_window (data[w mod n := v]) n r (Suc w) = ring_window data n r w @ [v]"
proof -
  from assms have "w mod n < length data" by (metis less_add_same_cancel1 le_less_trans mod_less_divisor)
  with assms show ?thesis by (simp add: ring_window_Suc ring_window_write)
qed

text \<open>Neither does overwriting the cell just before it.\<close>

lemma ring_window_outside:
  assumes "w \<le> r + n" "0 < n"
  shows "ring_window (data[r mod n := v]) n (Suc r) w = ring_window data n (Suc r) w"
  unfolding ring_window_def
proof (rule map_cong)
  fix p assume "p \<in> set [Suc r..<w]"
  then have "p mod n \<noteq> r mod n" using assms by (intro ring_slot_neq [of r r p n]) auto
  then show "data[r mod n := v] ! (p mod n) = data ! (p mod n)" by simp
qed simp

section \<open>Words\<close>

lemma unat_of_nat_small: "n < 2 ^ LENGTH('a) \<Longrightarrow> unat (of_nat n :: 'a::len word) = n"
  by (simp add: unat_of_nat)

lemma unat_image_less: "unat ` {i. i < cap} = {..<unat cap}" for cap :: "'a::len word"
proof (intro set_eqI iffI)
  fix k assume k: "k \<in> {..<unat cap}"
  then have "unat (of_nat k :: 'a word) = k"
    by (intro unat_of_nat_small) (auto intro: less_trans unsigned_less)
  with k show "k \<in> unat ` {i. i < cap}"
    by (intro image_eqI [of _ _ "of_nat k"]) (auto simp: word_less_nat_alt)
qed (auto simp: word_less_nat_alt)

lemma card_word_less [simp]: "card {i. i < cap} = unat cap" for cap :: "'a::len word"
proof -
  have "card {i. i < cap} = card (unat ` {i. i < cap})"
    by (intro card_image [symmetric] inj_onI) (simp add: word_unat_eq_iff)
  then show ?thesis by (simp add: unat_image_less)
qed

lemma word_less_image:
  assumes "n < 2 ^ LENGTH('a)"
  shows "{i::'a::len word. i < of_nat n} = of_nat ` {0..<n}"
proof (intro set_eqI iffI)
  fix i :: "'a word" assume "i \<in> {i. i < of_nat n}"
  then have "unat i < n" using assms by (simp add: word_less_nat_alt unat_of_nat_small)
  then show "i \<in> of_nat ` {0..<n}" by (intro image_eqI [of _ _ "unat i"]) simp_all
qed (use assms in \<open>auto simp: word_less_nat_alt unat_of_nat_small\<close>)

lemma distinct_map_of_nat:
  assumes "n \<le> 2 ^ LENGTH('a)"
  shows "distinct (map of_nat [0..<n] :: 'a::len word list)"
proof -
  have "map unat (map of_nat [0..<n] :: 'a word list) = [0..<n]"
    using assms by (intro nth_equalityI) (auto simp: unat_of_nat_small)
  then show ?thesis by (metis distinct_map distinct_upt)
qed

section \<open>Lists\<close>

lemma sum_list_update_nat:
  "i < length xs \<Longrightarrow> sum_list (xs[i := v]) + xs ! i = sum_list xs + (v::nat)"
proof (induction xs arbitrary: i)
  case (Cons x xs)
  then show ?case by (cases i) auto
qed simp

lemma map_Some_the: "None \<notin> set xs \<Longrightarrow> map Some (map the xs) = xs"
  by (induction xs) auto

section \<open>Programs\<close>

text \<open>A sequence of operations on a component: the results in order and the last state.\<close>

fun run_steps :: "('s \<Rightarrow> 'o \<Rightarrow> ('r \<times> 's) option) \<Rightarrow> 's \<Rightarrow> 'o list \<Rightarrow> ('r list \<times> 's) option" where
  "run_steps step s [] = Some ([], s)"
| "run_steps step s (op # ops) = do {
     (r, s1) \<leftarrow> step s op;
     (rs, s2) \<leftarrow> run_steps step s1 ops;
     Some (r # rs, s2) }"

text \<open>A \<open>for\<close> loop over the elements of a list whose body may panic.\<close>

fun for_each :: "('s \<Rightarrow> 'a \<Rightarrow> 's option) \<Rightarrow> 'a list \<Rightarrow> 's \<Rightarrow> 's option" where
  "for_each f [] s = Some s"
| "for_each f (x # xs) s = do { s1 \<leftarrow> f s x; for_each f xs s1 }"

lemma for_each_append: "for_each f (xs @ ys) s = do { s1 \<leftarrow> for_each f xs s; for_each f ys s1 }"
  by (induction xs arbitrary: s) (auto split: Option.bind_split)

text \<open>
  The rule for such a loop: \<open>I visited s\<close> holds before the elements after \<open>visited\<close> are visited, and each
  round keeps it.
\<close>

lemma for_each_invariant:
  assumes "I [] s"
    and "\<And>visited x rest s. xs = visited @ x # rest \<Longrightarrow> I visited s \<Longrightarrow> \<exists>s'. f s x = Some s' \<and> I (visited @ [x]) s'"
  obtains s' where "for_each f xs s = Some s'" "I xs s'"
proof -
  have "\<exists>s'. for_each f ys t = Some s' \<and> I xs s'" if "xs = visited @ ys" "I visited t" for visited ys t
    using that
  proof (induction ys arbitrary: visited t)
    case (Cons y ys)
    from assms(2) [OF Cons.prems] obtain t' where t': "f t y = Some t'" "I (visited @ [y]) t'" by blast
    from Cons.IH [of "visited @ [y]" t'] Cons.prems(1) t' show ?case by simp
  qed simp
  from this [of "[]" xs s] assms(1) that show ?thesis by auto
qed

end
