(* ===== verification/Elementary.thy ===== *)
theory Elementary
  imports Prelude
begin

text \<open>
  The helpers of \<^verbatim>\<open>iceoryx2-bb/elementary\<close> and \<^verbatim>\<open>iceoryx2-bb/elementary-traits\<close> that the memory and
  queue components are built on: memory layouts and allocation errors, alignment
  (\<^verbatim>\<open>math.rs\<close>), the base-64 names (\<^verbatim>\<open>math.rs\<close>), the unbounded bump allocator that lays out the
  fixed-size containers (\<^verbatim>\<open>bump_allocator.rs\<close>) and the cyclic tagger with which the ports find
  stale connections (\<^verbatim>\<open>cyclic_tagger.rs\<close>).
\<close>

section \<open>Layouts and allocation errors\<close>

record layout =
  lsize :: nat
  lalign :: nat

datatype AllocationError = SizeIsZero | SizeTooLarge | AlignmentFailure | OutOfMemory | InternalError

datatype AllocationGrowError =
  GrowWouldShrink | GrowSizeIsZero | GrowOutOfMemory | GrowAlignmentFailure | GrowInternalError

datatype AllocationShrinkError =
  ShrinkWouldGrow | ShrinkSizeIsZero | ShrinkAlignmentFailure | ShrinkInternalError

section \<open>Alignment\<close>

text \<open>Rust's \<open>%\<close> panics on a zero divisor; a \<open>Layout\<close> never has alignment zero.\<close>

definition unaligned_mem_size :: "nat \<Rightarrow> nat \<Rightarrow> nat \<Rightarrow> nat" where
  "unaligned_mem_size size_of align_of array_capacity = size_of * array_capacity + align_of - 1"

definition align :: "nat \<Rightarrow> nat \<Rightarrow> nat" where
  "align value alignment =
     (if value mod alignment = 0 then value else value + alignment - value mod alignment)"

lemma align_ge: "0 < a \<Longrightarrow> v \<le> align v a"
proof -
  assume "0 < a"
  then have "v mod a < a" by simp
  then have "v \<le> v + a - v mod a" by linarith
  then show ?thesis by (simp add: align_def)
qed

lemma align_less: "0 < a \<Longrightarrow> align v a < v + a"
  by (simp add: align_def)

lemma align_le: "0 < a \<Longrightarrow> align v a \<le> v + a - 1"
  using align_less [of a v] by simp

lemma align_dvd: "0 < a \<Longrightarrow> a dvd align v a"
proof (cases "v mod a = 0")
  case True
  then show ?thesis by (simp add: align_def mod_eq_0_iff_dvd)
next
  case False
  assume "0 < a"
  have "v + a - v mod a = a * (v div a) + a"
    using mult_div_mod_eq [of a v] mod_less_divisor [OF \<open>0 < a\<close>, of v] by linarith
  with False show ?thesis by (simp add: align_def)
qed

lemma align_id: "a dvd v \<Longrightarrow> align v a = v"
  by (simp add: align_def dvd_imp_mod_0)

lemma align_least:
  assumes "0 < a" "v \<le> m" "a dvd m"
  shows "align v a \<le> m"
proof -
  from assms(3) obtain k where m: "m = a * k" ..
  from align_dvd [OF assms(1), of v] obtain j where j: "align v a = a * j" ..
  have "a * j < a * (k + 1)"
    using align_less [OF assms(1), of v] assms(2) m j by simp
  then have "j \<le> k" using assms(1) by (metis Suc_eq_plus1 less_Suc_eq_le mult_less_cancel1)
  with m j show ?thesis by simp
qed

lemma align_mono: "0 < a \<Longrightarrow> v \<le> w \<Longrightarrow> align v a \<le> align w a"
  by (meson align_dvd align_ge align_least order_trans)

lemmas align_bounds = align_ge align_less align_le

section \<open>Base-64 names\<close>

definition remainder_to_char :: "nat \<Rightarrow> char" where
  "remainder_to_char value =
     (if value < 10 then char_of (48 + value)
      else if value < 26 + 10 then char_of (65 + value - 10)
      else if value < 62 then char_of (97 + value - 10 - 26)
      else if value = 62 then char_of (45::nat)
      else char_of (95::nat))"

text \<open>\<open>to_b64\<close> of a \<open>u128\<close>: the digits to base 64, the least significant first.\<close>

function to_b64_loop :: "nat \<Rightarrow> string" where
  "to_b64_loop qt =
     remainder_to_char (qt mod 64) #
       (if qt div 64 = 0 then [] else to_b64_loop (qt div 64))"
  by pat_completeness auto
termination
  by (relation "measure id") (auto simp: div_less_dividend)

declare to_b64_loop.simps [simp del]

definition to_b64_u128 :: "128 word \<Rightarrow> string" where
  "to_b64_u128 x = to_b64_loop (unat x)"

definition to_b64_u64 :: "u64 \<Rightarrow> string" where
  "to_b64_u64 x = to_b64_u128 (ucast x)"

definition from_le_bytes :: "u8 list \<Rightarrow> nat" where
  "from_le_bytes bs = foldr (\<lambda>b n. unat b + 256 * n) bs 0"

text \<open>
  \<open>to_b64\<close> of a byte array, from index \<open>i\<close>. The subtraction \<open>N - i\<close> with \<open>i\<close> past the end panics
  in debug builds; in release builds it wraps, and slicing the array from \<open>i\<close> panics.
\<close>

function array_to_b64_from :: "u8 list \<Rightarrow> nat \<Rightarrow> string option" where
  "array_to_b64_from bs i =
     (if length bs = i then Some []
      else if length bs < i then None
      else if 16 < length bs - i then
        map_option ((@) (to_b64_loop (from_le_bytes (take 16 (drop i bs))))) (array_to_b64_from bs (i + 16))
      else if 8 < length bs - i then
        map_option ((@) (to_b64_loop (from_le_bytes (take 8 (drop i bs))))) (array_to_b64_from bs (i + 8))
      else if 4 < length bs - i then
        map_option ((@) (to_b64_loop (from_le_bytes (take 4 (drop i bs))))) (array_to_b64_from bs (i + 8 + 4))
      else if 2 < length bs - i then
        map_option ((@) (to_b64_loop (from_le_bytes (take 2 (drop i bs))))) (array_to_b64_from bs (i + 2))
      else
        map_option ((@) (to_b64_loop (unat (bs ! i)))) (array_to_b64_from bs (i + 1)))"
  by pat_completeness auto
termination
  by (relation "measure (\<lambda>(bs, i). length bs - i)") auto

declare array_to_b64_from.simps [simp del]

definition array_to_b64 :: "u8 list \<Rightarrow> string option" where
  "array_to_b64 bs = array_to_b64_from bs 0"

lemma remainder_to_char_inj:
  assumes "m < 64" "n < 64" "remainder_to_char m = remainder_to_char n"
  shows "m = n"
proof -
  have code: "of_char (remainder_to_char k) =
      (if k < 10 then 48 + k else if k < 36 then 55 + k else if k < 62 then 61 + k
       else if k = 62 then 45 else (95::nat))" if "k < 64" for k
    using that by (auto simp: remainder_to_char_def)
  from assms(3) have "(of_char (remainder_to_char m) :: nat) = of_char (remainder_to_char n)" by simp
  with code [OF assms(1)] code [OF assms(2)] assms(1,2) show ?thesis
    by (auto split: if_splits)
qed

lemma to_b64_loop_inj: "to_b64_loop m = to_b64_loop n \<Longrightarrow> m = n"
proof (induction m arbitrary: n rule: to_b64_loop.induct)
  case (1 m)
  have digit: "m mod 64 = n mod 64"
    using 1 remainder_to_char_inj [of "m mod 64" "n mod 64"]
    by (simp add: to_b64_loop.simps [of m] to_b64_loop.simps [of n])
  have nonempty: "to_b64_loop k \<noteq> []" "[] \<noteq> to_b64_loop k" for k
    by (simp_all add: to_b64_loop.simps [of k])
  have "m div 64 = n div 64"
    using 1 nonempty by (auto simp: to_b64_loop.simps [of m] to_b64_loop.simps [of n] split: if_splits)
  with digit show ?case by (metis div_mult_mod_eq)
qed

text \<open>
  The array version works exactly for the lengths that never reach the four-byte branch,
  which advances the index by twelve instead of four.
\<close>

lemma array_to_b64_from_defined:
  "i \<le> length bs \<Longrightarrow>
   array_to_b64_from bs i \<noteq> None \<longleftrightarrow> length bs = i \<or> (length bs - i - 1) mod 8 < 4"
proof (induction bs i rule: array_to_b64_from.induct)
  case (1 bs i)
  define d where "d = length bs - i"
  note IH = "1.IH" and le = "1.prems"
  have over: "array_to_b64_from bs (i + 12) = None" if "4 < d" "d \<le> 8"
  proof -
    from that have "length bs < i + 12" by (simp add: d_def)
    then show ?thesis by (simp add: array_to_b64_from.simps [of bs "i + 12"])
  qed
  have step: "array_to_b64_from bs i \<noteq> None \<longleftrightarrow> array_to_b64_from bs (i + k) \<noteq> None"
    if "k = (if 16 < d then 16 else if 8 < d then 8 else if 4 < d then 12 else if 2 < d then 2 else 1)"
      "0 < d" for k
    using that by (auto simp: array_to_b64_from.simps [of bs i] d_def add.commute [of 12])
  have neq: "length bs \<noteq> i" "\<not> length bs < i" if "0 < d" using that by (auto simp: d_def)
  consider (fin) "d = 0" | (b16) "16 < d" | (b8) "8 < d" "d \<le> 16" | (b4) "4 < d" "d \<le> 8"
    | (b2) "2 < d" "d \<le> 4" | (b1) "0 < d" "d \<le> 2"
    by linarith
  then have "array_to_b64_from bs i \<noteq> None \<longleftrightarrow> d = 0 \<or> (d - 1) mod 8 < 4"
  proof cases
    case fin
    with le show ?thesis by (simp add: array_to_b64_from.simps [of bs i] d_def)
  next
    case b16
    then have "array_to_b64_from bs (i + 16) \<noteq> None \<longleftrightarrow>
        length bs = i + 16 \<or> (length bs - (i + 16) - 1) mod 8 < 4"
      using neq by (intro IH(1)) (simp_all add: d_def)
    moreover have "length bs \<noteq> i + 16" using b16 by (simp add: d_def)
    moreover have "(d - 1) mod 8 = (d - 16 - 1) mod 8"
      using b16 by (subst mod_eq_dvd_iff_nat) auto
    moreover have "length bs - (i + 16) - 1 = d - 16 - 1" by (simp add: d_def)
    ultimately show ?thesis using step [of 16] b16 by auto
  next
    case b8
    then have "array_to_b64_from bs (i + 8) \<noteq> None \<longleftrightarrow>
        length bs = i + 8 \<or> (length bs - (i + 8) - 1) mod 8 < 4"
      using neq by (intro IH(2)) (simp_all add: d_def)
    moreover have "length bs \<noteq> i + 8" using b8 by (simp add: d_def)
    moreover have "(d - 1) mod 8 = (d - 8 - 1) mod 8"
      using b8 by (subst mod_eq_dvd_iff_nat) auto
    moreover have "length bs - (i + 8) - 1 = d - 8 - 1" by (simp add: d_def)
    ultimately show ?thesis using step [of 8] b8 by auto
  next
    case b4
    then have "array_to_b64_from bs i = None" using over step [of 12] by simp
    moreover from b4 have "d = 5 \<or> d = 6 \<or> d = 7 \<or> d = 8" by linarith
    then have "\<not> (d - 1) mod 8 < 4" by auto
    ultimately show ?thesis using b4 by simp
  next
    case b2
    then have "array_to_b64_from bs (i + 2) \<noteq> None \<longleftrightarrow>
        length bs = i + 2 \<or> (length bs - (i + 2) - 1) mod 8 < 4"
      using neq by (intro IH(4)) (simp_all add: d_def)
    moreover have "(length bs - (i + 2) - 1) mod 8 < 4" "(d - 1) mod 8 < 4"
      using b2 by (simp_all add: d_def)
    ultimately show ?thesis using step [of 2] b2 by auto
  next
    case b1
    then have "array_to_b64_from bs (i + 1) \<noteq> None \<longleftrightarrow>
        length bs = i + 1 \<or> (length bs - (i + 1) - 1) mod 8 < 4"
      using neq by (intro IH(5)) (simp_all add: d_def)
    moreover have "(length bs - (i + 1) - 1) mod 8 < 4" "(d - 1) mod 8 < 4"
      using b1 by (simp_all add: d_def)
    ultimately show ?thesis using step [of 1] b1 by auto
  qed
  then show ?case using le by (simp add: d_def)
qed

section \<open>The bump allocator of the fixed-size containers\<close>

record bump_allocator =
  bump_start :: nat
  bump_pos :: nat

definition bump_new :: "nat \<Rightarrow> bump_allocator" where
  "bump_new start = \<lparr>bump_start = start, bump_pos = start\<rparr>"

definition bump_allocate :: "bump_allocator \<Rightarrow> layout \<Rightarrow> (AllocationError + nat) \<times> bump_allocator" where
  "bump_allocate b l =
     (let mem = align (bump_pos b) (lalign l)
      in (Inr mem, b\<lparr>bump_pos := mem + lsize l\<rparr>))"

definition bump_deallocate :: "bump_allocator \<Rightarrow> bump_allocator" where
  "bump_deallocate b = b\<lparr>bump_pos := bump_start b\<rparr>"

section \<open>The cyclic tagger\<close>

type_synonym tag = u8
type_synonym cyclic_tagger = u8

definition tagger_new :: cyclic_tagger where
  "tagger_new = 0"

definition create_tag :: "cyclic_tagger \<Rightarrow> tag" where
  "create_tag t = t"

definition create_untagged_tag :: "cyclic_tagger \<Rightarrow> tag" where
  "create_untagged_tag t = t - 1"

definition next_cycle :: "cyclic_tagger \<Rightarrow> cyclic_tagger" where
  "next_cycle t = t + 1"

definition tag_with :: "cyclic_tagger \<Rightarrow> tag \<Rightarrow> tag" where
  "tag_with t old = t"

definition was_tagged_by :: "tag \<Rightarrow> cyclic_tagger \<Rightarrow> bool" where
  "was_tagged_by tg t = (tg = t)"

lemma was_tagged_by_tag [simp]: "was_tagged_by (tag_with t old) t"
  by (simp add: was_tagged_by_def tag_with_def)

lemma was_tagged_by_created [simp]: "was_tagged_by (create_tag t) t"
  by (simp add: was_tagged_by_def create_tag_def)

lemma untagged_in_next_cycle [simp]: "\<not> was_tagged_by t (next_cycle t)"
  by (simp add: was_tagged_by_def next_cycle_def)

text \<open>A tag that is never renewed stays recognisably stale for 255 cycles.\<close>

lemma stale_tag:
  assumes "0 < n" "n < 256"
  shows "\<not> was_tagged_by t ((next_cycle ^^ n) t)"
proof -
  have "(next_cycle ^^ n) t = t + of_nat n" for n
    by (induction n) (simp_all add: next_cycle_def algebra_simps)
  moreover have "(of_nat n :: u8) \<noteq> 0"
    using assms by (auto simp: word_of_nat_eq_0_iff dest: dvd_imp_le)
  ultimately show ?thesis by (simp add: was_tagged_by_def)
qed

section \<open>Properties\<close>



text \<open>C29: \<open>to_b64\<close> gives different names to different 128-bit identifiers.\<close>

theorem to_b64_unique: "to_b64_u128 x = to_b64_u128 y \<longleftrightarrow> x = y"
  using to_b64_loop_inj [of "unat x" "unat y"] by (auto simp: to_b64_u128_def word_unat_eq_iff)

text \<open>C28: \<open>to_b64\<close> of a byte array of length \<open>N\<close> panics exactly when \<open>N\<close> is positive and
  \<open>N - 1\<close> leaves a remainder of four or more by eight: the four-byte branch moves the index by
  twelve, past the end of the array.\<close>

theorem array_to_b64_panics_iff:
  "array_to_b64 bs = None \<longleftrightarrow> bs \<noteq> [] \<and> 4 \<le> (length bs - 1) mod 8"
  using array_to_b64_from_defined [of 0 bs] by (auto simp: array_to_b64_def)

end
