(* ===== verification/Queue_Interface.thy ===== *)
theory Queue_Interface
  imports Prelude
begin

text \<open>
  What the clients of a bounded queue rely on, as two locales. \<open>bounded_queue\<close> is the part
  every queue has (its content as a list, its capacity, \<open>pop\<close>); \<open>rejecting_queue\<close> adds a
  \<open>push\<close> that refuses an element when the queue is full, \<open>overflowing_queue\<close> a \<open>push\<close> that
  hands the oldest element back instead. The lemmas about whole sequences of operations are
  proved here once. The queues of \<^verbatim>\<open>iceoryx2-bb/lock-free/src/spsc\<close> and
  \<^verbatim>\<open>iceoryx2-bb/container/src/queue.rs\<close> are interpreted in their own theories.
\<close>

datatype 'v queue_op = Push 'v | Pop

text \<open>A sequence of operations: what was accepted, and what came out, in order.\<close>

fun run_rejecting ::
  "('q \<Rightarrow> 'v \<Rightarrow> bool \<times> 'q) \<Rightarrow> ('q \<Rightarrow> 'v option \<times> 'q) \<Rightarrow> 'q \<Rightarrow> 'v queue_op list \<Rightarrow>
   'v list \<times> 'v list \<times> 'q" where
  "run_rejecting push pop q [] = ([], [], q)"
| "run_rejecting push pop q (Push v # ops) =
     (let (ok, q1) = push q v; (accepted, taken, q2) = run_rejecting push pop q1 ops
      in (if ok then v # accepted else accepted, taken, q2))"
| "run_rejecting push pop q (Pop # ops) =
     (let (x, q1) = pop q; (accepted, taken, q2) = run_rejecting push pop q1 ops
      in (accepted, case x of None \<Rightarrow> taken | Some v \<Rightarrow> v # taken, q2))"

fun run_overflowing ::
  "('q \<Rightarrow> 'v \<Rightarrow> 'v option \<times> 'q) \<Rightarrow> ('q \<Rightarrow> 'v option \<times> 'q) \<Rightarrow> 'q \<Rightarrow> 'v queue_op list \<Rightarrow>
   'v list \<times> 'q" where
  "run_overflowing push pop q [] = ([], q)"
| "run_overflowing push pop q (Push v # ops) =
     (let (x, q1) = push q v; (taken, q2) = run_overflowing push pop q1 ops
      in (case x of None \<Rightarrow> taken | Some u \<Rightarrow> u # taken, q2))"
| "run_overflowing push pop q (Pop # ops) =
     (let (x, q1) = pop q; (taken, q2) = run_overflowing push pop q1 ops
      in (case x of None \<Rightarrow> taken | Some u \<Rightarrow> u # taken, q2))"

fun pushed :: "'v queue_op list \<Rightarrow> 'v list" where
  "pushed [] = []"
| "pushed (Push v # ops) = v # pushed ops"
| "pushed (Pop # ops) = pushed ops"

locale bounded_queue =
  fixes pop :: "'q \<Rightarrow> 'v option \<times> 'q"
    and cap :: "'q \<Rightarrow> nat"
    and content :: "'q \<Rightarrow> 'v list"
    and invar :: "'q \<Rightarrow> bool"
  assumes content_bound: "invar q \<Longrightarrow> length (content q) \<le> cap q"
    and pop_empty: "invar q \<Longrightarrow> content q = [] \<Longrightarrow> pop q = (None, q)"
    and pop_result: "invar q \<Longrightarrow> content q = v # vs \<Longrightarrow> fst (pop q) = Some v"
    and pop_content: "invar q \<Longrightarrow> content q = v # vs \<Longrightarrow> content (snd (pop q)) = vs"
    and pop_invar: "invar q \<Longrightarrow> invar (snd (pop q))"
    and pop_cap: "invar q \<Longrightarrow> cap (snd (pop q)) = cap q"
begin

lemma pop_cases:
  assumes "invar q"
  obtains (empty) "content q = []" "pop q = (None, q)"
  | (taken) v q' where "pop q = (Some v, q')" "content q = v # content q'" "invar q'" "cap q' = cap q"
proof (cases "content q")
  case Nil
  with assms show ?thesis by (intro empty) (auto simp: pop_empty)
next
  case (Cons v vs)
  with assms show ?thesis
    using pop_result [OF assms Cons] pop_content [OF assms Cons] pop_invar [OF assms] pop_cap [OF assms]
    by (intro taken [of v "snd (pop q)"]) (auto simp: prod_eq_iff)
qed

end

locale rejecting_queue = bounded_queue pop cap content invar
  for pop :: "'q \<Rightarrow> 'v option \<times> 'q" and cap content invar +
  fixes push :: "'q \<Rightarrow> 'v \<Rightarrow> bool \<times> 'q"
  assumes push_full: "invar q \<Longrightarrow> length (content q) = cap q \<Longrightarrow> push q v = (False, q)"
    and push_result: "invar q \<Longrightarrow> length (content q) < cap q \<Longrightarrow> fst (push q v)"
    and push_content:
      "invar q \<Longrightarrow> length (content q) < cap q \<Longrightarrow> content (snd (push q v)) = content q @ [v]"
    and push_invar: "invar q \<Longrightarrow> invar (snd (push q v))"
    and push_cap: "invar q \<Longrightarrow> cap (snd (push q v)) = cap q"
begin

lemma push_cases:
  assumes "invar q"
  obtains (full) "push q v = (False, q)" "length (content q) = cap q"
  | (stored) q' where "push q v = (True, q')" "content q' = content q @ [v]" "invar q'" "cap q' = cap q"
proof (cases "length (content q) = cap q")
  case True
  with assms show ?thesis by (intro full) (auto simp: push_full)
next
  case False
  with content_bound [OF assms] have less: "length (content q) < cap q" by simp
  show ?thesis
    using push_result [OF assms less] push_content [OF assms less] push_invar [OF assms] push_cap [OF assms]
    by (intro stored [of "snd (push q v)"]) (auto simp: prod_eq_iff)
qed

lemma run_fifo:
  assumes "invar q" and "run_rejecting push pop q ops = (accepted, taken, q')"
  shows "content q @ accepted = taken @ content q' \<and> length (content q') \<le> cap q \<and> invar q'"
  using assms
proof (induction ops arbitrary: q accepted taken)
  case Nil
  then show ?case by (simp add: content_bound)
next
  case (Cons op ops)
  show ?case
  proof (cases op)
    case (Push v)
    from Cons.prems(1) show ?thesis
    proof (cases rule: push_cases [of q v])
      case full
      with Cons Push show ?thesis by (auto simp: Let_def split: prod.splits)
    next
      case (stored q1)
      with Cons.prems(2) Push obtain acc1
        where "run_rejecting push pop q1 ops = (acc1, taken, q')" "accepted = v # acc1"
        by (auto split: prod.splits)
      with Cons.IH [OF stored(3)] stored show ?thesis by auto
    qed
  next
    case Pop
    from Cons.prems(1) show ?thesis
    proof (cases rule: pop_cases)
      case empty
      with Cons.prems(2) Pop have "run_rejecting push pop q ops = (accepted, taken, q')"
        by (auto split: prod.splits)
      from Cons.IH [OF Cons.prems(1) this] show ?thesis .
    next
      case (taken v q1)
      with Cons.prems(2) Pop obtain tk1
        where "run_rejecting push pop q1 ops = (accepted, tk1, q')" "taken = v # tk1"
        by (auto split: prod.splits)
      with Cons.IH [OF taken(3)] taken show ?thesis by auto
    qed
  qed
qed

end

locale overflowing_queue = bounded_queue pop cap content invar
  for pop :: "'q \<Rightarrow> 'v option \<times> 'q" and cap content invar +
  fixes push :: "'q \<Rightarrow> 'v \<Rightarrow> 'v option \<times> 'q"
  assumes push_room:
      "invar q \<Longrightarrow> length (content q) < cap q \<Longrightarrow>
       fst (push q v) = None \<and> content (snd (push q v)) = content q @ [v]"
    and push_overflow:
      "invar q \<Longrightarrow> length (content q) = cap q \<Longrightarrow>
       fst (push q v) = Some (hd (content q @ [v])) \<and> content (snd (push q v)) = tl (content q @ [v])"
    and push_invar: "invar q \<Longrightarrow> invar (snd (push q v))"
    and push_cap: "invar q \<Longrightarrow> cap (snd (push q v)) = cap q"
begin

text \<open>Whatever comes back from \<open>push\<close>, no element is lost and the order is kept.\<close>

lemma push_conserves:
  assumes "invar q"
  shows "content q @ [v] =
    (case fst (push q v) of None \<Rightarrow> [] | Some u \<Rightarrow> [u]) @ content (snd (push q v))"
proof (cases "length (content q) < cap q")
  case True
  with push_room [OF assms True, of v] show ?thesis by simp
next
  case False
  with content_bound [OF assms] have "length (content q) = cap q" by simp
  from push_overflow [OF assms this, of v] show ?thesis by simp
qed

lemma run_conserves:
  assumes "invar q" and "run_overflowing push pop q ops = (taken, q')"
  shows "content q @ pushed ops = taken @ content q' \<and> length (content q') \<le> cap q \<and> invar q'"
  using assms
proof (induction ops arbitrary: q taken)
  case Nil
  then show ?case by (simp add: content_bound)
next
  case (Cons op ops)
  show ?case
  proof (cases op)
    case (Push v)
    obtain x q1 where xq: "push q v = (x, q1)" by force
    with Cons.prems(2) Push obtain tk1
      where run: "run_overflowing push pop q1 ops = (tk1, q')"
        and tk: "taken = (case x of None \<Rightarrow> [] | Some u \<Rightarrow> [u]) @ tk1"
      by (auto split: prod.splits option.splits)
    from push_invar [OF Cons.prems(1), of v] push_cap [OF Cons.prems(1), of v] xq
    have q1: "invar q1" "cap q1 = cap q" by simp_all
    have "content q @ v # pushed ops = (content q @ [v]) @ pushed ops" by simp
    also have "\<dots> = (case x of None \<Rightarrow> [] | Some u \<Rightarrow> [u]) @ (content q1 @ pushed ops)"
      using push_conserves [OF Cons.prems(1), of v] xq by simp
    also have "content q1 @ pushed ops = tk1 @ content q'"
      using Cons.IH [OF q1(1) run] by simp
    finally show ?thesis using Cons.IH [OF q1(1) run] q1 tk Push by simp
  next
    case Pop
    from Cons.prems(1) show ?thesis
    proof (cases rule: pop_cases)
      case empty
      with Cons.prems(2) Pop have "run_overflowing push pop q ops = (taken, q')"
        by (auto split: prod.splits)
      from Cons.IH [OF Cons.prems(1) this] Pop show ?thesis by simp
    next
      case (taken v q1)
      with Cons.prems(2) Pop obtain tk1
        where "run_overflowing push pop q1 ops = (tk1, q')" "taken = v # tk1"
        by (auto split: prod.splits)
      with Cons.IH [OF taken(3)] taken Pop show ?thesis by auto
    qed
  qed
qed

end

end
