(* ===== verification/Index_Queue.thy ===== *)
theory Index_Queue
  imports Elementary Queue_Interface
begin

text \<open>
  The lock-free single-producer single-consumer queue of
  \<^verbatim>\<open>iceoryx2-bb/lock-free/src/spsc/index_queue.rs\<close>, one definition per method. It is the
  completion queue of a zero-copy connection. Here every method runs without interference;
  \<open>Index_Queue_Conc\<close> treats the interleaving of one producer and one consumer.

  The two positions grow by one per operation and are never reset; they are \<open>nat\<close>s, so the
  model is that of a queue that has seen fewer than \<open>2 ^ 64\<close> operations.
\<close>

section \<open>State and operations\<close>

record index_queue =
  iq_data :: "u64 list"
  iq_capacity :: nat
  iq_write_position :: nat
  iq_read_position :: nat
  iq_has_producer :: bool
  iq_has_consumer :: bool
  iq_is_memory_initialized :: bool

definition index_queue_new :: "nat \<Rightarrow> index_queue" where
  "index_queue_new capacity =
     \<lparr>iq_data = replicate capacity 0, iq_capacity = capacity,
      iq_write_position = 0, iq_read_position = 0,
      iq_has_producer = True, iq_has_consumer = True, iq_is_memory_initialized = True\<rparr>"

definition index_queue_new_uninit :: "nat \<Rightarrow> index_queue" where
  "index_queue_new_uninit capacity =
     \<lparr>iq_data = [], iq_capacity = capacity,
      iq_write_position = 0, iq_read_position = 0,
      iq_has_producer = True, iq_has_consumer = True, iq_is_memory_initialized = False\<rparr>"

text \<open>
  \<open>init\<close> asks the allocator for the cells; \<open>allocate\<close> is the caller's allocator. Initialising
  twice is a \<open>fatal_panic!\<close>.
\<close>

definition index_queue_init ::
  "(layout \<Rightarrow> AllocationError + nat) \<Rightarrow> index_queue \<Rightarrow> (AllocationError + index_queue) option" where
  "index_queue_init allocate q =
     (if iq_is_memory_initialized q then None
      else case allocate \<lparr>lsize = 8 * iq_capacity q, lalign = 8\<rparr> of
        Inl e \<Rightarrow> Some (Inl e)
      | Inr _ \<Rightarrow> Some (Inr (q\<lparr>iq_data := replicate (iq_capacity q) 0, iq_is_memory_initialized := True\<rparr>)))"

definition index_queue_memory_size :: "nat \<Rightarrow> nat" where
  "index_queue_memory_size capacity = unaligned_mem_size 8 8 capacity"

definition iq_at :: "index_queue \<Rightarrow> nat \<Rightarrow> nat" where
  "iq_at q position = position mod iq_capacity q"

definition index_queue_acquire_producer :: "bool \<Rightarrow> index_queue \<Rightarrow> (bool \<times> index_queue) option" where
  "index_queue_acquire_producer dbg q = do {
     _ \<leftarrow> debug_assert dbg (iq_is_memory_initialized q);
     Some (if iq_has_producer q then (True, q\<lparr>iq_has_producer := False\<rparr>) else (False, q)) }"

definition index_queue_acquire_consumer :: "bool \<Rightarrow> index_queue \<Rightarrow> (bool \<times> index_queue) option" where
  "index_queue_acquire_consumer dbg q = do {
     _ \<leftarrow> debug_assert dbg (iq_is_memory_initialized q);
     Some (if iq_has_consumer q then (True, q\<lparr>iq_has_consumer := False\<rparr>) else (False, q)) }"

definition index_queue_drop_producer :: "index_queue \<Rightarrow> index_queue" where
  "index_queue_drop_producer q = q\<lparr>iq_has_producer := True\<rparr>"

definition index_queue_drop_consumer :: "index_queue \<Rightarrow> index_queue" where
  "index_queue_drop_consumer q = q\<lparr>iq_has_consumer := True\<rparr>"

definition index_queue_push :: "index_queue \<Rightarrow> u64 \<Rightarrow> bool \<times> index_queue" where
  "index_queue_push q value =
     (let write_position = iq_write_position q;
          is_full = (write_position = iq_read_position q + iq_capacity q)
      in if is_full then (False, q)
         else (True, q\<lparr>iq_data := (iq_data q)[iq_at q write_position := value],
                       iq_write_position := write_position + 1\<rparr>))"

definition index_queue_pop :: "index_queue \<Rightarrow> u64 option \<times> index_queue" where
  "index_queue_pop q =
     (let read_position = iq_read_position q;
          is_empty = (read_position = iq_write_position q)
      in if is_empty then (None, q)
         else (Some (iq_data q ! iq_at q read_position), q\<lparr>iq_read_position := read_position + 1\<rparr>))"

definition iq_acquire_read_and_write_position :: "index_queue \<Rightarrow> nat \<times> nat" where
  "iq_acquire_read_and_write_position q = (iq_write_position q, iq_read_position q)"

definition index_queue_is_empty :: "index_queue \<Rightarrow> bool" where
  "index_queue_is_empty q = (let (w, r) = iq_acquire_read_and_write_position q in w = r)"

definition index_queue_len :: "index_queue \<Rightarrow> nat" where
  "index_queue_len q = (let (w, r) = iq_acquire_read_and_write_position q in w - r)"

definition index_queue_is_full :: "index_queue \<Rightarrow> bool" where
  "index_queue_is_full q = (let (w, r) = iq_acquire_read_and_write_position q in w = r + iq_capacity q)"

section \<open>Invariant and refinement to a list\<close>

definition index_queue_inv :: "index_queue \<Rightarrow> bool" where
  "index_queue_inv q \<longleftrightarrow>
     length (iq_data q) = iq_capacity q \<and>
     iq_read_position q \<le> iq_write_position q \<and>
     iq_write_position q \<le> iq_read_position q + iq_capacity q"

definition index_queue_content :: "index_queue \<Rightarrow> u64 list" where
  "index_queue_content q =
     ring_window (iq_data q) (iq_capacity q) (iq_read_position q) (iq_write_position q)"

lemma index_queue_new_inv [simp]: "index_queue_inv (index_queue_new n)"
  by (simp add: index_queue_inv_def index_queue_new_def)

lemma index_queue_new_content [simp]: "index_queue_content (index_queue_new n) = []"
  by (simp add: index_queue_content_def index_queue_new_def)

lemma index_queue_new_capacity [simp]: "iq_capacity (index_queue_new n) = n"
  by (simp add: index_queue_new_def)

lemma index_queue_init_new:
  "allocate \<lparr>lsize = 8 * n, lalign = 8\<rparr> = Inr p \<Longrightarrow>
   index_queue_init allocate (index_queue_new_uninit n) = Some (Inr (index_queue_new n))"
  by (simp add: index_queue_init_def index_queue_new_uninit_def index_queue_new_def)

lemma index_queue_len_content: "index_queue_inv q \<Longrightarrow> index_queue_len q = length (index_queue_content q)"
  by (simp add: index_queue_len_def iq_acquire_read_and_write_position_def index_queue_content_def)

lemma index_queue_is_empty_content:
  "index_queue_inv q \<Longrightarrow> index_queue_is_empty q \<longleftrightarrow> index_queue_content q = []"
  by (auto simp: index_queue_is_empty_def iq_acquire_read_and_write_position_def
      index_queue_content_def index_queue_inv_def)

lemma index_queue_is_full_content:
  "index_queue_inv q \<Longrightarrow> index_queue_is_full q \<longleftrightarrow> length (index_queue_content q) = iq_capacity q"
  by (auto simp: index_queue_is_full_def iq_acquire_read_and_write_position_def
      index_queue_content_def index_queue_inv_def)

text \<open>The queue keeps the promises of a rejecting queue.\<close>

interpretation iq: rejecting_queue
  index_queue_pop iq_capacity index_queue_content index_queue_inv index_queue_push
proof unfold_locales
  fix q v
  assume inv: "index_queue_inv q"
  show "length (index_queue_content q) \<le> iq_capacity q"
    using inv by (auto simp: index_queue_content_def index_queue_inv_def)
  show "index_queue_inv (snd (index_queue_pop q))"
    using inv by (auto simp: index_queue_pop_def index_queue_inv_def Let_def)
  show "iq_capacity (snd (index_queue_pop q)) = iq_capacity q"
    by (simp add: index_queue_pop_def Let_def)
  show "index_queue_inv (snd (index_queue_push q v))"
    using inv by (auto simp: index_queue_push_def index_queue_inv_def Let_def)
  show "iq_capacity (snd (index_queue_push q v)) = iq_capacity q"
    by (simp add: index_queue_push_def Let_def)
  show "index_queue_push q v = (False, q)" if "length (index_queue_content q) = iq_capacity q"
    using that inv by (auto simp: index_queue_push_def index_queue_content_def index_queue_inv_def Let_def)
  show "fst (index_queue_push q v)" if "length (index_queue_content q) < iq_capacity q"
    using that inv by (auto simp: index_queue_push_def index_queue_content_def index_queue_inv_def Let_def)
  show "index_queue_content (snd (index_queue_push q v)) = index_queue_content q @ [v]"
    if "length (index_queue_content q) < iq_capacity q"
    using that inv
    by (auto simp: index_queue_push_def index_queue_content_def index_queue_inv_def Let_def iq_at_def
        ring_window_append)
next
  fix q
  assume inv: "index_queue_inv q" and "index_queue_content q = []"
  then show "index_queue_pop q = (None, q)"
    by (auto simp: index_queue_pop_def index_queue_content_def index_queue_inv_def)
next
  fix q v vs
  assume inv: "index_queue_inv q" and content: "index_queue_content q = v # vs"
  then have less: "iq_read_position q < iq_write_position q"
    by (metis index_queue_content_def list.discI not_le ring_window_Nil_iff)
  with content have "iq_data q ! (iq_read_position q mod iq_capacity q) = v"
    "ring_window (iq_data q) (iq_capacity q) (Suc (iq_read_position q)) (iq_write_position q) = vs"
    by (simp_all add: index_queue_content_def ring_window_Cons)
  with less show "fst (index_queue_pop q) = Some v"
    and "index_queue_content (snd (index_queue_pop q)) = vs"
    by (simp_all add: index_queue_pop_def iq_at_def index_queue_content_def Let_def)
qed

section \<open>Properties\<close>

text \<open>C27: Over every sequence of \<open>push\<close> and \<open>pop\<close> on a fresh queue, the elements accepted are the
  elements taken, in the same order, followed by those still in the queue, and the queue
  never holds more than its capacity.\<close>

theorem index_queue_fifo:
  "case run_rejecting index_queue_push index_queue_pop (index_queue_new capacity) ops of
     (accepted, taken, q) \<Rightarrow>
       accepted = taken @ index_queue_content q \<and> index_queue_len q \<le> capacity"
proof (cases "run_rejecting index_queue_push index_queue_pop (index_queue_new capacity) ops")
  case (fields accepted taken q)
  from iq.run_fifo [OF index_queue_new_inv fields] fields show ?thesis
    by (simp add: index_queue_len_content)
qed

end
