(* ===== verification/Overflow_Queue.thy ===== *)
theory Overflow_Queue
  imports Elementary Queue_Interface
begin

text \<open>
  The safely overflowing index queue of
  \<^verbatim>\<open>iceoryx2-bb/lock-free/src/spsc/safely_overflowing_index_queue.rs\<close>: when it is full, \<open>push\<close>
  returns the oldest element to the producer. It is the submission queue of a zero-copy
  connection. The ring has one cell more than the capacity, so that a full queue can take the
  new element before the oldest one is given up. Here every method runs without interference;
  \<open>Overflow_Queue_Conc\<close> treats the interleaving of one producer and one consumer.
\<close>

section \<open>State and operations\<close>

record overflow_queue =
  oq_data :: "u64 list"
  oq_capacity :: nat
  oq_write_position :: nat
  oq_read_position :: nat
  oq_has_producer :: bool
  oq_has_consumer :: bool
  oq_is_memory_initialized :: bool

definition overflow_queue_new :: "nat \<Rightarrow> overflow_queue" where
  "overflow_queue_new capacity =
     \<lparr>oq_data = replicate (capacity + 1) 0, oq_capacity = capacity,
      oq_write_position = 0, oq_read_position = 0,
      oq_has_producer = True, oq_has_consumer = True, oq_is_memory_initialized = True\<rparr>"

definition overflow_queue_new_uninit :: "nat \<Rightarrow> overflow_queue" where
  "overflow_queue_new_uninit capacity =
     \<lparr>oq_data = [], oq_capacity = capacity,
      oq_write_position = 0, oq_read_position = 0,
      oq_has_producer = True, oq_has_consumer = True, oq_is_memory_initialized = False\<rparr>"

definition overflow_queue_init ::
  "(layout \<Rightarrow> AllocationError + nat) \<Rightarrow> overflow_queue \<Rightarrow> (AllocationError + overflow_queue) option" where
  "overflow_queue_init allocate q =
     (if oq_is_memory_initialized q then None
      else case allocate \<lparr>lsize = 8 * (oq_capacity q + 1), lalign = 8\<rparr> of
        Inl e \<Rightarrow> Some (Inl e)
      | Inr _ \<Rightarrow> Some (Inr (q\<lparr>oq_data := replicate (oq_capacity q + 1) 0, oq_is_memory_initialized := True\<rparr>)))"

definition overflow_queue_memory_size :: "nat \<Rightarrow> nat" where
  "overflow_queue_memory_size capacity = unaligned_mem_size 8 8 (capacity + 1)"

definition oq_at :: "overflow_queue \<Rightarrow> nat \<Rightarrow> nat" where
  "oq_at q position = position mod (oq_capacity q + 1)"

definition overflow_queue_acquire_producer :: "bool \<Rightarrow> overflow_queue \<Rightarrow> (bool \<times> overflow_queue) option" where
  "overflow_queue_acquire_producer dbg q = do {
     _ \<leftarrow> debug_assert dbg (oq_is_memory_initialized q);
     Some (if oq_has_producer q then (True, q\<lparr>oq_has_producer := False\<rparr>) else (False, q)) }"

definition overflow_queue_acquire_consumer :: "bool \<Rightarrow> overflow_queue \<Rightarrow> (bool \<times> overflow_queue) option" where
  "overflow_queue_acquire_consumer dbg q = do {
     _ \<leftarrow> debug_assert dbg (oq_is_memory_initialized q);
     Some (if oq_has_consumer q then (True, q\<lparr>oq_has_consumer := False\<rparr>) else (False, q)) }"

definition overflow_queue_drop_producer :: "overflow_queue \<Rightarrow> overflow_queue" where
  "overflow_queue_drop_producer q = q\<lparr>oq_has_producer := True\<rparr>"

definition overflow_queue_drop_consumer :: "overflow_queue \<Rightarrow> overflow_queue" where
  "overflow_queue_drop_consumer q = q\<lparr>oq_has_consumer := True\<rparr>"

definition overflow_queue_push :: "overflow_queue \<Rightarrow> u64 \<Rightarrow> u64 option \<times> overflow_queue" where
  "overflow_queue_push q value =
     (let write_position = oq_write_position q;
          read_position = oq_read_position q;
          is_full = (write_position = read_position + oq_capacity q);
          q1 = q\<lparr>oq_data := (oq_data q)[oq_at q write_position := value]\<rparr>;
          q2 = q1\<lparr>oq_write_position := write_position + 1\<rparr>
      in if is_full \<and> oq_read_position q2 = read_position
         then (let q3 = q2\<lparr>oq_read_position := read_position + 1\<rparr>
               in (Some (oq_data q3 ! oq_at q3 read_position), q3))
         else (None, q2))"

definition overflow_queue_pop :: "overflow_queue \<Rightarrow> u64 option \<times> overflow_queue" where
  "overflow_queue_pop q =
     (let read_position = oq_read_position q;
          is_empty = (read_position = oq_write_position q)
      in if is_empty then (None, q)
         else (Some (oq_data q ! oq_at q read_position), q\<lparr>oq_read_position := read_position + 1\<rparr>))"

definition oq_acquire_read_and_write_position :: "overflow_queue \<Rightarrow> nat \<times> nat" where
  "oq_acquire_read_and_write_position q = (oq_write_position q, oq_read_position q)"

definition overflow_queue_is_empty :: "overflow_queue \<Rightarrow> bool" where
  "overflow_queue_is_empty q = (let (w, r) = oq_acquire_read_and_write_position q in w = r)"

definition overflow_queue_len :: "overflow_queue \<Rightarrow> nat" where
  "overflow_queue_len q = (let (w, r) = oq_acquire_read_and_write_position q in w - r)"

definition overflow_queue_is_full :: "overflow_queue \<Rightarrow> bool" where
  "overflow_queue_is_full q = (let (w, r) = oq_acquire_read_and_write_position q in w = r + oq_capacity q)"

section \<open>Invariant and refinement to a list\<close>

definition overflow_queue_inv :: "overflow_queue \<Rightarrow> bool" where
  "overflow_queue_inv q \<longleftrightarrow>
     length (oq_data q) = oq_capacity q + 1 \<and>
     oq_read_position q \<le> oq_write_position q \<and>
     oq_write_position q \<le> oq_read_position q + oq_capacity q"

definition overflow_queue_content :: "overflow_queue \<Rightarrow> u64 list" where
  "overflow_queue_content q =
     ring_window (oq_data q) (oq_capacity q + 1) (oq_read_position q) (oq_write_position q)"

lemma overflow_queue_new_inv [simp]: "overflow_queue_inv (overflow_queue_new n)"
  by (simp add: overflow_queue_inv_def overflow_queue_new_def)

lemma overflow_queue_new_content [simp]: "overflow_queue_content (overflow_queue_new n) = []"
  by (simp add: overflow_queue_content_def overflow_queue_new_def)

lemma overflow_queue_new_capacity [simp]: "oq_capacity (overflow_queue_new n) = n"
  by (simp add: overflow_queue_new_def)

lemma overflow_queue_init_new:
  "allocate \<lparr>lsize = 8 * (n + 1), lalign = 8\<rparr> = Inr p \<Longrightarrow>
   overflow_queue_init allocate (overflow_queue_new_uninit n) = Some (Inr (overflow_queue_new n))"
  by (simp add: overflow_queue_init_def overflow_queue_new_uninit_def overflow_queue_new_def)

lemma overflow_queue_len_content:
  "overflow_queue_inv q \<Longrightarrow> overflow_queue_len q = length (overflow_queue_content q)"
  by (simp add: overflow_queue_len_def oq_acquire_read_and_write_position_def overflow_queue_content_def)

lemma overflow_queue_is_empty_content:
  "overflow_queue_inv q \<Longrightarrow> overflow_queue_is_empty q \<longleftrightarrow> overflow_queue_content q = []"
  by (auto simp: overflow_queue_is_empty_def oq_acquire_read_and_write_position_def
      overflow_queue_content_def overflow_queue_inv_def)

lemma overflow_queue_is_full_content:
  "overflow_queue_inv q \<Longrightarrow> overflow_queue_is_full q \<longleftrightarrow> length (overflow_queue_content q) = oq_capacity q"
  by (auto simp: overflow_queue_is_full_def oq_acquire_read_and_write_position_def
      overflow_queue_content_def overflow_queue_inv_def)

text \<open>After the new element is written the ring holds the old content and the new element.\<close>

lemma overflow_queue_written:
  assumes "overflow_queue_inv q"
  shows "ring_window ((oq_data q)[oq_at q (oq_write_position q) := v]) (oq_capacity q + 1)
           (oq_read_position q) (Suc (oq_write_position q)) = overflow_queue_content q @ [v]"
  using assms by (simp add: overflow_queue_content_def overflow_queue_inv_def oq_at_def ring_window_append)

lemma overflow_queue_push_room:
  assumes "overflow_queue_inv q" "length (overflow_queue_content q) < oq_capacity q"
  shows "fst (overflow_queue_push q v) = None"
    and "overflow_queue_content (snd (overflow_queue_push q v)) = overflow_queue_content q @ [v]"
proof -
  have "oq_write_position q \<noteq> oq_read_position q + oq_capacity q"
    using assms by (auto simp: overflow_queue_content_def)
  then have push: "overflow_queue_push q v =
      (None, q\<lparr>oq_data := (oq_data q)[oq_at q (oq_write_position q) := v],
               oq_write_position := Suc (oq_write_position q)\<rparr>)"
    by (simp add: overflow_queue_push_def Let_def)
  show "fst (overflow_queue_push q v) = None" by (simp add: push)
  show "overflow_queue_content (snd (overflow_queue_push q v)) = overflow_queue_content q @ [v]"
    using overflow_queue_written [OF assms(1), of v] by (simp add: push overflow_queue_content_def)
qed

lemma overflow_queue_push_full:
  assumes inv: "overflow_queue_inv q" and full: "length (overflow_queue_content q) = oq_capacity q"
  shows "fst (overflow_queue_push q v) = Some (hd (overflow_queue_content q @ [v]))"
    and "overflow_queue_content (snd (overflow_queue_push q v)) = tl (overflow_queue_content q @ [v])"
proof -
  let ?data = "(oq_data q)[oq_at q (oq_write_position q) := v]"
  let ?n = "oq_capacity q + 1" and ?r = "oq_read_position q" and ?w = "oq_write_position q"
  have w: "?w = ?r + oq_capacity q"
    using full inv by (auto simp: overflow_queue_content_def overflow_queue_inv_def)
  then have push: "overflow_queue_push q v =
      (Some (?data ! (?r mod ?n)),
       q\<lparr>oq_data := ?data, oq_write_position := Suc ?w, oq_read_position := Suc ?r\<rparr>)"
    by (simp add: overflow_queue_push_def Let_def oq_at_def)
  show "fst (overflow_queue_push q v) = Some (hd (overflow_queue_content q @ [v]))"
    using overflow_queue_written [OF inv, of v, symmetric] w
    by (simp add: push ring_window_hd oq_at_def)
  show "overflow_queue_content (snd (overflow_queue_push q v)) = tl (overflow_queue_content q @ [v])"
    using overflow_queue_written [OF inv, of v, symmetric]
    by (simp add: push overflow_queue_content_def ring_window_tl oq_at_def)
qed

interpretation oq: overflowing_queue
  overflow_queue_pop oq_capacity overflow_queue_content overflow_queue_inv overflow_queue_push
proof unfold_locales
  fix q v
  assume inv: "overflow_queue_inv q"
  show "length (overflow_queue_content q) \<le> oq_capacity q"
    using inv by (auto simp: overflow_queue_content_def overflow_queue_inv_def)
  show "overflow_queue_inv (snd (overflow_queue_pop q))"
    using inv by (auto simp: overflow_queue_pop_def overflow_queue_inv_def Let_def)
  show "oq_capacity (snd (overflow_queue_pop q)) = oq_capacity q"
    by (simp add: overflow_queue_pop_def Let_def)
  show "overflow_queue_inv (snd (overflow_queue_push q v))"
    using inv by (auto simp: overflow_queue_push_def overflow_queue_inv_def Let_def)
  show "oq_capacity (snd (overflow_queue_push q v)) = oq_capacity q"
    by (simp add: overflow_queue_push_def Let_def)
  show "fst (overflow_queue_push q v) = None \<and>
      overflow_queue_content (snd (overflow_queue_push q v)) = overflow_queue_content q @ [v]"
    if "length (overflow_queue_content q) < oq_capacity q"
    using overflow_queue_push_room [OF inv that] by simp
  show "fst (overflow_queue_push q v) = Some (hd (overflow_queue_content q @ [v])) \<and>
      overflow_queue_content (snd (overflow_queue_push q v)) = tl (overflow_queue_content q @ [v])"
    if "length (overflow_queue_content q) = oq_capacity q"
    using overflow_queue_push_full [OF inv that] by simp
next
  fix q
  assume inv: "overflow_queue_inv q" and "overflow_queue_content q = []"
  then show "overflow_queue_pop q = (None, q)"
    by (auto simp: overflow_queue_pop_def overflow_queue_content_def overflow_queue_inv_def)
next
  fix q v vs
  assume inv: "overflow_queue_inv q" and content: "overflow_queue_content q = v # vs"
  then have less: "oq_read_position q < oq_write_position q"
    by (metis overflow_queue_content_def list.discI not_le ring_window_Nil_iff)
  with content have "oq_data q ! (oq_read_position q mod (oq_capacity q + 1)) = v"
    "ring_window (oq_data q) (oq_capacity q + 1) (Suc (oq_read_position q)) (oq_write_position q) = vs"
    by (simp_all add: overflow_queue_content_def ring_window_Cons)
  with less show "fst (overflow_queue_pop q) = Some v"
    and "overflow_queue_content (snd (overflow_queue_pop q)) = vs"
    by (simp_all add: overflow_queue_pop_def oq_at_def overflow_queue_content_def Let_def)
qed

section \<open>Properties\<close>

text \<open>C26: Over every sequence of \<open>push\<close> and \<open>pop\<close> on a fresh queue, every element pushed comes out
  exactly once and in order, through \<open>pop\<close> or as the overflow of a later \<open>push\<close>, or is still
  in the queue, which never holds more than its capacity.\<close>

theorem overflow_queue_conserves:
  "case run_overflowing overflow_queue_push overflow_queue_pop (overflow_queue_new capacity) ops of
     (taken, q) \<Rightarrow>
       pushed ops = taken @ overflow_queue_content q \<and> overflow_queue_len q \<le> capacity"
proof (cases "run_overflowing overflow_queue_push overflow_queue_pop (overflow_queue_new capacity) ops")
  case (Pair taken q)
  from oq.run_conserves [OF overflow_queue_new_inv Pair] Pair show ?thesis
    by (simp add: overflow_queue_len_content)
qed

end
