(* ===== verification/Overflow_Queue_Conc.thy ===== *)
theory Overflow_Queue_Conc
  imports Overflow_Queue "HOL-Library.Multiset"
begin

text \<open>
  One producer and one consumer working on the same safely overflowing index queue
  (\<^verbatim>\<open>safely_overflowing_index_queue.rs\<close>, \<open>push\<close> and \<open>pop\<close>). Every load, store and
  compare-exchange of the source is one atomic step, and the steps of the two threads
  interleave arbitrarily. Memory is sequentially consistent: the release/acquire pairs that
  the source marks as sync points make the cells visible in this order.

  The ghost fields record what was published (\<open>published\<close>, the value of position \<open>p\<close> is
  \<open>published ! p\<close>), what \<open>pop\<close> returned (\<open>popped\<close>) and what \<open>push\<close> returned on overflow
  (\<open>returned\<close>), each with the position that was taken.
\<close>

section \<open>Threads and steps\<close>

datatype producer_pc =
    PIdle
  | PCalled u64              \<comment> \<open>\<open>push(value)\<close> entered\<close>
  | PLoadedW u64 nat         \<comment> \<open>\<open>write_position\<close> loaded\<close>
  | PLoadedR u64 nat nat     \<comment> \<open>\<open>read_position\<close> loaded\<close>
  | PWritten u64 nat nat     \<comment> \<open>the cell is written\<close>
  | PFull nat                \<comment> \<open>published, \<open>is_full\<close> held: the compare-exchange comes next\<close>
  | PTaken nat               \<comment> \<open>compare-exchange succeeded: the old cell is read next\<close>

datatype consumer_pc =
    CIdle
  | CCalled                  \<comment> \<open>\<open>pop()\<close> entered\<close>
  | CLoadedR nat             \<comment> \<open>\<open>read_position\<close> loaded\<close>
  | CLoop nat                \<comment> \<open>head of the loop\<close>
  | CRead nat u64            \<comment> \<open>the cell is read: the compare-exchange comes next\<close>

record oq_system =
  queue :: overflow_queue
  ppc :: producer_pc
  cpc :: consumer_pc
  published :: "u64 list"
  popped :: "(nat \<times> u64) list"
  returned :: "(nat \<times> u64) list"

definition oq_init :: "nat \<Rightarrow> oq_system" where
  "oq_init capacity =
     \<lparr>queue = overflow_queue_new capacity, ppc = PIdle, cpc = CIdle,
      published = [], popped = [], returned = []\<rparr>"

definition producer_step :: "oq_system \<Rightarrow> oq_system" where
  "producer_step s = (let q = queue s in case ppc s of
      PIdle \<Rightarrow> s
    | PCalled v \<Rightarrow> s\<lparr>ppc := PLoadedW v (oq_write_position q)\<rparr>
    | PLoadedW v w \<Rightarrow> s\<lparr>ppc := PLoadedR v w (oq_read_position q)\<rparr>
    | PLoadedR v w r \<Rightarrow>
        s\<lparr>queue := q\<lparr>oq_data := (oq_data q)[oq_at q w := v]\<rparr>, ppc := PWritten v w r\<rparr>
    | PWritten v w r \<Rightarrow>
        s\<lparr>queue := q\<lparr>oq_write_position := w + 1\<rparr>, published := published s @ [v],
          ppc := if w = r + oq_capacity q then PFull r else PIdle\<rparr>
    | PFull r \<Rightarrow>
        if oq_read_position q = r
        then s\<lparr>queue := q\<lparr>oq_read_position := r + 1\<rparr>, ppc := PTaken r\<rparr>
        else s\<lparr>ppc := PIdle\<rparr>
    | PTaken r \<Rightarrow>
        s\<lparr>ppc := PIdle, returned := returned s @ [(r, oq_data q ! oq_at q r)]\<rparr>)"

definition consumer_step :: "oq_system \<Rightarrow> oq_system" where
  "consumer_step s = (let q = queue s in case cpc s of
      CIdle \<Rightarrow> s
    | CCalled \<Rightarrow> s\<lparr>cpc := CLoadedR (oq_read_position q)\<rparr>
    | CLoadedR r \<Rightarrow> if r = oq_write_position q then s\<lparr>cpc := CIdle\<rparr> else s\<lparr>cpc := CLoop r\<rparr>
    | CLoop r \<Rightarrow> s\<lparr>cpc := CRead r (oq_data q ! oq_at q r)\<rparr>
    | CRead r v \<Rightarrow>
        if oq_read_position q = r
        then s\<lparr>queue := q\<lparr>oq_read_position := r + 1\<rparr>, cpc := CIdle, popped := popped s @ [(r, v)]\<rparr>
        else s\<lparr>cpc := CLoop (oq_read_position q)\<rparr>)"

inductive oq_step :: "oq_system \<Rightarrow> oq_system \<Rightarrow> bool" where
  call_push: "ppc s = PIdle \<Longrightarrow> oq_step s (s\<lparr>ppc := PCalled v\<rparr>)"
| call_pop: "cpc s = CIdle \<Longrightarrow> oq_step s (s\<lparr>cpc := CCalled\<rparr>)"
| producer: "oq_step s (producer_step s)"
| consumer: "oq_step s (consumer_step s)"

inductive oq_reachable :: "nat \<Rightarrow> oq_system \<Rightarrow> bool" for capacity where
  start: "oq_reachable capacity (oq_init capacity)"
| step: "oq_reachable capacity s \<Longrightarrow> oq_step s t \<Longrightarrow> oq_reachable capacity t"

section \<open>The invariant\<close>

text \<open>A position whose compare-exchange the producer has won but whose cell it has not read yet.\<close>

definition pending :: "producer_pc \<Rightarrow> nat list" where
  "pending pc = (case pc of PTaken r \<Rightarrow> [r] | _ \<Rightarrow> [])"

definition ring_inv :: "overflow_queue \<Rightarrow> u64 list \<Rightarrow> bool" where
  "ring_inv q h \<longleftrightarrow>
     length (oq_data q) = oq_capacity q + 1 \<and>
     length h = oq_write_position q \<and>
     oq_read_position q \<le> oq_write_position q \<and>
     (\<forall>p. oq_read_position q \<le> p \<and> p < oq_write_position q \<longrightarrow> oq_data q ! oq_at q p = h ! p)"

definition producer_inv :: "overflow_queue \<Rightarrow> u64 list \<Rightarrow> producer_pc \<Rightarrow> bool" where
  "producer_inv q h pc \<longleftrightarrow>
     (let w = oq_write_position q; r = oq_read_position q; c = oq_capacity q in
      case pc of
        PIdle \<Rightarrow> w \<le> r + c
      | PCalled v \<Rightarrow> w \<le> r + c
      | PLoadedW v w' \<Rightarrow> w' = w \<and> w \<le> r + c
      | PLoadedR v w' r' \<Rightarrow> w' = w \<and> r' \<le> r \<and> w \<le> r' + c
      | PWritten v w' r' \<Rightarrow> w' = w \<and> r' \<le> r \<and> w \<le> r' + c \<and> oq_data q ! oq_at q w = v
      | PFull r' \<Rightarrow> w = r' + c + 1 \<and> r' \<le> r
      | PTaken r' \<Rightarrow> w = r' + c + 1 \<and> r' < r \<and> oq_data q ! oq_at q r' = h ! r')"

definition consumer_inv :: "overflow_queue \<Rightarrow> u64 list \<Rightarrow> consumer_pc \<Rightarrow> bool" where
  "consumer_inv q h pc \<longleftrightarrow>
     (let w = oq_write_position q; r = oq_read_position q in
      case pc of
        CLoadedR r' \<Rightarrow> r' \<le> r \<and> (r' < r \<longrightarrow> r < w)
      | CLoop r' \<Rightarrow> r' \<le> r \<and> r < w
      | CRead r' v \<Rightarrow> r' \<le> r \<and> r < w \<and> (r' = r \<longrightarrow> v = h ! r')
      | _ \<Rightarrow> True)"

definition log_inv ::
  "nat \<Rightarrow> u64 list \<Rightarrow> nat list \<Rightarrow> (nat \<times> u64) list \<Rightarrow> (nat \<times> u64) list \<Rightarrow> bool" where
  "log_inv r h pend pop ret \<longleftrightarrow>
     (\<forall>(p, v) \<in> set pop \<union> set ret. v = h ! p) \<and>
     sorted_wrt (<) (map fst pop) \<and>
     sorted_wrt (<) (map fst ret @ pend) \<and>
     mset (map fst pop @ map fst ret @ pend) = mset [0..<r]"

definition oq_system_inv :: "oq_system \<Rightarrow> bool" where
  "oq_system_inv s \<longleftrightarrow>
     0 < oq_capacity (queue s) \<and>
     ring_inv (queue s) (published s) \<and>
     producer_inv (queue s) (published s) (ppc s) \<and>
     consumer_inv (queue s) (published s) (cpc s) \<and>
     log_inv (oq_read_position (queue s)) (published s) (pending (ppc s)) (popped s) (returned s)"

lemmas pc_simps = pending_def producer_inv_def consumer_inv_def Let_def

lemma oq_slot_neq:
  "oq_read_position q \<le> p \<Longrightarrow> p < w \<Longrightarrow> w \<le> oq_read_position q + oq_capacity q \<Longrightarrow> oq_at q w \<noteq> oq_at q p"
  unfolding oq_at_def by (rule ring_slot_neq) auto

lemma oq_at_update [simp]:
  "oq_at (q\<lparr>oq_data := d\<rparr>) p = oq_at q p"
  "oq_at (q\<lparr>oq_write_position := w\<rparr>) p = oq_at q p"
  "oq_at (q\<lparr>oq_read_position := r\<rparr>) p = oq_at q p"
  by (simp_all add: oq_at_def)

lemma oq_at_less [simp]: "oq_at q p < Suc (oq_capacity q)"
  by (simp add: oq_at_def)

subsection \<open>What the other thread's steps leave alone\<close>

lemma consumer_inv_write [simp]: "consumer_inv (q\<lparr>oq_data := d\<rparr>) h pc = consumer_inv q h pc"
  by (cases pc) (simp_all add: pc_simps)

lemma consumer_inv_publish:
  "consumer_inv q h pc \<Longrightarrow> length h = oq_write_position q \<Longrightarrow>
   consumer_inv (q\<lparr>oq_write_position := Suc (oq_write_position q)\<rparr>) (h @ [v]) pc"
  by (cases pc) (auto simp: pc_simps nth_append)

lemma consumer_inv_overflow:
  "consumer_inv q h pc \<Longrightarrow> Suc (oq_read_position q) < oq_write_position q \<Longrightarrow>
   consumer_inv (q\<lparr>oq_read_position := Suc (oq_read_position q)\<rparr>) h pc"
  by (cases pc) (auto simp: pc_simps)

lemma producer_inv_pop:
  "producer_inv q h pc \<Longrightarrow> producer_inv (q\<lparr>oq_read_position := Suc (oq_read_position q)\<rparr>) h pc"
  by (cases pc) (auto simp: pc_simps)

lemma ring_inv_take:
  "ring_inv q h \<Longrightarrow> oq_read_position q < oq_write_position q \<Longrightarrow>
   ring_inv (q\<lparr>oq_read_position := Suc (oq_read_position q)\<rparr>) h"
  by (auto simp: ring_inv_def)

lemma ring_inv_write:
  assumes "ring_inv q h" "oq_write_position q \<le> oq_read_position q + oq_capacity q"
  shows "ring_inv (q\<lparr>oq_data := (oq_data q)[oq_at q (oq_write_position q) := v]\<rparr>) h"
  using assms oq_slot_neq [of q _ "oq_write_position q"] by (auto simp: ring_inv_def)

lemma ring_inv_publish:
  assumes "ring_inv q h" "oq_data q ! oq_at q (oq_write_position q) = v"
  shows "ring_inv (q\<lparr>oq_write_position := Suc (oq_write_position q)\<rparr>) (h @ [v])"
  using assms by (auto simp: ring_inv_def nth_append less_Suc_eq)

lemma log_positions:
  assumes "log_inv r h pend pop ret"
  shows "set (map fst pop) \<union> set (map fst ret) \<union> set pend = {0..<r}"
proof -
  from assms have "set_mset (mset (map fst pop @ map fst ret @ pend)) = set_mset (mset [0..<r])"
    by (simp only: log_inv_def)
  then show ?thesis by (simp only: set_mset_mset set_append set_upt Un_assoc)
qed

lemma log_position_less:
  assumes "log_inv r h pend pop ret" "(p, x) \<in> set pop \<union> set ret"
  shows "p < r"
proof -
  from assms(2) have "p \<in> set (map fst pop) \<union> set (map fst ret)" by force
  then have "p \<in> {0..<r}" using log_positions [OF assms(1)] by blast
  then show ?thesis by simp
qed

lemma log_inv_publish:
  assumes "log_inv r h pend pop ret" "r \<le> length h"
  shows "log_inv r (h @ [v]) pend pop ret"
proof -
  have "p < length h" if "(p, x) \<in> set pop \<union> set ret" for p x
    using log_position_less [OF assms(1) that] assms(2) by simp
  with assms(1) show ?thesis by (auto simp: log_inv_def nth_append split: prod.splits)
qed

lemma sorted_wrt_snoc: "sorted_wrt (<) (xs @ [x]) \<longleftrightarrow> sorted_wrt (<) xs \<and> (\<forall>y \<in> set xs. y < (x::nat))"
  by (auto simp: sorted_wrt_append)

lemma log_inv_pop:
  assumes "log_inv r h pend pop ret" "v = h ! r"
  shows "log_inv (Suc r) h pend (pop @ [(r, v)]) ret"
proof -
  have "\<forall>p \<in> set (map fst pop). p < r" by (auto dest: log_position_less [OF assms(1), OF UnI1])
  with assms show ?thesis by (auto simp: log_inv_def sorted_wrt_snoc)
qed

lemma log_inv_overflow:
  assumes "log_inv r h [] pop ret"
  shows "log_inv (Suc r) h [r] pop ret"
proof -
  have "\<forall>p \<in> set (map fst ret). p < r" by (auto dest: log_position_less [OF assms, OF UnI2])
  with assms show ?thesis by (auto simp: log_inv_def sorted_wrt_snoc)
qed

lemma log_inv_return:
  "log_inv r h [p] pop ret \<Longrightarrow> v = h ! p \<Longrightarrow> log_inv r h [] pop (ret @ [(p, v)])"
  by (auto simp: log_inv_def)

subsection \<open>Every step keeps the invariant\<close>

lemma oq_init_inv: "0 < capacity \<Longrightarrow> oq_system_inv (oq_init capacity)"
  by (simp add: oq_system_inv_def ring_inv_def log_inv_def pc_simps oq_init_def overflow_queue_new_def)

lemma producer_step_inv:
  assumes inv: "oq_system_inv s"
  shows "oq_system_inv (producer_step s)"
proof (cases "ppc s")
  case (PLoadedR v w r)
  let ?q = "queue s"
  from inv PLoadedR have w: "w = oq_write_position ?q" "w \<le> r + oq_capacity ?q" "r \<le> oq_read_position ?q"
    and ring: "ring_inv ?q (published s)"
    by (auto simp: oq_system_inv_def producer_inv_def Let_def)
  then have "ring_inv (?q\<lparr>oq_data := (oq_data ?q)[oq_at ?q w := v]\<rparr>) (published s)"
    by (auto intro: ring_inv_write)
  moreover from ring have "length (oq_data ?q) = Suc (oq_capacity ?q)" by (simp add: ring_inv_def)
  ultimately show ?thesis
    using inv PLoadedR w by (auto simp: oq_system_inv_def producer_step_def Let_def producer_inv_def pending_def)
next
  case (PWritten v w r)
  let ?q = "queue s"
  from inv PWritten have w: "w = oq_write_position ?q" "oq_data ?q ! oq_at ?q w = v"
    and le: "r \<le> oq_read_position ?q" "w \<le> r + oq_capacity ?q"
    and len: "length (published s) = w" "oq_read_position ?q \<le> w"
    by (auto simp: oq_system_inv_def producer_inv_def ring_inv_def Let_def)
  let ?q' = "?q\<lparr>oq_write_position := Suc w\<rparr>" and ?h = "published s @ [v]"
  have "ring_inv ?q' ?h" "consumer_inv ?q' ?h (cpc s)"
    using inv w len by (auto simp: oq_system_inv_def intro: ring_inv_publish consumer_inv_publish)
  moreover have "log_inv (oq_read_position ?q) ?h [] (popped s) (returned s)"
    using inv PWritten len by (auto simp: oq_system_inv_def pending_def intro!: log_inv_publish)
  ultimately show ?thesis
    using inv PWritten w le len
    by (auto simp: oq_system_inv_def producer_step_def Let_def producer_inv_def pending_def)
next
  case (PFull r)
  let ?q = "queue s"
  from inv PFull have w: "oq_write_position ?q = r + oq_capacity ?q + 1" "r \<le> oq_read_position ?q"
    and cap: "0 < oq_capacity ?q" and ring: "ring_inv ?q (published s)"
    and log: "log_inv (oq_read_position ?q) (published s) [] (popped s) (returned s)"
    and con: "consumer_inv ?q (published s) (cpc s)"
    by (auto simp: oq_system_inv_def producer_inv_def pending_def Let_def)
  show ?thesis
  proof (cases "oq_read_position ?q = r")
    case True
    with w cap ring con log have "ring_inv (?q\<lparr>oq_read_position := Suc r\<rparr>) (published s)"
      "consumer_inv (?q\<lparr>oq_read_position := Suc r\<rparr>) (published s) (cpc s)"
      "log_inv (Suc r) (published s) [r] (popped s) (returned s)"
      "oq_data ?q ! oq_at ?q r = published s ! r"
      using ring_inv_take [OF ring] consumer_inv_overflow [OF con] log_inv_overflow [OF log]
      by (auto simp: ring_inv_def)
    with True inv PFull w show ?thesis
      by (auto simp: oq_system_inv_def producer_step_def Let_def producer_inv_def pending_def)
  next
    case False
    with inv PFull w show ?thesis
      by (auto simp: oq_system_inv_def producer_step_def Let_def producer_inv_def pending_def)
  qed
next
  case (PTaken r)
  with inv show ?thesis
    by (auto simp: oq_system_inv_def producer_step_def Let_def producer_inv_def pending_def
        intro!: log_inv_return)
qed (use inv in \<open>auto simp: oq_system_inv_def producer_step_def Let_def producer_inv_def pending_def\<close>)

lemma consumer_step_inv:
  assumes inv: "oq_system_inv s"
  shows "oq_system_inv (consumer_step s)"
proof (cases "cpc s")
  case (CRead r v)
  let ?q = "queue s"
  from inv CRead have ring: "ring_inv ?q (published s)" and less: "oq_read_position ?q < oq_write_position ?q"
    and val: "r = oq_read_position ?q \<longrightarrow> v = published s ! r"
    and pro: "producer_inv ?q (published s) (ppc s)"
    and log: "log_inv (oq_read_position ?q) (published s) (pending (ppc s)) (popped s) (returned s)"
    by (auto simp: oq_system_inv_def consumer_inv_def Let_def)
  show ?thesis
    using inv CRead val ring_inv_take [OF ring less] producer_inv_pop [OF pro] log_inv_pop [OF log]
    by (auto simp: oq_system_inv_def consumer_step_def consumer_inv_def Let_def)
next
  case (CLoop r)
  with inv show ?thesis
    by (auto simp: oq_system_inv_def consumer_step_def consumer_inv_def ring_inv_def Let_def)
next
  case (CLoadedR r)
  with inv show ?thesis
    by (auto simp: oq_system_inv_def consumer_step_def consumer_inv_def ring_inv_def Let_def)
qed (use inv in \<open>auto simp: oq_system_inv_def consumer_step_def consumer_inv_def Let_def\<close>)

lemma oq_step_inv: "oq_step s t \<Longrightarrow> oq_system_inv s \<Longrightarrow> oq_system_inv t"
proof (induction rule: oq_step.induct)
  case (call_push s v)
  then show ?case by (auto simp: oq_system_inv_def producer_inv_def pending_def Let_def)
next
  case (call_pop s)
  then show ?case by (auto simp: oq_system_inv_def consumer_inv_def Let_def)
qed (simp_all add: producer_step_inv consumer_step_inv)

lemma oq_reachable_inv: "oq_reachable capacity s \<Longrightarrow> 0 < capacity \<Longrightarrow> oq_system_inv s"
  by (induction rule: oq_reachable.induct) (auto simp: oq_init_inv intro: oq_step_inv)

section \<open>Executions as schedules\<close>

datatype oq_action = CallPush u64 | CallPop | StepProducer | StepConsumer

definition oq_exec :: "oq_system \<Rightarrow> oq_action \<Rightarrow> oq_system" where
  "oq_exec s a = (case a of
      CallPush v \<Rightarrow> if ppc s = PIdle then s\<lparr>ppc := PCalled v\<rparr> else s
    | CallPop \<Rightarrow> if cpc s = CIdle then s\<lparr>cpc := CCalled\<rparr> else s
    | StepProducer \<Rightarrow> producer_step s
    | StepConsumer \<Rightarrow> consumer_step s)"

lemma oq_exec_reachable: "oq_reachable c s \<Longrightarrow> oq_reachable c (oq_exec s a)"
  by (cases a) (auto simp: oq_exec_def intro: oq_reachable.step oq_step.intros)

lemma oq_schedule_reachable: "oq_reachable c s \<Longrightarrow> oq_reachable c (foldl oq_exec s as)"
  by (induction as arbitrary: s) (auto simp: oq_exec_reachable)

text \<open>The steps a thread still has to take before its call returns.\<close>

fun push_rank :: "producer_pc \<Rightarrow> nat" where
  "push_rank PIdle = 0"
| "push_rank (PTaken r) = 1"
| "push_rank (PFull r) = 2"
| "push_rank (PWritten v w r) = 3"
| "push_rank (PLoadedR v w r) = 4"
| "push_rank (PLoadedW v w) = 5"
| "push_rank (PCalled v) = 6"

lemma push_rank_decreases: "ppc s \<noteq> PIdle \<Longrightarrow> push_rank (ppc (producer_step s)) < push_rank (ppc s)"
  by (cases "ppc s") (auto simp: producer_step_def Let_def)

lemma consumer_step_ppc [simp]: "ppc (consumer_step s) = ppc s"
  by (simp add: consumer_step_def Let_def split: consumer_pc.splits)

lemma producer_step_cpc [simp]: "cpc (producer_step s) = cpc s"
  by (simp add: producer_step_def Let_def split: producer_pc.splits)

lemma push_rank_schedule:
  "set as \<subseteq> {StepProducer, StepConsumer, CallPop} \<Longrightarrow>
   push_rank (ppc (foldl oq_exec s as)) \<le> push_rank (ppc s) - count_list as StepProducer"
proof (induction as arbitrary: s)
  case (Cons a as)
  from Cons.prems have IH: "push_rank (ppc (foldl oq_exec (oq_exec s a) as))
      \<le> push_rank (ppc (oq_exec s a)) - count_list as StepProducer" by (intro Cons.IH) simp
  from Cons.prems consider "a = StepProducer" | "a = StepConsumer \<or> a = CallPop" by auto
  then show ?case
  proof cases
    case 1
    have "push_rank (ppc (producer_step s)) \<le> push_rank (ppc s) - 1"
    proof (cases "ppc s = PIdle")
      case True
      then show ?thesis by (simp add: producer_step_def)
    next
      case False
      from push_rank_decreases [OF this] show ?thesis by simp
    qed
    with IH 1 show ?thesis by (simp add: oq_exec_def [of s])
  next
    case 2
    then have "ppc (oq_exec s a) = ppc s" by (auto simp: oq_exec_def)
    with IH 2 show ?thesis by auto
  qed
qed simp

section \<open>Properties\<close>

text \<open>C8: Whatever the interleaving of one producer and one consumer, no element is lost, invented
  or handed out twice: the elements that \<open>pop\<close> returned, those that \<open>push\<close> handed back on
  overflow, the one the producer is about to hand back and those still in the ring are
  together exactly the elements published; and both threads receive elements in the order
  in which they were published.\<close>

theorem oq_interleaving_conserves:
  assumes "oq_reachable capacity s" "0 < capacity"
  shows "mset (map snd (popped s)) + mset (map snd (returned s))
      + mset (map ((!) (published s)) (pending (ppc s)))
      + mset (overflow_queue_content (queue s)) = mset (published s)
    \<and> (\<forall>(p, v) \<in> set (popped s) \<union> set (returned s). p < length (published s) \<and> v = published s ! p)
    \<and> sorted_wrt (<) (map fst (popped s)) \<and> sorted_wrt (<) (map fst (returned s))"
proof -
  let ?q = "queue s" and ?h = "published s"
  let ?r = "oq_read_position ?q" and ?w = "oq_write_position ?q"
  from oq_reachable_inv [OF assms] have ring: "ring_inv ?q ?h"
    and log: "log_inv ?r ?h (pending (ppc s)) (popped s) (returned s)"
    by (simp_all add: oq_system_inv_def)
  from log have vals: "\<forall>(p, v) \<in> set (popped s) \<union> set (returned s). v = ?h ! p"
    and pos: "mset (map fst (popped s) @ map fst (returned s) @ pending (ppc s)) = mset [0..<?r]"
    and sorted: "sorted_wrt (<) (map fst (popped s))" "sorted_wrt (<) (map fst (returned s))"
    by (simp_all add: log_inv_def sorted_wrt_append)
  have snd_nth: "map snd xs = map ((!) ?h) (map fst xs)" if "set xs \<subseteq> set (popped s) \<union> set (returned s)" for xs
    using that vals by (auto simp: case_prod_unfold)
  have "map ((!) ?h) [?r..<?w] = overflow_queue_content ?q"
    using ring by (auto simp: ring_inv_def overflow_queue_content_def ring_window_def oq_at_def)
  moreover have "mset (map ((!) ?h) ([0..<?r] @ [?r..<?w])) = mset ?h"
    using ring by (metis ring_inv_def map_nth upt_add_eq_append le_add_diff_inverse zero_le)
  moreover have "mset (map ((!) ?h) [0..<?r]) =
      mset (map snd (popped s)) + mset (map snd (returned s)) + mset (map ((!) ?h) (pending (ppc s)))"
    unfolding snd_nth [of "popped s", OF Un_upper1] snd_nth [of "returned s", OF Un_upper2]
    using arg_cong [OF pos, of "image_mset ((!) ?h)"] by (simp del: map_map add: add.assoc)
  ultimately have "mset (map snd (popped s)) + mset (map snd (returned s))
      + mset (map ((!) ?h) (pending (ppc s))) + mset (overflow_queue_content ?q) = mset ?h"
    by simp
  moreover have "p < length ?h \<and> v = ?h ! p" if "(p, v) \<in> set (popped s) \<union> set (returned s)" for p v
    using log_position_less [OF log that] vals that ring by (auto simp: ring_inv_def)
  ultimately show ?thesis using sorted by auto
qed

text \<open>Two pushes into a queue of capacity one, the second overflowing while a \<open>pop\<close> is under way
  and loses the race for the first element.\<close>

abbreviation oq_race :: oq_system where
  "oq_race \<equiv> foldl oq_exec (oq_init 1)
     ([CallPush 7] @ replicate 4 StepProducer @ [CallPop] @ replicate 3 StepConsumer
      @ [CallPush 8] @ replicate 5 StepProducer @ [StepConsumer] @ [StepProducer]
      @ replicate 2 StepConsumer)"

lemmas oq_eval =
  oq_exec_def oq_init_def overflow_queue_new_def producer_step_def consumer_step_def oq_at_def
  eval_nat_numeral

theorem oq_interleaving_conserves_witness:
  "popped oq_race = [(1, 8)] \<and> returned oq_race = [(0, 7)] \<and>
   mset (map snd (popped oq_race)) + mset (map snd (returned oq_race))
      + mset (map ((!) (published oq_race)) (pending (ppc oq_race)))
      + mset (overflow_queue_content (queue oq_race)) = mset (published oq_race)"
proof -
  have "oq_reachable 1 oq_race" by (rule oq_schedule_reachable) (rule oq_reachable.start)
  from oq_interleaving_conserves [OF this] show ?thesis by (simp add: oq_eval)
qed

text \<open>C22: \<open>push\<close> is wait-free: whatever the consumer does in the meantime, a call of \<open>push\<close> has
  returned after at most six steps of the producer.\<close>

theorem push_wait_free:
  assumes "set as \<subseteq> {StepProducer, StepConsumer, CallPop}" "6 \<le> count_list as StepProducer"
  shows "ppc (foldl oq_exec s as) = PIdle"
proof -
  have "push_rank (ppc s) \<le> 6" by (cases "ppc s") simp_all
  with push_rank_schedule [OF assms(1), of s] assms(2) have "push_rank (ppc (foldl oq_exec s as)) = 0"
    by simp
  then show ?thesis by (cases "ppc (foldl oq_exec s as)") simp_all
qed

theorem push_wait_free_witness:
  "ppc (foldl oq_exec ((oq_init 1)\<lparr>ppc := PCalled 9\<rparr>)
     [StepProducer, CallPop, StepProducer, StepConsumer, StepProducer, StepConsumer,
      StepProducer, StepProducer, StepConsumer, StepProducer]) = PIdle"
  by (rule push_wait_free) simp_all





text \<open>C25: With capacity zero the queue is not safe under concurrency: a \<open>pop\<close> whose
  compare-exchange lost against an overflowing \<open>push\<close> retries without looking at the write
  position again, and takes an element that was never written. \<open>new\<close> accepts the capacity
  zero; the connection builders clamp it to one.\<close>

theorem oq_zero_capacity_unsafe:
  "\<exists>s. oq_reachable 0 s \<and> oq_write_position (queue s) < oq_read_position (queue s)
     \<and> length (published s) < length (popped s) + length (returned s)"
proof -
  let ?s = "foldl oq_exec (oq_init 0)
     ([CallPush 7] @ replicate 2 StepProducer @ [CallPop] @ replicate 1 StepConsumer
      @ replicate 2 StepProducer @ replicate 2 StepConsumer @ replicate 2 StepProducer
      @ replicate 3 StepConsumer)"
  have "oq_reachable 0 ?s" by (rule oq_schedule_reachable) (rule oq_reachable.start)
  moreover have "oq_write_position (queue ?s) < oq_read_position (queue ?s)
     \<and> length (published ?s) < length (popped ?s) + length (returned ?s)"
    by (simp add: oq_eval)
  ultimately show ?thesis by blast
qed

end
