(* ===== verification/Index_Pool_Interface.thy ===== *)
theory Index_Pool_Interface
  imports Prelude
begin

text \<open>
  What the users of a pool of unique indices rely on: \<open>acquire\<close> hands out an index that
  nobody holds as long as there is one, \<open>release\<close> gives it back. The pool allocators and the
  lock-free container are clients. \<open>Unique_Index_Set\<close> interprets the locale.
\<close>

datatype pool_op = Acquire | Release nat

text \<open>
  A client that keeps the indices it holds in a list and gives back the \<open>k\<close>-th of them.
\<close>

fun run_pool ::
  "('s \<Rightarrow> 'i option \<times> 's) \<Rightarrow> ('s \<Rightarrow> 'i \<Rightarrow> 's) \<Rightarrow> 's \<Rightarrow> 'i list \<Rightarrow> pool_op list \<Rightarrow> 's \<times> 'i list" where
  "run_pool acquire release s held [] = (s, held)"
| "run_pool acquire release s held (Acquire # ops) =
     (case acquire s of
        (None, s') \<Rightarrow> run_pool acquire release s' held ops
      | (Some i, s') \<Rightarrow> run_pool acquire release s' (held @ [i]) ops)"
| "run_pool acquire release s held (Release k # ops) =
     (if k < length held
      then run_pool acquire release (release s (held ! k)) (take k held @ drop (Suc k) held) ops
      else run_pool acquire release s held ops)"

locale index_pool =
  fixes acquire :: "'s \<Rightarrow> 'i option \<times> 's"
    and release :: "'s \<Rightarrow> 'i \<Rightarrow> 's"
    and indices :: "'s \<Rightarrow> 'i set"
    and free :: "'s \<Rightarrow> 'i set"
    and invar :: "'s \<Rightarrow> bool"
  assumes finite_indices: "invar s \<Longrightarrow> finite (indices s)"
    and free_subset: "invar s \<Longrightarrow> free s \<subseteq> indices s"
    and acquire_none: "invar s \<Longrightarrow> free s = {} \<Longrightarrow> acquire s = (None, s)"
    and acquire_some: "invar s \<Longrightarrow> free s \<noteq> {} \<Longrightarrow>
      \<exists>i s'. acquire s = (Some i, s') \<and> i \<in> free s \<and> free s' = free s - {i}
        \<and> indices s' = indices s \<and> invar s'"
    and release_free: "invar s \<Longrightarrow> i \<in> indices s - free s \<Longrightarrow>
      free (release s i) = insert i (free s) \<and> indices (release s i) = indices s \<and> invar (release s i)"
begin

lemma acquire_cases:
  assumes "invar s"
  obtains (exhausted) "free s = {}" "acquire s = (None, s)"
  | (acquired) i s' where "acquire s = (Some i, s')" "i \<in> free s" "free s' = free s - {i}"
      "indices s' = indices s" "invar s'"
  using assms acquire_none acquire_some by blast

text \<open>The indices a client holds are distinct, and are exactly those that are not free.\<close>

lemma run_distinct:
  assumes "invar s" "distinct held" "set held = indices s - free s"
    and "run_pool acquire release s held ops = (s', held')"
  shows "invar s' \<and> distinct held' \<and> set held' = indices s' - free s' \<and> indices s' = indices s"
  using assms
proof (induction ops arbitrary: s held)
  case (Cons op ops)
  show ?case
  proof (cases op)
    case Acquire
    from Cons.prems(1) show ?thesis
    proof (cases rule: acquire_cases)
      case exhausted
      with Cons.prems Acquire show ?thesis by (intro Cons.IH) simp_all
    next
      case (acquired i s1)
      have "set (held @ [i]) = indices s1 - free s1" "distinct (held @ [i])"
        using acquired Cons.prems(2,3) free_subset [OF Cons.prems(1)] by auto
      with Cons.IH [of s1 "held @ [i]"] acquired Cons.prems(4) Acquire show ?thesis by simp
    qed
  next
    case (Release k)
    show ?thesis
    proof (cases "k < length held")
      case True
      define rest where "rest = take k held @ drop (Suc k) held"
      have held: "held = take k held @ held ! k # drop (Suc k) held" using True by (rule id_take_nth_drop)
      have rest: "distinct rest" "held ! k \<notin> set rest" "set held = insert (held ! k) (set rest)"
        using Cons.prems(2) unfolding rest_def by (subst (asm) held, force)+ (subst held, auto)
      from True Cons.prems(3) have mem: "held ! k \<in> indices s - free s" by (metis nth_mem)
      note rel = release_free [OF Cons.prems(1) mem]
      have "set rest = indices (release s (held ! k)) - free (release s (held ! k))"
        using rel rest Cons.prems(3) by auto
      with Cons.IH [of "release s (held ! k)" rest] rel rest(1) Cons.prems(4) Release True
      show ?thesis by (simp add: rest_def)
    next
      case False
      with Cons.prems Release show ?thesis by (intro Cons.IH) simp_all
    qed
  qed
qed simp

lemma acquire_fails_iff:
  assumes "invar s"
  shows "fst (acquire s) = None \<longleftrightarrow> free s = {}"
  using assms by (cases rule: acquire_cases) auto

end

end
