(* ===== verification/Unique_Index_Set.thy ===== *)
theory Unique_Index_Set
  imports Elementary Index_Pool_Interface
begin

text \<open>
  The lock-free set of unique indices of
  \<^verbatim>\<open>iceoryx2-bb/lock-free/src/mpmc/unique_index_set.rs\<close>: a free list threaded through an array
  of \<open>u32\<close>, whose head shares one \<open>u64\<close> with an ABA counter and the number of borrowed
  indices. Each compare-exchange loop is modelled by its successful iteration. An index out
  of range is an access through a raw pointer in the code; the callers' contract excludes it.
  \<open>Unique_Index_Set_Conc\<close> treats any number of interleaved threads.
\<close>

unbundle bit_operations_syntax

section \<open>State and operations\<close>

datatype UniqueIndexCreationError = ProvidedCapacityGreaterThanMaxCapacity | ProvidedCapacityIsZero

datatype ReleaseMode = LockIfLastIndex | Default

datatype ReleaseState = Locked | Unlocked

datatype UniqueIndexSetAcquireFailure = OutOfIndices | IsLocked

definition LOCK_ACQUIRE :: u32 where
  "LOCK_ACQUIRE = 0x00ffffff"

record HeadDetails =
  hd_head :: u32
  hd_aba :: u16
  hd_borrowed_indices :: u32

definition head_from :: "u64 \<Rightarrow> HeadDetails" where
  "head_from value =
     \<lparr>hd_head = ucast (drop_bit 40 value) AND 0xffffff,
      hd_aba = ucast (drop_bit 24 value),
      hd_borrowed_indices = ucast value AND 0xffffff\<rparr>"

definition head_value :: "HeadDetails \<Rightarrow> u64" where
  "head_value d =
     push_bit 40 (ucast (hd_head d AND 0x00ffffff))
     OR push_bit 24 (ucast (hd_aba d))
     OR ucast (hd_borrowed_indices d AND 0x00ffffff)"

record unique_index_set =
  uis_data :: "u32 list"
  uis_capacity :: u32
  uis_head :: u64
  uis_is_memory_initialized :: bool

definition uis_new_uninit :: "bool \<Rightarrow> nat \<Rightarrow> unique_index_set option" where
  "uis_new_uninit dbg capacity = do {
     _ \<leftarrow> debug_assert dbg (capacity < 2 ^ 24 - 1);
     Some \<lparr>uis_data = [], uis_capacity = of_nat capacity, uis_head = 0,
           uis_is_memory_initialized = False\<rparr> }"

definition uis_init ::
  "(layout \<Rightarrow> AllocationError + nat) \<Rightarrow> unique_index_set \<Rightarrow> (AllocationError + unique_index_set) option" where
  "uis_init allocate s =
     (if uis_is_memory_initialized s then None
      else case allocate \<lparr>lsize = 4 * unat (uis_capacity s + 1), lalign = 4\<rparr> of
        Inl e \<Rightarrow> Some (Inl e)
      | Inr _ \<Rightarrow> Some (Inr (s\<lparr>
          uis_data := map (\<lambda>i. of_nat i + 1) [0..<unat (uis_capacity s + 1)],
          uis_is_memory_initialized := True\<rparr>)))"

definition uis_memory_size :: "nat \<Rightarrow> nat" where
  "uis_memory_size capacity = 4 * (capacity + 1) + 4 - 1"

definition uis_borrowed_indices :: "unique_index_set \<Rightarrow> nat" where
  "uis_borrowed_indices s =
     (let b = hd_borrowed_indices (head_from (uis_head s)) in if b = LOCK_ACQUIRE then 0 else unat b)"

definition uis_is_locked :: "unique_index_set \<Rightarrow> bool" where
  "uis_is_locked s \<longleftrightarrow> hd_borrowed_indices (head_from (uis_head s)) = LOCK_ACQUIRE"

definition get_next_free_index :: "unique_index_set \<Rightarrow> u32 \<Rightarrow> u32" where
  "get_next_free_index s index = uis_data s ! unat index"

definition set_next_free_index :: "unique_index_set \<Rightarrow> u32 \<Rightarrow> u32 \<Rightarrow> unique_index_set" where
  "set_next_free_index s index value = s\<lparr>uis_data := (uis_data s)[unat index := value]\<rparr>"

definition acquire_raw_index ::
  "bool \<Rightarrow> unique_index_set \<Rightarrow> ((UniqueIndexSetAcquireFailure + u32) \<times> unique_index_set) option" where
  "acquire_raw_index dbg s = do {
     _ \<leftarrow> debug_assert dbg (uis_is_memory_initialized s);
     let old = head_from (uis_head s) in
     if uis_capacity s \<le> hd_head old then Some (Inl OutOfIndices, s)
     else if hd_borrowed_indices old = LOCK_ACQUIRE then Some (Inl IsLocked, s)
     else
       let new_value = head_value
             \<lparr>hd_head = get_next_free_index s (hd_head old),
              hd_aba = hd_aba old + 1,
              hd_borrowed_indices = hd_borrowed_indices old + 1\<rparr>;
           index = hd_head old
       in Some (Inr index, set_next_free_index (s\<lparr>uis_head := new_value\<rparr>) index (uis_capacity s + 1)) }"

definition release_raw_index ::
  "bool \<Rightarrow> unique_index_set \<Rightarrow> u32 \<Rightarrow> ReleaseMode \<Rightarrow> (ReleaseState \<times> unique_index_set) option" where
  "release_raw_index dbg s index mode = do {
     _ \<leftarrow> debug_assert dbg (uis_is_memory_initialized s);
     let old = head_from (uis_head s);
     let s1 = set_next_free_index s index (hd_head old);
     (release_state, borrowed_indices) \<leftarrow>
       (if mode = LockIfLastIndex \<and> hd_borrowed_indices old = 1 then Some (Locked, LOCK_ACQUIRE)
        else do { b \<leftarrow> word_sub dbg (hd_borrowed_indices old) 1; Some (Unlocked, b) });
     let new_value = head_value
           \<lparr>hd_head = index, hd_aba = hd_aba old + 1, hd_borrowed_indices = borrowed_indices\<rparr>;
     Some (release_state, s1\<lparr>uis_head := new_value\<rparr>) }"

text \<open>
  The fixed-size variant: its own array directly follows the state, and the bump allocator
  that starts there always succeeds.
\<close>

definition uis_new_with_reduced_capacity ::
  "bool \<Rightarrow> nat \<Rightarrow> nat \<Rightarrow> (UniqueIndexCreationError + unique_index_set) option" where
  "uis_new_with_reduced_capacity dbg CAPACITY capacity =
     (if CAPACITY < capacity then Some (Inl ProvidedCapacityGreaterThanMaxCapacity)
      else if capacity = 0 then Some (Inl ProvidedCapacityIsZero)
      else do {
        s \<leftarrow> uis_new_uninit dbg capacity;
        r \<leftarrow> uis_init (\<lambda>l. fst (bump_allocate (bump_new 0) l)) s;
        case r of Inl _ \<Rightarrow> None | Inr s' \<Rightarrow> Some (Inr s') })"

section \<open>The packed head\<close>

lemma mask24: "(0xffffff :: 'a::len word) = mask 24"
  by (simp add: mask_eq_exp_minus_1)

lemma and_mask24 [simp]: "a < 2 ^ 24 \<Longrightarrow> a AND 0xffffff = a" for a :: u32
  unfolding mask24 take_bit_eq_mask [symmetric]
  by (simp add: word_unat_eq_iff unsigned_take_bit_eq word_less_nat_alt take_bit_nat_eq_self)

lemma head_from_head_value:
  "head_from (head_value d) =
     \<lparr>hd_head = hd_head d AND 0xffffff, hd_aba = hd_aba d,
      hd_borrowed_indices = hd_borrowed_indices d AND 0xffffff\<rparr>"
  unfolding head_from_def head_value_def mask24
  by (simp, intro conjI; rule bit_word_eqI; auto simp: bit_simps dest: bit_imp_le_length)

section \<open>The free list\<close>

text \<open>\<open>chain data cap h F\<close>: from \<open>h\<close> the links lead through \<open>F\<close> to the end mark \<open>cap\<close>.\<close>

fun chain :: "u32 list \<Rightarrow> u32 \<Rightarrow> u32 \<Rightarrow> u32 list \<Rightarrow> bool" where
  "chain data cap h [] \<longleftrightarrow> h = cap"
| "chain data cap h (i # F) \<longleftrightarrow> h = i \<and> i < cap \<and> chain data cap (data ! unat i) F"

fun follow :: "u32 list \<Rightarrow> u32 \<Rightarrow> nat \<Rightarrow> u32 \<Rightarrow> u32 list" where
  "follow data cap 0 h = []"
| "follow data cap (Suc n) h = (if cap \<le> h then [] else h # follow data cap n (data ! unat h))"

lemma follow_numeral [simp]:
  "follow data cap (numeral k) h =
     (if cap \<le> h then [] else h # follow data cap (pred_numeral k) (data ! unat h))"
  by (simp add: numeral_eq_Suc)

definition uis_free_list :: "unique_index_set \<Rightarrow> u32 list" where
  "uis_free_list s =
     follow (uis_data s) (uis_capacity s) (unat (uis_capacity s)) (hd_head (head_from (uis_head s)))"

definition uis_inv :: "unique_index_set \<Rightarrow> bool" where
  "uis_inv s \<longleftrightarrow>
     uis_is_memory_initialized s \<and> unat (uis_capacity s) < 2 ^ 24 - 1 \<and>
     length (uis_data s) = unat (uis_capacity s) + 1 \<and>
     (let d = head_from (uis_head s); F = uis_free_list s in
      chain (uis_data s) (uis_capacity s) (hd_head d) F \<and> distinct F \<and>
      (if hd_borrowed_indices d = LOCK_ACQUIRE then length F = unat (uis_capacity s)
       else unat (hd_borrowed_indices d) + length F = unat (uis_capacity s)))"

lemma chain_less: "chain data cap h F \<Longrightarrow> i \<in> set F \<Longrightarrow> i < cap"
  by (induction F arbitrary: h) auto

lemma chain_head: "chain data cap h F \<Longrightarrow> h \<le> cap"
  by (cases F) auto

lemma chain_update: "j \<notin> set F \<Longrightarrow> chain (data[unat j := v]) cap h F = chain data cap h F"
proof (induction F arbitrary: h)
  case (Cons i F)
  then have "unat j \<noteq> unat i" by (auto simp: word_unat_eq_iff)
  with Cons show ?case by simp
qed simp

lemma follow_chain: "chain data cap h F \<Longrightarrow> length F \<le> n \<Longrightarrow> follow data cap n h = F"
proof (induction F arbitrary: h n)
  case Nil
  then show ?case by (cases n) auto
next
  case (Cons i F)
  then show ?case by (cases n) auto
qed

lemma chain_upt:
  assumes "unat cap < 2 ^ 32 - 1" "n \<le> unat cap" "data = map (\<lambda>i. of_nat i + 1) [0..<unat cap + 1]"
  shows "chain data cap (of_nat n) (map of_nat [n..<unat cap])"
  using assms(2)
proof (induction "unat cap - n" arbitrary: n)
  case 0
  then have "n = unat cap" by simp
  then show ?case by simp
next
  case (Suc k)
  then have n: "n < unat cap" by simp
  then have un: "unat (of_nat n :: u32) = n" using assms(1) by (simp add: unat_of_nat_small)
  then have "(of_nat n :: u32) < cap" using n by (simp add: word_less_nat_alt)
  moreover have "chain data cap (of_nat (Suc n)) (map of_nat [Suc n..<unat cap])"
    using Suc n by (intro Suc.hyps) auto
  moreover have "data ! n = of_nat (Suc n)"
    using n unfolding assms(3) by (simp add: add.commute del: upt_Suc)
  ultimately show ?case using n un by (simp add: upt_conv_Cons del: upt_Suc)
qed

lemma chain_length:
  assumes "chain data cap h F" "distinct F"
  shows "length F \<le> unat cap" and "i < cap \<Longrightarrow> i \<notin> set F \<Longrightarrow> length F < unat cap"
proof -
  have sub: "set F \<subseteq> {i. i < cap}" using chain_less [OF assms(1)] by auto
  show "length F \<le> unat cap"
    using card_mono [OF _ sub] distinct_card [OF assms(2)] by simp
  show "length F < unat cap" if "i < cap" "i \<notin> set F"
  proof -
    have "set F \<subset> {i. i < cap}" using sub that by auto
    from psubset_card_mono [OF _ this] distinct_card [OF assms(2)] show ?thesis
      by simp
  qed
qed

section \<open>The invariant and the interface\<close>

lemma uis_invI:
  assumes "uis_is_memory_initialized s" "unat (uis_capacity s) < 2 ^ 24 - 1"
    and "length (uis_data s) = unat (uis_capacity s) + 1"
    and "head_from (uis_head s) = \<lparr>hd_head = h, hd_aba = a, hd_borrowed_indices = b\<rparr>"
    and F: "chain (uis_data s) (uis_capacity s) h F" "distinct F"
    and "if b = LOCK_ACQUIRE then length F = unat (uis_capacity s)
         else unat b + length F = unat (uis_capacity s)"
  shows "uis_inv s" and "uis_free_list s = F"
proof -
  from assms show "uis_free_list s = F"
    by (simp add: uis_free_list_def follow_chain [OF F(1) chain_length(1) [OF F]])
  with assms show "uis_inv s" by (simp add: uis_inv_def Let_def)
qed

lemma uis_capacity_small:
  assumes "uis_inv s" "i \<le> uis_capacity s"
  shows "i < 2 ^ 24"
proof -
  from assms have "unat i < 2 ^ 24 - 1" by (auto simp: uis_inv_def word_le_nat_alt)
  then show ?thesis by (simp add: word_less_nat_alt)
qed

lemma uis_invD:
  assumes "uis_inv s"
  shows "uis_is_memory_initialized s" "unat (uis_capacity s) < 2 ^ 24 - 1"
    "length (uis_data s) = unat (uis_capacity s) + 1"
    "chain (uis_data s) (uis_capacity s) (hd_head (head_from (uis_head s))) (uis_free_list s)"
    "distinct (uis_free_list s)"
    "if uis_is_locked s then length (uis_free_list s) = unat (uis_capacity s)
     else unat (hd_borrowed_indices (head_from (uis_head s))) + length (uis_free_list s) = unat (uis_capacity s)"
  using assms by (simp_all add: uis_inv_def Let_def uis_is_locked_def)

text \<open>
  The three ways the shared memory changes: a write to the link of an index that is not
  free, the compare-exchange that takes the first free index and the one that puts an index
  in front. Each keeps the invariant by itself, so the interleavings of them do too.
\<close>

lemma uis_write_unused:
  assumes inv: "uis_inv s" and i: "i \<notin> set (uis_free_list s)"
  shows "uis_inv (set_next_free_index s i v)" "uis_free_list (set_next_free_index s i v) = uis_free_list s"
proof -
  let ?s = "set_next_free_index s i v" and ?d = "head_from (uis_head s)"
  note D = uis_invD [OF inv]
  have hd: "head_from (uis_head ?s) =
      \<lparr>hd_head = hd_head ?d, hd_aba = hd_aba ?d, hd_borrowed_indices = hd_borrowed_indices ?d\<rparr>"
    by (simp add: set_next_free_index_def)
  have ch: "chain (uis_data ?s) (uis_capacity ?s) (hd_head ?d) (uis_free_list s)"
    using D(4) by (simp add: set_next_free_index_def chain_update [OF i])
  have "uis_inv ?s \<and> uis_free_list ?s = uis_free_list s"
    using uis_invI [OF _ _ _ hd ch D(5)] D by (auto simp: set_next_free_index_def uis_is_locked_def)
  then show "uis_inv ?s" "uis_free_list ?s = uis_free_list s" by simp_all
qed

lemma uis_new_head:
  assumes inv: "uis_inv s"
    and s': "s' = s\<lparr>uis_head := head_value \<lparr>hd_head = h, hd_aba = a, hd_borrowed_indices = b\<rparr>\<rparr>"
    and F: "chain (uis_data s) (uis_capacity s) h F" "distinct F"
    and b: "if b = LOCK_ACQUIRE then length F = unat (uis_capacity s)
         else unat b + length F = unat (uis_capacity s)"
  shows "uis_inv s'" "uis_free_list s' = F"
    "head_from (uis_head s') = \<lparr>hd_head = h, hd_aba = a, hd_borrowed_indices = b\<rparr>"
proof -
  note D = uis_invD [OF inv]
  have "b < 2 ^ 24"
    using b D(2) by (auto simp: LOCK_ACQUIRE_def word_less_nat_alt split: if_splits)
  moreover have "h < 2 ^ 24" by (rule uis_capacity_small [OF inv chain_head [OF F(1)]])
  ultimately show hd: "head_from (uis_head s') = \<lparr>hd_head = h, hd_aba = a, hd_borrowed_indices = b\<rparr>"
    by (simp add: s' head_from_head_value)
  from F D b have "chain (uis_data s') (uis_capacity s') h F" "uis_is_memory_initialized s'"
    "unat (uis_capacity s') < 2 ^ 24 - 1" "length (uis_data s') = unat (uis_capacity s') + 1"
    by (simp_all add: s')
  from uis_invI [OF this(2-4) hd this(1) F(2)] b show "uis_inv s'" "uis_free_list s' = F"
    by (simp_all add: s')
qed

lemma uis_take_head:
  assumes inv: "uis_inv s" and F: "uis_free_list s = i # F" and unlocked: "\<not> uis_is_locked s"
    and s': "s' = s\<lparr>uis_head := head_value
      \<lparr>hd_head = uis_data s ! unat i, hd_aba = hd_aba (head_from (uis_head s)) + 1,
       hd_borrowed_indices = hd_borrowed_indices (head_from (uis_head s)) + 1\<rparr>\<rparr>"
  shows "uis_inv s'" "uis_free_list s' = F" "\<not> uis_is_locked s'"
    "hd_aba (head_from (uis_head s')) = hd_aba (head_from (uis_head s)) + 1"
    "uis_borrowed_indices s' = uis_borrowed_indices s + 1"
proof -
  let ?b = "hd_borrowed_indices (head_from (uis_head s))"
  note D = uis_invD [OF inv]
  from D(4-6) F unlocked have b: "unat ?b + length F + 1 = unat (uis_capacity s)"
    and ch: "chain (uis_data s) (uis_capacity s) (uis_data s ! unat i) F" "distinct F"
    by simp_all
  from b D(2) have b1: "unat (?b + 1) = unat ?b + 1" by (simp add: unat_word_ariths)
  have nl: "?b + 1 \<noteq> LOCK_ACQUIRE" "?b \<noteq> LOCK_ACQUIRE"
    using b b1 D(2) by (auto simp: LOCK_ACQUIRE_def dest: arg_cong [of _ _ unat])
  from uis_new_head [OF inv s' ch] b b1 nl
  show "uis_inv s'" "uis_free_list s' = F" "\<not> uis_is_locked s'"
    "hd_aba (head_from (uis_head s')) = hd_aba (head_from (uis_head s)) + 1"
    "uis_borrowed_indices s' = uis_borrowed_indices s + 1"
    by (simp_all add: uis_is_locked_def uis_borrowed_indices_def)
qed

definition release_outcome :: "ReleaseMode \<Rightarrow> u32 \<Rightarrow> ReleaseState \<times> u32" where
  "release_outcome mode b =
     (if mode = LockIfLastIndex \<and> b = 1 then (Locked, LOCK_ACQUIRE) else (Unlocked, b - 1))"

lemma uis_put_head:
  assumes inv: "uis_inv s" and i: "i < uis_capacity s" "i \<notin> set (uis_free_list s)"
    and link: "uis_data s ! unat i = hd_head (head_from (uis_head s))"
    and s': "s' = s\<lparr>uis_head := head_value
      \<lparr>hd_head = i, hd_aba = hd_aba (head_from (uis_head s)) + 1,
       hd_borrowed_indices = snd (release_outcome mode (hd_borrowed_indices (head_from (uis_head s))))\<rparr>\<rparr>"
  shows "uis_inv s'" "uis_free_list s' = i # uis_free_list s" "\<not> uis_is_locked s"
    "uis_is_locked s' \<longleftrightarrow> mode = LockIfLastIndex \<and> uis_borrowed_indices s = 1"
    "hd_aba (head_from (uis_head s')) = hd_aba (head_from (uis_head s)) + 1"
    "uis_borrowed_indices s = uis_borrowed_indices s' + 1"
    "1 \<le> hd_borrowed_indices (head_from (uis_head s))"
proof -
  let ?b = "hd_borrowed_indices (head_from (uis_head s))" and ?F = "uis_free_list s"
  let ?b' = "snd (release_outcome mode ?b)"
  note D = uis_invD [OF inv]
  have "length ?F < unat (uis_capacity s)" using chain_length(2) [OF D(4,5) i] .
  with D(6) show unlocked: "\<not> uis_is_locked s" by (auto split: if_splits)
  with D(6) \<open>length ?F < _\<close> have b: "unat ?b + length ?F = unat (uis_capacity s)" "0 < unat ?b" by auto
  then show "1 \<le> ?b" by (simp add: word_le_nat_alt)
  with b have b1: "unat (?b - 1) = unat ?b - 1" by (simp add: unat_sub)
  have nl: "?b - 1 \<noteq> LOCK_ACQUIRE" "?b \<noteq> LOCK_ACQUIRE"
    using b b1 D(2) by (auto simp: LOCK_ACQUIRE_def dest: arg_cong [of _ _ unat])
  have one: "?b = 1 \<longleftrightarrow> unat ?b = 1" by (simp add: word_unat_eq_iff)
  have ch: "chain (uis_data s) (uis_capacity s) i (i # ?F)" "distinct (i # ?F)"
    using D(4,5) i link by simp_all
  have b': "if ?b' = LOCK_ACQUIRE then length (i # ?F) = unat (uis_capacity s)
      else unat ?b' + length (i # ?F) = unat (uis_capacity s)"
    using b b1 nl by (auto simp: release_outcome_def one)
  note new = uis_new_head [OF inv s' ch b']
  from new show "uis_inv s'" "uis_free_list s' = i # ?F"
    "hd_aba (head_from (uis_head s')) = hd_aba (head_from (uis_head s)) + 1"
    by simp_all
  show "uis_is_locked s' \<longleftrightarrow> mode = LockIfLastIndex \<and> uis_borrowed_indices s = 1"
    "uis_borrowed_indices s = uis_borrowed_indices s' + 1"
    using b b1 nl by (auto simp: uis_is_locked_def uis_borrowed_indices_def new(3) release_outcome_def one)
qed

section \<open>The operations\<close>

lemma acquire_raw_index_cases:
  assumes inv: "uis_inv s"
  obtains
    (out) "acquire_raw_index dbg s = Some (Inl OutOfIndices, s)" "uis_free_list s = []"
      "uis_borrowed_indices s = unat (uis_capacity s)"
  | (locked) "acquire_raw_index dbg s = Some (Inl IsLocked, s)" "uis_free_list s \<noteq> []" "uis_is_locked s"
  | (ok) i F s' where "acquire_raw_index dbg s = Some (Inr i, s')" "uis_free_list s = i # F" "\<not> uis_is_locked s"
      "uis_inv s'" "uis_free_list s' = F" "uis_capacity s' = uis_capacity s" "\<not> uis_is_locked s'"
      "uis_borrowed_indices s' = uis_borrowed_indices s + 1"
proof -
  let ?d = "head_from (uis_head s)"
  note D = uis_invD [OF inv]
  note defs = acquire_raw_index_def uis_borrowed_indices_def uis_is_locked_def Let_def
  show ?thesis
  proof (cases "uis_free_list s")
    case Nil
    with D show ?thesis by (intro out) (auto simp: defs split: if_splits)
  next
    case (Cons i F)
    with D have hd: "hd_head ?d = i" "i < uis_capacity s" "\<not> uis_capacity s \<le> i" by auto
    show ?thesis
    proof (cases "uis_is_locked s")
      case True
      with D hd Cons show ?thesis by (intro locked) (auto simp: defs)
    next
      case False
      define s1 where "s1 = s\<lparr>uis_head := head_value
        \<lparr>hd_head = uis_data s ! unat i, hd_aba = hd_aba ?d + 1,
         hd_borrowed_indices = hd_borrowed_indices ?d + 1\<rparr>\<rparr>"
      let ?s' = "set_next_free_index s1 i (uis_capacity s + 1)"
      note taken = uis_take_head [OF inv Cons False s1_def]
      have "i \<notin> set F" using D(5) Cons by simp
      with taken uis_write_unused [OF taken(1), of i]
      have "uis_inv ?s'" "uis_free_list ?s' = F" by simp_all
      moreover have "acquire_raw_index dbg s = Some (Inr i, ?s')"
        using D hd False by (simp add: defs s1_def get_next_free_index_def)
      moreover have "uis_capacity ?s' = uis_capacity s" "\<not> uis_is_locked ?s'"
        "uis_borrowed_indices ?s' = uis_borrowed_indices s + 1"
        using taken
        by (simp_all add: s1_def set_next_free_index_def uis_is_locked_def uis_borrowed_indices_def)
      ultimately show ?thesis using False Cons by (intro ok [of i ?s' F])
    qed
  qed
qed

lemma release_raw_index_cases:
  assumes inv: "uis_inv s" and i: "i < uis_capacity s" "i \<notin> set (uis_free_list s)"
  obtains s' where
    "release_raw_index dbg s i mode =
       Some (if mode = LockIfLastIndex \<and> uis_borrowed_indices s = 1 then Locked else Unlocked, s')"
    "uis_inv s'" "uis_free_list s' = i # uis_free_list s" "uis_capacity s' = uis_capacity s"
    "uis_is_locked s' \<longleftrightarrow> mode = LockIfLastIndex \<and> uis_borrowed_indices s = 1"
    "uis_borrowed_indices s = uis_borrowed_indices s' + 1" "\<not> uis_is_locked s"
proof -
  let ?d = "head_from (uis_head s)"
  define s1 where "s1 = set_next_free_index s i (hd_head ?d)"
  define s' where "s' = s1\<lparr>uis_head := head_value
      \<lparr>hd_head = i, hd_aba = hd_aba (head_from (uis_head s1)) + 1,
       hd_borrowed_indices = snd (release_outcome mode (hd_borrowed_indices (head_from (uis_head s1))))\<rparr>\<rparr>"
  have same: "uis_head s1 = uis_head s" "uis_capacity s1 = uis_capacity s"
    "uis_is_locked s1 = uis_is_locked s" "uis_borrowed_indices s1 = uis_borrowed_indices s"
    by (simp_all add: s1_def set_next_free_index_def uis_is_locked_def uis_borrowed_indices_def)
  have inv1: "uis_inv s1" "uis_free_list s1 = uis_free_list s"
    using uis_write_unused [OF inv i(2)] by (simp_all add: s1_def)
  have link: "uis_data s1 ! unat i = hd_head (head_from (uis_head s1))"
    using i(1) uis_invD(3) [OF inv] by (simp add: s1_def set_next_free_index_def word_less_nat_alt)
  note put = uis_put_head [OF inv1(1) _ _ link s'_def, unfolded same inv1(2), OF i]
  have b: "hd_borrowed_indices ?d = 1 \<longleftrightarrow> uis_borrowed_indices s = 1"
    using put(3) by (auto simp: uis_borrowed_indices_def uis_is_locked_def word_unat_eq_iff LOCK_ACQUIRE_def)
  have "release_raw_index dbg s i mode =
       Some (if mode = LockIfLastIndex \<and> uis_borrowed_indices s = 1 then Locked else Unlocked, s')"
    using uis_invD(1) [OF inv] put(7) b
    by (simp add: release_raw_index_def s'_def same release_outcome_def s1_def [symmetric] Let_def)
  moreover have "uis_capacity s' = uis_capacity s" by (simp add: s'_def same)
  ultimately show ?thesis using put that by blast
qed

lemma uis_new_inv:
  assumes "uis_new_uninit dbg n = Some s0" "uis_init allocate s0 = Some (Inr s)" "n < 2 ^ 24 - 1"
  shows "uis_inv s" "uis_capacity s = of_nat n" "uis_free_list s = map of_nat [0..<n]"
    "uis_borrowed_indices s = 0" "\<not> uis_is_locked s"
proof -
  let ?cap = "of_nat n :: u32"
  have n: "unat ?cap = n" using assms(3) by (intro unat_of_nat_small) simp
  then have n1: "unat (?cap + 1) = n + 1" using assms(3) by (simp add: unat_word_ariths)
  have s: "s = \<lparr>uis_data = map (\<lambda>i. of_nat i + 1) [0..<n + 1], uis_capacity = ?cap, uis_head = 0,
      uis_is_memory_initialized = True\<rparr>"
    using assms n1 by (auto simp: uis_new_uninit_def uis_init_def bind_eq_Some_conv split: sum.splits)
  have ch: "chain (uis_data s) (uis_capacity s) 0 (map of_nat [0..<n])"
    using chain_upt [of ?cap 0 "uis_data s"] assms(3) n by (simp add: s del: upt_Suc)
  have dist: "distinct (map of_nat [0..<n] :: u32 list)"
    using assms(3) by (intro distinct_map_of_nat) simp
  have hd: "head_from (uis_head s) = \<lparr>hd_head = 0, hd_aba = 0, hd_borrowed_indices = 0\<rparr>"
    by (simp add: s head_from_def)
  have fields: "uis_is_memory_initialized s" "unat (uis_capacity s) < 2 ^ 24 - 1"
    "length (uis_data s) = unat (uis_capacity s) + 1"
    "if (0::u32) = LOCK_ACQUIRE then length (map of_nat [0..<n] :: u32 list) = unat (uis_capacity s)
     else unat (0::u32) + length (map of_nat [0..<n] :: u32 list) = unat (uis_capacity s)"
    using n assms(3) by (simp_all add: s LOCK_ACQUIRE_def del: upt_Suc)
  from uis_invI [OF fields(1-3) hd ch dist fields(4)]
  show "uis_inv s" "uis_free_list s = map of_nat [0..<n]" .
  show "uis_capacity s = of_nat n" by (simp add: s)
  show "uis_borrowed_indices s = 0" "\<not> uis_is_locked s"
    by (simp_all add: uis_borrowed_indices_def uis_is_locked_def hd LOCK_ACQUIRE_def)
qed

text \<open>
  The interface of the pool allocators, which release with \<open>ReleaseMode::Default\<close> and so never
  lock the set.
\<close>

definition uis_acquire :: "unique_index_set \<Rightarrow> u32 option \<times> unique_index_set" where
  "uis_acquire s = (case acquire_raw_index True s of
      Some (Inr i, s') \<Rightarrow> (Some i, s') | _ \<Rightarrow> (None, s))"

definition uis_release :: "unique_index_set \<Rightarrow> u32 \<Rightarrow> unique_index_set" where
  "uis_release s i = (case release_raw_index True s i Default of Some (_, s') \<Rightarrow> s' | None \<Rightarrow> s)"

definition uis_free :: "unique_index_set \<Rightarrow> u32 set" where
  "uis_free s = set (uis_free_list s)"

definition uis_indices :: "unique_index_set \<Rightarrow> u32 set" where
  "uis_indices s = {i. i < uis_capacity s}"

definition uis_unlocked :: "unique_index_set \<Rightarrow> bool" where
  "uis_unlocked s \<longleftrightarrow> uis_inv s \<and> \<not> uis_is_locked s"

lemma uis_inv_free:
  assumes "uis_inv s"
  shows "distinct (uis_free_list s)" "uis_free s \<subseteq> uis_indices s"
    "\<not> uis_is_locked s \<Longrightarrow> uis_borrowed_indices s + length (uis_free_list s) = unat (uis_capacity s)"
  using assms
  by (auto simp: uis_inv_def Let_def uis_free_def uis_indices_def uis_borrowed_indices_def uis_is_locked_def
      intro: chain_less)

lemma uis_borrowed_indices_less: "uis_borrowed_indices s < 2 ^ 32"
proof -
  have "unat w < 2 ^ LENGTH(32)" for w :: u32 by (rule unsigned_less)
  then show ?thesis by (simp add: uis_borrowed_indices_def Let_def)
qed

interpretation uis: index_pool uis_acquire uis_release uis_indices uis_free uis_unlocked
proof unfold_locales
  fix s i assume "uis_unlocked s"
  then have inv: "uis_inv s" "\<not> uis_is_locked s" by (simp_all add: uis_unlocked_def)
  show "finite (uis_indices s)" by simp
  show "uis_free s \<subseteq> uis_indices s" using inv by (simp add: uis_inv_free)
  show "uis_acquire s = (None, s)" if "uis_free s = {}"
    using inv that by (cases rule: acquire_raw_index_cases [OF inv(1), of True])
      (auto simp: uis_unlocked_def uis_acquire_def uis_free_def)
  show "\<exists>i s'. uis_acquire s = (Some i, s') \<and> i \<in> uis_free s \<and> uis_free s' = uis_free s - {i}
        \<and> uis_indices s' = uis_indices s \<and> uis_unlocked s'" if "uis_free s \<noteq> {}"
    using inv(1)
  proof (cases rule: acquire_raw_index_cases [where dbg = True])
    case (ok i F s')
    with uis_inv_free(1) [OF inv(1)] have "distinct (i # F)" by simp
    with ok show ?thesis
      by (auto simp: uis_unlocked_def uis_acquire_def uis_free_def uis_indices_def)
  qed (use inv that in \<open>auto simp: uis_unlocked_def uis_free_def\<close>)
  show "uis_free (uis_release s i) = insert i (uis_free s) \<and> uis_indices (uis_release s i) = uis_indices s
      \<and> uis_unlocked (uis_release s i)" if "i \<in> uis_indices s - uis_free s"
    using that inv
    by (cases rule: release_raw_index_cases [OF inv(1), of i True Default])
      (auto simp: uis_unlocked_def uis_release_def uis_free_def uis_indices_def)
qed

section \<open>Properties\<close>

text \<open>C32: Unpacking the atomic head gives back the packed fields, for every head and borrow count of
  24 bits; the three fields do not overlap.\<close>

theorem head_details_roundtrip:
  assumes "hd_head d < 2 ^ 24" "hd_borrowed_indices d < 2 ^ 24"
  shows "head_from (head_value d) = d"
  using assms by (simp add: head_from_head_value)

theorem head_details_roundtrip_witness:
  "head_from (head_value \<lparr>hd_head = 12345, hd_aba = 6789, hd_borrowed_indices = 54321\<rparr>) =
   \<lparr>hd_head = 12345, hd_aba = 6789, hd_borrowed_indices = 54321\<rparr>"
  by (rule head_details_roundtrip) simp_all

text \<open>C18: A client that acquires and releases in any order never holds an index twice, only holds
  indices below the capacity, and is refused an index only while it holds all of them;
  \<open>borrowed_indices\<close> counts what it holds.\<close>

theorem unique_index_set_unique:
  assumes "uis_new_uninit dbg capacity = Some s0" "uis_init allocate s0 = Some (Inr s)"
    and "capacity < 2 ^ 24 - 1"
  shows "case run_pool uis_acquire uis_release s [] ops of (s', held) \<Rightarrow>
      distinct held \<and> (\<forall>i \<in> set held. unat i < capacity)
      \<and> uis_borrowed_indices s' = length held
      \<and> (fst (uis_acquire s') = None \<longleftrightarrow> length held = capacity)"
proof (cases "run_pool uis_acquire uis_release s [] ops")
  case (Pair s' held)
  note new = uis_new_inv [OF assms]
  have n: "unat (of_nat capacity :: u32) = capacity" using assms(3) by (intro unat_of_nat_small) simp
  have "{i::u32. i < of_nat capacity} = of_nat ` {0..<capacity}"
    using assms(3) by (intro word_less_image) simp
  with new have "set [] = uis_indices s - uis_free s" by (simp add: uis_indices_def uis_free_def)
  with uis.run_distinct [OF _ _ _ Pair] new
  have run: "uis_unlocked s'" "distinct held" "set held = uis_indices s' - uis_free s'"
    and idx: "uis_indices s' = uis_indices s"
    by (simp_all add: uis_unlocked_def)
  note free = uis_inv_free [of s']
  have "uis_capacity s' = uis_capacity s"
    using idx card_word_less [of "uis_capacity s"] card_word_less [of "uis_capacity s'"]
    by (simp add: uis_indices_def word_unat_eq_iff)
  with new n have cap: "unat (uis_capacity s') = capacity" by simp
  have "card (set held) = capacity - card (uis_free s')"
    using run free cap by (simp add: card_Diff_subset uis_indices_def uis_unlocked_def)
  moreover have "card (uis_free s') = length (uis_free_list s')"
    using run free by (simp add: uis_free_def distinct_card uis_unlocked_def)
  moreover have "uis_borrowed_indices s' + length (uis_free_list s') = capacity"
    using run free cap by (simp add: uis_unlocked_def)
  ultimately have len: "length held = uis_borrowed_indices s'"
    "length held + length (uis_free_list s') = capacity"
    using distinct_card [OF run(2)] by simp_all
  have "fst (uis_acquire s') = None \<longleftrightarrow> length held = capacity"
    using uis.acquire_fails_iff [OF run(1)] len by (auto simp: uis_free_def)
  moreover have "\<forall>i \<in> set held. unat i < capacity"
    using run(3) cap by (auto simp: uis_indices_def word_less_nat_alt)
  ultimately show ?thesis using Pair run(2) len by simp
qed

lemma word_numeral_le_1 [simp]: "numeral w \<le> (1::u32) \<longleftrightarrow> take_bit 32 (numeral w :: nat) \<le> 1"
  by (simp add: word_le_nat_alt)

abbreviation uis_of_two :: unique_index_set where
  "uis_of_two \<equiv> \<lparr>uis_data = [1, 2, 3], uis_capacity = 2, uis_head = 0, uis_is_memory_initialized = True\<rparr>"

lemmas uis_eval =
  uis_acquire_def uis_release_def acquire_raw_index_def release_raw_index_def head_from_def head_value_def
  get_next_free_index_def set_next_free_index_def LOCK_ACQUIRE_def word_sub_def uis_borrowed_indices_def

abbreviation uis_client_run :: "unique_index_set \<times> u32 list" where
  "uis_client_run \<equiv> run_pool uis_acquire uis_release uis_of_two [] [Acquire, Acquire, Acquire, Release 0]"

theorem unique_index_set_unique_witness:
  "snd uis_client_run = [1] \<and> uis_borrowed_indices (fst uis_client_run) = length (snd uis_client_run)"
proof
  have "uis_init (\<lambda>_. Inr 0) (uis_of_two\<lparr>uis_data := [], uis_is_memory_initialized := False\<rparr>)
      = Some (Inr uis_of_two)"
    by (simp add: uis_init_def upt_conv_Cons)
  from unique_index_set_unique [OF _ this, of True 2 "[Acquire, Acquire, Acquire, Release 0]"]
  have "case uis_client_run of (s', held) \<Rightarrow> uis_borrowed_indices s' = length held"
    by (simp add: uis_new_uninit_def case_prod_beta del: run_pool.simps)
  then show "uis_borrowed_indices (fst uis_client_run) = length (snd uis_client_run)"
    by (simp add: case_prod_beta del: run_pool.simps)
  show "snd uis_client_run = [1]" by (simp add: uis_eval)
qed

text \<open>C31: Releasing with \<open>LockIfLastIndex\<close> locks the set exactly when the last borrowed index comes
  back, and from then on every \<open>acquire\<close> fails with \<open>IsLocked\<close> and changes nothing.\<close>

theorem release_locks_last:
  assumes "uis_inv s" "i < uis_capacity s" "i \<notin> set (uis_free_list s)"
  shows "\<exists>s'. release_raw_index dbg s i LockIfLastIndex =
      Some (if uis_borrowed_indices s = 1 then Locked else Unlocked, s')
    \<and> uis_inv s' \<and> uis_borrowed_indices s' = uis_borrowed_indices s - 1
    \<and> (if uis_borrowed_indices s = 1
       then acquire_raw_index dbg s' = Some (Inl IsLocked, s')
       else \<exists>s''. acquire_raw_index dbg s' = Some (Inr i, s''))"
proof -
  obtain s' where s': "release_raw_index dbg s i LockIfLastIndex =
       Some (if uis_borrowed_indices s = 1 then Locked else Unlocked, s')"
    "uis_inv s'" "uis_free_list s' = i # uis_free_list s"
    "uis_is_locked s' \<longleftrightarrow> uis_borrowed_indices s = 1" "uis_borrowed_indices s = uis_borrowed_indices s' + 1"
    by (rule release_raw_index_cases [OF assms, of dbg LockIfLastIndex]) simp
  have "if uis_borrowed_indices s = 1 then acquire_raw_index dbg s' = Some (Inl IsLocked, s')
       else \<exists>s''. acquire_raw_index dbg s' = Some (Inr i, s'')"
    using s'(2-) by (cases rule: acquire_raw_index_cases [OF s'(2), of dbg]) auto
  with s' show ?thesis by (intro exI [of _ s']) simp
qed

text \<open>\<open>uis_of_two\<close> after one \<open>acquire\<close>.\<close>

abbreviation uis_one_taken :: unique_index_set where
  "uis_one_taken \<equiv> \<lparr>uis_data = [3, 2, 3], uis_capacity = 2, uis_head = 0x10001000001,
     uis_is_memory_initialized = True\<rparr>"

theorem release_locks_last_witness:
  "acquire_raw_index True uis_of_two = Some (Inr 0, uis_one_taken) \<and>
   (\<exists>s'. release_raw_index True uis_one_taken 0 LockIfLastIndex = Some (Locked, s')
     \<and> acquire_raw_index True s' = Some (Inl IsLocked, s'))"
proof
  show "acquire_raw_index True uis_of_two = Some (Inr 0, uis_one_taken)" by (simp add: uis_eval)
  have inv: "uis_inv uis_one_taken" "0 \<notin> set (uis_free_list uis_one_taken)"
    and one: "uis_borrowed_indices uis_one_taken = 1"
    by (simp_all add: uis_inv_def uis_free_list_def uis_borrowed_indices_def head_from_def LOCK_ACQUIRE_def)
  have "0 < uis_capacity uis_one_taken" by simp
  with release_locks_last [OF inv(1) _ inv(2), of True] one obtain s'
    where "release_raw_index True uis_one_taken 0 LockIfLastIndex = Some (Locked, s')"
      "acquire_raw_index True s' = Some (Inl IsLocked, s')"
    by (auto simp only: if_True refl)
  then show "\<exists>s'. release_raw_index True uis_one_taken 0 LockIfLastIndex = Some (Locked, s')
     \<and> acquire_raw_index True s' = Some (Inl IsLocked, s')"
    by blast
qed

end
