(* ===== verification/Unique_Index_Set_Conc.thy ===== *)
theory Unique_Index_Set_Conc
  imports Unique_Index_Set
begin

text \<open>
  Any number of threads acquiring and releasing indices of one \<open>UniqueIndexSet\<close>
  (\<^verbatim>\<open>unique_index_set.rs\<close>, \<open>acquire_raw_index\<close> and \<open>release_raw_index\<close>). Every access to the
  shared head or to a link is one atomic step; the steps interleave arbitrarily, over
  sequentially consistent memory.

  The ABA counter has 16 bits and wraps. \<open>updates\<close> counts the successful compare-exchanges
  (a ghost), a thread remembers its value when it loads the head, and \<open>timely\<close> is the
  hypothesis the code relies on: between a load of the head in \<open>acquire_raw_index\<close> and the
  compare-exchange that follows there are fewer than \<open>2 ^ 16\<close> updates. \<open>release_raw_index\<close>
  needs no such hypothesis.
\<close>

section \<open>Threads and steps\<close>

datatype uis_pc =
    TIdle
  | AStart                           \<comment> \<open>\<open>acquire_raw_index\<close> entered\<close>
  | ALoaded u64 nat                  \<comment> \<open>head loaded, neither exhausted nor locked\<close>
  | ANext u64 nat u32                \<comment> \<open>link of the head read: the compare-exchange comes next\<close>
  | AWon u32                         \<comment> \<open>compare-exchange succeeded: the link is overwritten next\<close>
  | RStart u32 ReleaseMode           \<comment> \<open>\<open>release_raw_index\<close> entered\<close>
  | RLoaded u32 ReleaseMode u64      \<comment> \<open>head loaded\<close>
  | RLinked u32 ReleaseMode u64      \<comment> \<open>link written: the compare-exchange comes next\<close>

record uis_system =
  shared :: unique_index_set
  updates :: nat
  pcs :: "nat \<Rightarrow> uis_pc"
  held :: "nat \<Rightarrow> u32 list"

definition uis_fresh :: "nat \<Rightarrow> unique_index_set" where
  "uis_fresh n = \<lparr>uis_data = map (\<lambda>i. of_nat i + 1) [0..<n + 1], uis_capacity = of_nat n,
     uis_head = 0, uis_is_memory_initialized = True\<rparr>"

definition uis_sys_init :: "nat \<Rightarrow> uis_system" where
  "uis_sys_init n = \<lparr>shared = uis_fresh n, updates = 0, pcs = (\<lambda>t. TIdle), held = (\<lambda>t. [])\<rparr>"

text \<open>The checks at the head of the loop, on a freshly loaded value.\<close>

definition acquire_entry :: "unique_index_set \<Rightarrow> nat \<Rightarrow> uis_pc" where
  "acquire_entry sh n =
     (let old = head_from (uis_head sh) in
      if uis_capacity sh \<le> hd_head old then TIdle
      else if hd_borrowed_indices old = LOCK_ACQUIRE then TIdle
      else ALoaded (uis_head sh) n)"

definition acquire_cas :: "unique_index_set \<Rightarrow> u64 \<Rightarrow> u32 \<Rightarrow> unique_index_set" where
  "acquire_cas sh old_value nxt =
     (let old = head_from old_value in
      sh\<lparr>uis_head := head_value
        \<lparr>hd_head = nxt, hd_aba = hd_aba old + 1, hd_borrowed_indices = hd_borrowed_indices old + 1\<rparr>\<rparr>)"

definition release_cas :: "unique_index_set \<Rightarrow> u64 \<Rightarrow> u32 \<Rightarrow> ReleaseMode \<Rightarrow> unique_index_set" where
  "release_cas sh old_value index mode =
     (let old = head_from old_value in
      sh\<lparr>uis_head := head_value
        \<lparr>hd_head = index, hd_aba = hd_aba old + 1,
         hd_borrowed_indices = snd (release_outcome mode (hd_borrowed_indices old))\<rparr>\<rparr>)"

definition thread_step :: "nat \<Rightarrow> uis_system \<Rightarrow> uis_system" where
  "thread_step t s = (let sh = shared s; goto = (\<lambda>pc. (pcs s)(t := pc)) in case pcs s t of
      TIdle \<Rightarrow> s
    | AStart \<Rightarrow> s\<lparr>pcs := goto (acquire_entry sh (updates s))\<rparr>
    | ALoaded v g \<Rightarrow> s\<lparr>pcs := goto (ANext v g (get_next_free_index sh (hd_head (head_from v))))\<rparr>
    | ANext v g x \<Rightarrow>
        if uis_head sh = v
        then s\<lparr>shared := acquire_cas sh v x, updates := updates s + 1,
               pcs := goto (AWon (hd_head (head_from v)))\<rparr>
        else s\<lparr>pcs := goto (acquire_entry sh (updates s))\<rparr>
    | AWon i \<Rightarrow>
        s\<lparr>shared := set_next_free_index sh i (uis_capacity sh + 1), pcs := goto TIdle,
          held := (held s)(t := held s t @ [i])\<rparr>
    | RStart i m \<Rightarrow> s\<lparr>pcs := goto (RLoaded i m (uis_head sh))\<rparr>
    | RLoaded i m v \<Rightarrow>
        s\<lparr>shared := set_next_free_index sh i (hd_head (head_from v)), pcs := goto (RLinked i m v)\<rparr>
    | RLinked i m v \<Rightarrow>
        if uis_head sh = v
        then s\<lparr>shared := release_cas sh v i m, updates := updates s + 1, pcs := goto TIdle\<rparr>
        else s\<lparr>pcs := goto (RLoaded i m (uis_head sh))\<rparr>)"

definition timely :: "uis_system \<Rightarrow> nat \<Rightarrow> bool" where
  "timely s t = (case pcs s t of ANext v g x \<Rightarrow> updates s < g + 2 ^ 16 | _ \<Rightarrow> True)"

inductive uis_step :: "uis_system \<Rightarrow> uis_system \<Rightarrow> bool" where
  call_acquire: "pcs s t = TIdle \<Longrightarrow> uis_step s (s\<lparr>pcs := (pcs s)(t := AStart)\<rparr>)"
| call_release: "pcs s t = TIdle \<Longrightarrow> i \<in> set (held s t) \<Longrightarrow>
    uis_step s (s\<lparr>pcs := (pcs s)(t := RStart i m), held := (held s)(t := remove1 i (held s t))\<rparr>)"
| run: "timely s t \<Longrightarrow> uis_step s (thread_step t s)"

inductive uis_reachable :: "nat \<Rightarrow> uis_system \<Rightarrow> bool" for n where
  start: "uis_reachable n (uis_sys_init n)"
| step: "uis_reachable n s \<Longrightarrow> uis_step s s' \<Longrightarrow> uis_reachable n s'"

section \<open>The invariant\<close>

text \<open>The indices a thread is responsible for, those in the middle of a call included.\<close>

definition in_call :: "uis_pc \<Rightarrow> u32 list" where
  "in_call pc = (case pc of AWon i \<Rightarrow> [i] | RStart i _ \<Rightarrow> [i] | RLoaded i _ _ \<Rightarrow> [i] | RLinked i _ _ \<Rightarrow> [i]
     | _ \<Rightarrow> [])"

definition owned :: "uis_system \<Rightarrow> nat \<Rightarrow> u32 list" where
  "owned s t = in_call (pcs s t) @ held s t"

definition ownership :: "u32 \<Rightarrow> u32 list \<Rightarrow> (nat \<Rightarrow> u32 list) \<Rightarrow> bool" where
  "ownership cap F own \<longleftrightarrow>
     (\<forall>t. distinct (own t)) \<and>
     (\<forall>t. \<forall>i \<in> set (own t). i \<notin> set F) \<and>
     (\<forall>t u. \<forall>i \<in> set (own t). i \<in> set (own u) \<longrightarrow> t = u) \<and>
     (\<forall>i. i < cap \<longleftrightarrow> i \<in> set F \<or> (\<exists>t. i \<in> set (own t)))"

definition loaded :: "unique_index_set \<Rightarrow> nat \<Rightarrow> u64 \<Rightarrow> nat \<Rightarrow> bool" where
  "loaded sh n v g \<longleftrightarrow>
     g \<le> n \<and> hd_aba (head_from v) = of_nat g \<and> (g = n \<longrightarrow> v = uis_head sh) \<and>
     hd_head (head_from v) < uis_capacity sh \<and> hd_borrowed_indices (head_from v) \<noteq> LOCK_ACQUIRE"

definition pc_inv :: "unique_index_set \<Rightarrow> nat \<Rightarrow> uis_pc \<Rightarrow> bool" where
  "pc_inv sh n pc = (case pc of
      ALoaded v g \<Rightarrow> loaded sh n v g
    | ANext v g x \<Rightarrow> loaded sh n v g \<and> (g = n \<longrightarrow> x = uis_data sh ! unat (hd_head (head_from v)))
    | RLinked i m v \<Rightarrow> uis_data sh ! unat i = hd_head (head_from v)
    | _ \<Rightarrow> True)"

definition uis_sys_inv :: "nat \<Rightarrow> uis_system \<Rightarrow> bool" where
  "uis_sys_inv c s \<longleftrightarrow>
     uis_inv (shared s) \<and> uis_capacity (shared s) = of_nat c \<and>
     hd_aba (head_from (uis_head (shared s))) = of_nat (updates s) \<and>
     ownership (uis_capacity (shared s)) (uis_free_list (shared s)) (owned s) \<and>
     (\<forall>t. pc_inv (shared s) (updates s) (pcs s t))"

section \<open>Preservation\<close>

lemma ownership_elims:
  assumes "ownership cap F own"
  shows "distinct (own u)" "j \<in> set (own u) \<Longrightarrow> j \<notin> set F"
    "j \<in> set (own u) \<Longrightarrow> j \<in> set (own v) \<Longrightarrow> u = v"
    "j < cap \<longleftrightarrow> j \<in> set F \<or> (\<exists>u. j \<in> set (own u))"
  using assms unfolding ownership_def by blast+

lemma ownershipI:
  assumes "\<And>u. distinct (own u)" "\<And>u j. j \<in> set (own u) \<Longrightarrow> j \<notin> set F"
    and "\<And>u v j. j \<in> set (own u) \<Longrightarrow> j \<in> set (own v) \<Longrightarrow> u = v"
    and "\<And>j. j < cap \<longleftrightarrow> j \<in> set F \<or> (\<exists>u. j \<in> set (own u))"
  shows "ownership cap F own"
  using assms unfolding ownership_def by blast

lemma ownership_take:
  assumes "ownership cap (i # F) own" "i \<notin> set F"
  shows "ownership cap F (own(t := i # own t))"
proof -
  let ?own = "own(t := i # own t)"
  note own = ownership_elims [OF assms(1)]
  have mem: "j \<in> set (?own u) \<longleftrightarrow> j \<in> set (own u) \<or> j = i \<and> u = t" for u j by auto
  have i: "i \<notin> set (own u)" for u using own(2) [of i u] by auto
  show ?thesis
  proof (rule ownershipI)
    show "distinct (?own u)" for u using own(1) [of u] own(1) [of t] i [of t] by simp
    show "j \<notin> set F" if "j \<in> set (?own u)" for j u
      using that own(2) [of j u] assms(2) unfolding mem by auto
    show "u = v" if "j \<in> set (?own u)" "j \<in> set (?own v)" for j u v
      using that own(3) [of j u v] i unfolding mem by auto
    show "j < cap \<longleftrightarrow> j \<in> set F \<or> (\<exists>u. j \<in> set (?own u))" for j
      unfolding mem own(4) by auto
  qed
qed

lemma ownership_put:
  assumes "ownership cap F own" "own t = i # rest"
  shows "ownership cap (i # F) (own(t := rest))"
proof -
  let ?own = "own(t := rest)"
  note own = ownership_elims [OF assms(1)]
  have mem: "j \<in> set (?own u) \<longleftrightarrow> j \<in> set (own u) \<and> j \<noteq> i" for u j
    using own(1) [of t] own(3) [of i t u] assms(2) by (cases "u = t") auto
  have i: "i \<in> set (own t)" using assms(2) by simp
  show ?thesis
  proof (rule ownershipI)
    show "distinct (?own u)" for u using own(1) [of u] own(1) [of t] assms(2) by simp
    show "j \<notin> set (i # F)" if "j \<in> set (?own u)" for j u
      using that own(2) [of j u] unfolding mem by auto
    show "u = v" if "j \<in> set (?own u)" "j \<in> set (?own v)" for j u v
      using that own(3) [of j u v] unfolding mem by auto
    show "j < cap \<longleftrightarrow> j \<in> set (i # F) \<or> (\<exists>u. j \<in> set (?own u))" for j
      using i unfolding mem own(4) by auto
  qed
qed

lemma ownership_same:
  assumes "ownership cap F own" "\<And>u. set (own' u) = set (own u) \<and> distinct (own' u)"
  shows "ownership cap F own'"
  using assms by (simp add: ownership_def)

lemma owned_less:
  assumes "ownership cap F own" "i \<in> set (own t)"
  shows "i < cap" "i \<notin> set F" "u \<noteq> t \<Longrightarrow> i \<notin> set (own u)"
  using ownership_elims(2-4) [OF assms(1)] assms(2) by blast+

lemma head_in_free:
  assumes "uis_inv sh" "hd_head (head_from (uis_head sh)) < uis_capacity sh"
  obtains F where "uis_free_list sh = hd_head (head_from (uis_head sh)) # F"
  using uis_invD(4) [OF assms(1)] assms(2) by (cases "uis_free_list sh") auto

text \<open>A link that is not in the free list and not the thread's own changes nothing for it.\<close>

lemma pc_inv_write:
  assumes "pc_inv sh n pc" "uis_inv sh" "i \<notin> set (uis_free_list sh)" "i \<notin> set (in_call pc)"
  shows "pc_inv (set_next_free_index sh i x) n pc"
proof -
  have neq: "(uis_data sh)[unat i := x] ! unat j = uis_data sh ! unat j" if "j \<noteq> i" for j :: u32
    using that by (simp add: word_unat_eq_iff)
  have "hd_head (head_from (uis_head sh)) \<noteq> i" if "hd_head (head_from (uis_head sh)) < uis_capacity sh"
    by (rule head_in_free [OF assms(2) that]) (use assms(3) in auto)
  with assms(1,4) show ?thesis
    by (auto simp: pc_inv_def loaded_def set_next_free_index_def in_call_def neq split: uis_pc.splits)
qed

text \<open>After an update of the head every earlier load is outdated.\<close>

lemma pc_inv_update:
  assumes "pc_inv sh n pc" "sh' = sh\<lparr>uis_head := x\<rparr>"
  shows "pc_inv sh' (n + 1) pc"
  using assms by (auto simp: pc_inv_def loaded_def split: uis_pc.splits)

lemma acquire_entry_inv:
  "hd_aba (head_from (uis_head sh)) = of_nat n \<Longrightarrow> pc_inv sh n (acquire_entry sh n)"
  "in_call (acquire_entry sh n) = []"
  by (auto simp: acquire_entry_def pc_inv_def loaded_def in_call_def Let_def)

text \<open>Two counts less than \<open>2 ^ 16\<close> apart with the same ABA tag are equal.\<close>

lemma aba_tag_unique:
  assumes "(of_nat g :: u16) = of_nat n" "g \<le> n" "n < g + 2 ^ 16"
  shows "g = n"
proof -
  from assms(1) have "g mod 2 ^ 16 = n mod 2 ^ 16"
    by (simp add: word_unat_eq_iff unat_of_nat)
  with assms(2) have "2 ^ 16 dvd n - g" by (metis mod_eq_dvd_iff_nat)
  with assms(2,3) show ?thesis by (auto dest: dvd_imp_le)
qed

lemma uis_sys_invD:
  assumes "uis_sys_inv c s"
  shows "uis_inv (shared s)" "uis_capacity (shared s) = of_nat c"
    "hd_aba (head_from (uis_head (shared s))) = of_nat (updates s)"
    "ownership (uis_capacity (shared s)) (uis_free_list (shared s)) (owned s)"
    "pc_inv (shared s) (updates s) (pcs s t)"
  using assms by (auto simp: uis_sys_inv_def)

text \<open>A step that only changes the thread's own program counter.\<close>

lemma goto_inv:
  assumes inv: "uis_sys_inv c s" and pc: "pc_inv (shared s) (updates s) pc" "in_call pc = in_call (pcs s t)"
  shows "uis_sys_inv c (s\<lparr>pcs := (pcs s)(t := pc)\<rparr>)"
proof -
  have "owned (s\<lparr>pcs := (pcs s)(t := pc)\<rparr>) = owned s" using pc(2) by (auto simp: owned_def)
  with inv pc(1) show ?thesis by (auto simp: uis_sys_inv_def)
qed

text \<open>A write to the link of an index the thread owns.\<close>

lemma write_inv:
  assumes inv: "uis_sys_inv c s" and i: "i \<in> set (in_call (pcs s t))"
    and sh: "sh = set_next_free_index (shared s) i x"
    and pc: "pc_inv sh (updates s) pc" 
    and own: "set (in_call pc @ h) = set (owned s t)" "distinct (in_call pc @ h)"
  shows "uis_sys_inv c (s\<lparr>shared := sh, pcs := (pcs s)(t := pc), held := (held s)(t := h)\<rparr>)"
    (is "uis_sys_inv c ?s")
proof -
  note D = uis_sys_invD [OF inv]
  from i have it: "i \<in> set (owned s t)" by (simp add: owned_def)
  note less = owned_less [OF D(4) it]
  note wr = uis_write_unused [OF D(1) less(2)]
  have others: "pc_inv sh (updates s) (pcs s u)" if "u \<noteq> t" for u
    using pc_inv_write [OF D(5) D(1) less(2)] less(3) [OF that] by (simp add: sh owned_def)
  have "set (owned ?s u) = set (owned s u) \<and> distinct (owned ?s u)" for u
    using own ownership_elims(1) [OF D(4), of u] by (simp add: owned_def)
  from ownership_same [OF D(4) this] wr D pc others
  show ?thesis by (auto simp: uis_sys_inv_def sh set_next_free_index_def)
qed

lemma acquire_cas_inv:
  assumes inv: "uis_sys_inv c s" and pc: "pcs s t = ANext (uis_head (shared s)) g x" and timely: "timely s t"
  shows "uis_sys_inv c (s\<lparr>shared := acquire_cas (shared s) (uis_head (shared s)) x,
    updates := updates s + 1, pcs := (pcs s)(t := AWon (hd_head (head_from (uis_head (shared s)))))\<rparr>)"
    (is "uis_sys_inv c ?s")
proof -
  let ?sh = "shared s" and ?i = "hd_head (head_from (uis_head (shared s)))"
  let ?sh' = "acquire_cas ?sh (uis_head ?sh) x"
  note D = uis_sys_invD [OF inv]
  from D(5) [of t] pc have ld: "loaded ?sh (updates s) (uis_head ?sh) g"
    and x: "g = updates s \<Longrightarrow> x = uis_data ?sh ! unat ?i"
    by (simp_all add: pc_inv_def)
  have "g = updates s"
    using aba_tag_unique [of g "updates s"] ld D(3) timely pc by (simp add: loaded_def timely_def)
  then have x: "x = uis_data ?sh ! unat ?i" by (rule x)
  obtain F where F: "uis_free_list ?sh = ?i # F"
    using head_in_free [OF D(1)] ld by (auto simp: loaded_def)
  have unlocked: "\<not> uis_is_locked ?sh" using ld by (simp add: loaded_def uis_is_locked_def)
  have "?sh' = ?sh\<lparr>uis_head := head_value
      \<lparr>hd_head = uis_data ?sh ! unat ?i, hd_aba = hd_aba (head_from (uis_head ?sh)) + 1,
       hd_borrowed_indices = hd_borrowed_indices (head_from (uis_head ?sh)) + 1\<rparr>\<rparr>"
    by (simp add: acquire_cas_def x Let_def)
  note taken = uis_take_head [OF D(1) F unlocked this]
  have "owned ?s = (owned s)(t := ?i # owned s t)"
    using pc by (auto simp: owned_def in_call_def)
  moreover have "?i \<notin> set F" using uis_invD(5) [OF D(1)] F by simp
  ultimately have "ownership (uis_capacity ?sh) F (owned ?s)"
    using ownership_take [of _ ?i F "owned s"] D(4) F by simp
  moreover have "pc_inv ?sh' (updates s + 1) (pcs ?s u)" for u
    using pc_inv_update [OF D(5)] by (simp add: acquire_cas_def Let_def) (simp add: pc_inv_def)
  ultimately show ?thesis using taken D(2,3)
    by (simp add: uis_sys_inv_def) (simp add: acquire_cas_def Let_def)
qed

lemma release_cas_inv:
  assumes inv: "uis_sys_inv c s" and pc: "pcs s t = RLinked i m (uis_head (shared s))"
  shows "uis_sys_inv c (s\<lparr>shared := release_cas (shared s) (uis_head (shared s)) i m,
    updates := updates s + 1, pcs := (pcs s)(t := TIdle)\<rparr>)"
    (is "uis_sys_inv c ?s")
proof -
  let ?sh = "shared s"
  let ?sh' = "release_cas ?sh (uis_head ?sh) i m"
  note D = uis_sys_invD [OF inv]
  have own: "owned s t = i # held s t" using pc by (simp add: owned_def in_call_def)
  then have "i \<in> set (owned s t)" by simp
  note less = owned_less [OF D(4) this]
  have link: "uis_data ?sh ! unat i = hd_head (head_from (uis_head ?sh))"
    using D(5) [of t] pc by (simp add: pc_inv_def)
  have "?sh' = ?sh\<lparr>uis_head := head_value
      \<lparr>hd_head = i, hd_aba = hd_aba (head_from (uis_head ?sh)) + 1,
       hd_borrowed_indices = snd (release_outcome m (hd_borrowed_indices (head_from (uis_head ?sh))))\<rparr>\<rparr>"
    by (simp add: release_cas_def Let_def)
  note put = uis_put_head [OF D(1) less(1,2) link this]
  have "owned ?s = (owned s)(t := held s t)" by (auto simp: owned_def in_call_def)
  then have "ownership (uis_capacity ?sh) (i # uis_free_list ?sh) (owned ?s)"
    using ownership_put [OF D(4) own] by simp
  moreover have "pc_inv ?sh' (updates s + 1) (pcs ?s u)" for u
    using pc_inv_update [OF D(5)] by (simp add: release_cas_def Let_def) (simp add: pc_inv_def)
  ultimately show ?thesis using put D(2,3)
    by (simp add: uis_sys_inv_def) (simp add: release_cas_def Let_def)
qed

lemma thread_step_inv:
  assumes inv: "uis_sys_inv c s" and timely: "timely s t"
  shows "uis_sys_inv c (thread_step t s)"
proof (cases "pcs s t")
  case TIdle
  with inv show ?thesis by (simp add: thread_step_def)
next
  case AStart
  with acquire_entry_inv uis_sys_invD(3) [OF inv] show ?thesis
    by (simp add: thread_step_def goto_inv [OF inv] in_call_def [of AStart])
next
  case (ALoaded v g)
  with uis_sys_invD(5) [OF inv, of t] have "loaded (shared s) (updates s) v g" by (simp add: pc_inv_def)
  then show ?thesis
    using ALoaded by (simp add: thread_step_def goto_inv [OF inv] in_call_def pc_inv_def get_next_free_index_def)
next
  case (ANext v g x)
  show ?thesis
  proof (cases "uis_head (shared s) = v")
    case True
    with ANext acquire_cas_inv [OF inv, of t g x] timely show ?thesis by (simp add: thread_step_def)
  next
    case False
    with ANext acquire_entry_inv uis_sys_invD(3) [OF inv] show ?thesis
      by (simp add: thread_step_def goto_inv [OF inv] in_call_def [of "ANext v g x"])
  qed
next
  case (AWon i)
  have "distinct (owned s t)" using ownership_elims(1) [OF uis_sys_invD(4) [OF inv]] .
  then show ?thesis
    using AWon write_inv [OF inv, of i t _ "uis_capacity (shared s) + 1" TIdle "held s t @ [i]"]
    by (simp add: thread_step_def pc_inv_def in_call_def owned_def Let_def)
next
  case (RStart i m)
  then show ?thesis by (simp add: thread_step_def goto_inv [OF inv] in_call_def pc_inv_def)
next
  case (RLoaded i m v)
  have own: "i \<in> set (owned s t)" "distinct (owned s t)"
    using RLoaded ownership_elims(1) [OF uis_sys_invD(4) [OF inv], of t] by (simp_all add: owned_def in_call_def)
  have "unat i < length (uis_data (shared s))"
    using owned_less(1) [OF uis_sys_invD(4) [OF inv] own(1)] uis_invD(3) [OF uis_sys_invD(1) [OF inv]]
    by (simp add: word_less_nat_alt)
  then show ?thesis
    using RLoaded own write_inv [OF inv, of i t _ "hd_head (head_from v)" "RLinked i m v" "held s t"]
    by (simp add: thread_step_def pc_inv_def in_call_def owned_def set_next_free_index_def Let_def)
next
  case (RLinked i m v)
  show ?thesis
  proof (cases "uis_head (shared s) = v")
    case True
    with RLinked release_cas_inv [OF inv, of t i m] show ?thesis by (simp add: thread_step_def)
  next
    case False
    with RLinked show ?thesis by (simp add: thread_step_def goto_inv [OF inv] in_call_def pc_inv_def)
  qed
qed

lemma uis_step_inv:
  assumes "uis_step s s'" "uis_sys_inv c s"
  shows "uis_sys_inv c s'"
  using assms
proof (induction rule: uis_step.induct)
  case (call_acquire s t)
  then show ?case by (intro goto_inv) (simp_all add: pc_inv_def in_call_def)
next
  case (call_release s t i m)
  let ?s = "s\<lparr>pcs := (pcs s)(t := RStart i m), held := (held s)(t := remove1 i (held s t))\<rparr>"
  note D = uis_sys_invD [OF call_release(3)]
  have dist: "distinct (owned s u)" for u using ownership_elims(1) [OF D(4)] .
  have "set (owned ?s u) = set (owned s u) \<and> distinct (owned ?s u)" for u
    using dist [of u] call_release(1,2) by (auto simp: owned_def in_call_def)
  from ownership_same [OF D(4) this] D show ?case by (auto simp: uis_sys_inv_def pc_inv_def)
next
  case (run s t)
  then show ?case by (simp add: thread_step_inv)
qed

text \<open>\<open>uis_fresh\<close> is what \<open>new_uninit\<close> and \<open>init\<close> build.\<close>

lemma uis_fresh_new:
  assumes "n < 2 ^ 24 - 1"
  obtains s0 where "uis_new_uninit True n = Some s0" "uis_init (\<lambda>_. Inr 0) s0 = Some (Inr (uis_fresh n))"
proof -
  have "unat (of_nat n + 1 :: u32) = n + 1"
    using assms unat_of_nat_small [of n, where 'a = 32] by (simp add: unat_word_ariths)
  then show ?thesis
    using assms
    by (intro that [of "\<lparr>uis_data = [], uis_capacity = of_nat n, uis_head = 0, uis_is_memory_initialized = False\<rparr>"])
      (simp_all add: uis_new_uninit_def uis_init_def uis_fresh_def del: upt_Suc)
qed

lemma uis_reachable_inv:
  assumes "uis_reachable n s" "n < 2 ^ 24 - 1"
  shows "uis_sys_inv n s"
  using assms(1)
proof (induction rule: uis_reachable.induct)
  case start
  obtain s0 where "uis_new_uninit True n = Some s0" "uis_init (\<lambda>_. Inr 0) s0 = Some (Inr (uis_fresh n))"
    using uis_fresh_new [OF assms(2)] .
  note new = uis_new_inv [OF this assms(2)]
  have "{i::u32. i < of_nat n} = of_nat ` {0..<n}" using assms(2) by (intro word_less_image) simp
  then have "i < of_nat n \<longleftrightarrow> i \<in> of_nat ` {0..<n}" for i :: u32 by blast
  then have "ownership (of_nat n) (map of_nat [0..<n]) (owned (uis_sys_init n))"
    by (auto simp: ownership_def owned_def in_call_def uis_sys_init_def)
  with new show ?case
    by (simp add: uis_sys_inv_def uis_sys_init_def pc_inv_def) (simp add: uis_fresh_def head_from_def)
next
  case (step s s')
  then show ?case by (simp add: uis_step_inv)
qed

section \<open>Properties\<close>

text \<open>C7: However the threads interleave, no index is held twice: the indices a thread holds are
  distinct, below the capacity and held by no other thread; and when no call is under way,
  \<open>borrowed_indices\<close> is the number of indices held by all threads together, so that none is
  lost.\<close>

theorem indices_exclusive:
  assumes "uis_reachable n s" "n < 2 ^ 24 - 1"
  shows "distinct (held s t) \<and> (\<forall>i \<in> set (held s t). unat i < n)
    \<and> (u \<noteq> t \<longrightarrow> set (held s t) \<inter> set (held s u) = {})
    \<and> ((\<forall>t. pcs s t = TIdle) \<longrightarrow> uis_borrowed_indices (shared s) = card (\<Union>t. set (held s t)))"
proof -
  note D = uis_sys_invD [OF uis_reachable_inv [OF assms]]
  note own = ownership_elims [OF D(4)]
  have n: "unat (uis_capacity (shared s)) = n" using assms(2) by (simp add: D(2) unat_of_nat_small)
  have sub: "set (held s t) \<subseteq> set (owned s t)" for t by (simp add: owned_def)
  have bor: "uis_borrowed_indices (shared s) = card (\<Union>t. set (held s t))" if idle: "\<forall>t. pcs s t = TIdle"
  proof -
    have "owned s = held s" using idle by (auto simp: owned_def in_call_def)
    then have split: "{i. i < uis_capacity (shared s)} - set (uis_free_list (shared s)) = (\<Union>t. set (held s t))"
      using own by auto
    have "card ({i. i < uis_capacity (shared s)} - set (uis_free_list (shared s))) =
        n - length (uis_free_list (shared s))"
      using uis_inv_free(1,2) [OF D(1)] n
      by (subst card_Diff_subset) (simp_all add: distinct_card uis_free_def uis_indices_def)
    with split uis_invD(6) [OF D(1)] n show ?thesis
      by (auto simp: uis_borrowed_indices_def uis_is_locked_def split: if_splits)
  qed
  have "unat i < n" if "i \<in> set (held s t)" for i
    using that sub own(4) [of i] n by (auto simp: word_less_nat_alt)
  with bor own(1) [of t] own(3) sub show ?thesis by (auto simp: owned_def)
qed

datatype uis_action = CallAcquire nat | CallRelease nat u32 ReleaseMode | Step nat

definition uis_exec :: "uis_system \<Rightarrow> uis_action \<Rightarrow> uis_system" where
  "uis_exec s a = (case a of
      CallAcquire t \<Rightarrow> if pcs s t = TIdle then s\<lparr>pcs := (pcs s)(t := AStart)\<rparr> else s
    | CallRelease t i m \<Rightarrow>
        if pcs s t = TIdle \<and> i \<in> set (held s t)
        then s\<lparr>pcs := (pcs s)(t := RStart i m), held := (held s)(t := remove1 i (held s t))\<rparr> else s
    | Step t \<Rightarrow> if timely s t then thread_step t s else s)"

lemma uis_schedule_reachable: "uis_reachable n s \<Longrightarrow> uis_reachable n (foldl uis_exec s as)"
proof (induction as arbitrary: s)
  case (Cons a as)
  have "uis_reachable n (uis_exec s a)"
    using Cons.prems by (cases a) (auto simp: uis_exec_def intro: uis_reachable.step uis_step.intros)
  then show ?case using Cons.IH by simp
qed simp

text \<open>Thread 0 loads the head, thread 1 overtakes it, and thread 0 has to try again.\<close>

abbreviation uis_race :: uis_system where
  "uis_race \<equiv> foldl uis_exec (uis_sys_init 2)
     [CallAcquire 0, Step 0, Step 0, CallAcquire 1, Step 1, Step 1, Step 1, Step 1,
      Step 0, Step 0, Step 0, Step 0]"

theorem indices_exclusive_witness:
  "held uis_race 0 = [1] \<and> held uis_race 1 = [0] \<and> set (held uis_race 0) \<inter> set (held uis_race 1) = {}"
proof (intro conjI)
  have "uis_reachable 2 uis_race" by (rule uis_schedule_reachable) (rule uis_reachable.start)
  from indices_exclusive [OF this, of 0 1] show "set (held uis_race 0) \<inter> set (held uis_race 1) = {}"
    by (simp only: zero_neq_one one_neq_zero) (simp del: foldl.simps)
  show "held uis_race 0 = [1]" "held uis_race 1 = [0]"
    by (simp_all add: uis_exec_def uis_sys_init_def uis_fresh_def thread_step_def timely_def acquire_entry_def
        acquire_cas_def uis_eval upt_conv_Cons)
qed

end
