(* ===== verification/Memory_Allocators.thy ===== *)
theory Memory_Allocators
  imports Unique_Index_Set
begin

text \<open>
  The allocators of \<^verbatim>\<open>iceoryx2-bb/memory/src\<close>: the pool allocator (\<^verbatim>\<open>pool_allocator.rs\<close>) on top of
  the unique index set, the bounded bump allocator (\<^verbatim>\<open>bump_allocator.rs\<close>) and the allocator of a
  single chunk (\<^verbatim>\<open>one_chunk_allocator.rs\<close>). Addresses are \<open>nat\<close>s; a returned slice is the pair of its
  address and its length. The managed memory lies inside the address space, so additions of
  offsets to its start do not overflow; subtractions and divisions that can fail are written
  out. The unbounded bump allocator of \<open>Elementary\<close> has the prefix \<open>bump\<close>, the bounded one
  \<open>bba\<close>.
\<close>

type_synonym slice = "nat \<times> nat"

section \<open>Pool allocator\<close>

record pool_allocator =
  pa_buckets :: unique_index_set
  pa_bucket_size :: nat
  pa_bucket_alignment :: nat
  pa_start :: nat
  pa_size :: nat
  pa_is_memory_initialized :: bool

definition pool_calc_number_of_buckets :: "bool \<Rightarrow> layout \<Rightarrow> nat \<Rightarrow> nat \<Rightarrow> nat option" where
  "pool_calc_number_of_buckets dbg bucket_layout ptr mem_size = do {
     let adjusted_start = align ptr (lalign bucket_layout);
     let bucket_size = align (lsize bucket_layout) (lalign bucket_layout);
     available \<leftarrow> usize_sub dbg (ptr + mem_size) adjusted_start;
     _ \<leftarrow> panic_unless (bucket_size \<noteq> 0);
     Some (available div bucket_size) }"

definition pool_new_uninit :: "bool \<Rightarrow> layout \<Rightarrow> nat \<Rightarrow> nat \<Rightarrow> pool_allocator option" where
  "pool_new_uninit dbg bucket_layout ptr mem_size = do {
     n \<leftarrow> pool_calc_number_of_buckets dbg bucket_layout ptr mem_size;
     buckets \<leftarrow> uis_new_uninit dbg n;
     Some \<lparr>pa_buckets = buckets, pa_bucket_size = lsize bucket_layout,
           pa_bucket_alignment = lalign bucket_layout, pa_start = align ptr (lalign bucket_layout),
           pa_size = mem_size, pa_is_memory_initialized = False\<rparr> }"

definition pool_init ::
  "(layout \<Rightarrow> AllocationError + nat) \<Rightarrow> pool_allocator \<Rightarrow> (AllocationError + pool_allocator) option" where
  "pool_init allocate p = do {
     _ \<leftarrow> panic_unless (\<not> pa_is_memory_initialized p);
     r \<leftarrow> uis_init allocate (pa_buckets p);
     Some (case r of
         Inl e \<Rightarrow> Inl e
       | Inr b \<Rightarrow> Inr (p\<lparr>pa_buckets := b, pa_is_memory_initialized := True\<rparr>)) }"

definition pool_memory_size :: "layout \<Rightarrow> nat \<Rightarrow> nat option" where
  "pool_memory_size bucket_layout mem_size = do {
     _ \<leftarrow> panic_unless (lsize bucket_layout \<noteq> 0);
     Some (uis_memory_size (mem_size div lsize bucket_layout)) }"

definition pool_verify_ptr :: "bool \<Rightarrow> pool_allocator \<Rightarrow> nat \<Rightarrow> unit option" where
  "pool_verify_ptr dbg p position =
     debug_assert dbg (\<not> (position < pa_start p \<or> position > pa_start p + pa_size p
       \<or> (position - pa_start p) mod pa_bucket_size p \<noteq> 0))"

definition pool_get_index :: "bool \<Rightarrow> pool_allocator \<Rightarrow> nat \<Rightarrow> u32 option" where
  "pool_get_index dbg p position = do {
     _ \<leftarrow> pool_verify_ptr dbg p position;
     d \<leftarrow> usize_sub dbg position (pa_start p);
     Some (of_nat (d div pa_bucket_size p)) }"

definition pool_allocate ::
  "bool \<Rightarrow> pool_allocator \<Rightarrow> layout \<Rightarrow> ((AllocationError + slice) \<times> pool_allocator) option" where
  "pool_allocate dbg p l = do {
     _ \<leftarrow> debug_assert dbg (pa_is_memory_initialized p);
     if lsize l > pa_bucket_size p then Some (Inl SizeTooLarge, p)
     else if lalign l > pa_bucket_alignment p then Some (Inl AlignmentFailure, p)
     else do {
       (r, b) \<leftarrow> acquire_raw_index dbg (pa_buckets p);
       Some (case r of
           Inr v \<Rightarrow> (Inr (pa_start p + unat v * pa_bucket_size p, lsize l), p\<lparr>pa_buckets := b\<rparr>)
         | Inl _ \<Rightarrow> (Inl OutOfMemory, p\<lparr>pa_buckets := b\<rparr>)) } }"

definition pool_deallocate_bucket :: "bool \<Rightarrow> pool_allocator \<Rightarrow> nat \<Rightarrow> pool_allocator option" where
  "pool_deallocate_bucket dbg p ptr = do {
     _ \<leftarrow> debug_assert dbg (pa_is_memory_initialized p);
     i \<leftarrow> pool_get_index dbg p ptr;
     (_, b) \<leftarrow> release_raw_index dbg (pa_buckets p) i Default;
     Some (p\<lparr>pa_buckets := b\<rparr>) }"

definition pool_grow ::
  "bool \<Rightarrow> pool_allocator \<Rightarrow> nat \<Rightarrow> layout \<Rightarrow> layout \<Rightarrow> (AllocationGrowError + slice) option" where
  "pool_grow dbg p ptr old_layout new_layout = do {
     _ \<leftarrow> debug_assert dbg (pa_is_memory_initialized p);
     _ \<leftarrow> pool_verify_ptr dbg p ptr;
     Some (if lsize old_layout \<ge> lsize new_layout then Inl GrowWouldShrink
       else if pa_bucket_alignment p < lalign new_layout then Inl GrowAlignmentFailure
       else if pa_bucket_size p < lsize new_layout then Inl GrowOutOfMemory
       else Inr (ptr, lsize new_layout)) }"

definition pool_shrink ::
  "bool \<Rightarrow> pool_allocator \<Rightarrow> nat \<Rightarrow> layout \<Rightarrow> layout \<Rightarrow> (AllocationShrinkError + slice) option" where
  "pool_shrink dbg p ptr old_layout new_layout = do {
     _ \<leftarrow> debug_assert dbg (pa_is_memory_initialized p);
     _ \<leftarrow> pool_verify_ptr dbg p ptr;
     Some (if lsize old_layout \<le> lsize new_layout then Inl ShrinkWouldGrow
       else if pa_bucket_alignment p < lalign new_layout then Inl ShrinkAlignmentFailure
       else Inr (ptr, lsize new_layout)) }"

text \<open>The variant with its own memory for at most \<open>MAX_NUMBER_OF_BUCKETS\<close> indices.\<close>

definition pool_fixed_new :: "bool \<Rightarrow> nat \<Rightarrow> layout \<Rightarrow> nat \<Rightarrow> nat \<Rightarrow> pool_allocator option" where
  "pool_fixed_new dbg MAX_NUMBER_OF_BUCKETS bucket_layout ptr mem_size = do {
     number_of_buckets \<leftarrow> pool_calc_number_of_buckets dbg bucket_layout ptr mem_size;
     buckets \<leftarrow> uis_new_uninit dbg (min number_of_buckets MAX_NUMBER_OF_BUCKETS);
     r \<leftarrow> uis_init (\<lambda>l. fst (bump_allocate (bump_new 0) l)) buckets;
     case r of
       Inl _ \<Rightarrow> None
     | Inr b \<Rightarrow> Some
         \<lparr>pa_buckets = b, pa_bucket_size = lsize bucket_layout,
          pa_bucket_alignment = lalign bucket_layout, pa_start = align ptr (lalign bucket_layout),
          pa_size = mem_size, pa_is_memory_initialized = True\<rparr> }"

section \<open>Bounded bump allocator\<close>

record bounded_bump_allocator =
  bba_start :: nat
  bba_size :: nat
  bba_current_position :: nat

definition bba_new :: "nat \<Rightarrow> nat \<Rightarrow> bounded_bump_allocator" where
  "bba_new ptr mem_size = \<lparr>bba_start = ptr, bba_size = mem_size, bba_current_position = 0\<rparr>"

definition bba_used_space :: "bounded_bump_allocator \<Rightarrow> nat" where
  "bba_used_space b = bba_current_position b"

definition bba_free_space :: "bounded_bump_allocator \<Rightarrow> nat" where
  "bba_free_space b = bba_size b - bba_used_space b"

definition bba_allocate ::
  "bounded_bump_allocator \<Rightarrow> layout \<Rightarrow> (AllocationError + slice) \<times> bounded_bump_allocator" where
  "bba_allocate b l =
     (if lsize l = 0 then (Inl SizeIsZero, b)
      else let aligned_position = align (bba_start b + bba_current_position b) (lalign l) - bba_start b
      in if aligned_position + lsize l > bba_size b then (Inl OutOfMemory, b)
         else (Inr (bba_start b + aligned_position, lsize l),
               b\<lparr>bba_current_position := aligned_position + lsize l\<rparr>))"

definition bba_deallocate :: "bounded_bump_allocator \<Rightarrow> bounded_bump_allocator" where
  "bba_deallocate b = b\<lparr>bba_current_position := 0\<rparr>"

section \<open>One chunk allocator\<close>

text \<open>The address \<open>0\<close> says that the chunk is available.\<close>

record one_chunk_allocator =
  oca_start :: nat
  oca_size :: nat
  oca_allocated_chunk_start :: nat

definition oca_new :: "nat \<Rightarrow> nat \<Rightarrow> one_chunk_allocator" where
  "oca_new ptr mem_size = \<lparr>oca_start = ptr, oca_size = mem_size, oca_allocated_chunk_start = 0\<rparr>"

definition oca_has_chunk_available :: "one_chunk_allocator \<Rightarrow> bool" where
  "oca_has_chunk_available a \<longleftrightarrow> oca_allocated_chunk_start a = 0"

definition oca_allocate ::
  "bool \<Rightarrow> one_chunk_allocator \<Rightarrow> layout \<Rightarrow> ((AllocationError + slice) \<times> one_chunk_allocator) option" where
  "oca_allocate dbg a l =
     (let adjusted_start = align (oca_start a) (lalign l) in
      if \<not> oca_has_chunk_available a then Some (Inl OutOfMemory, a)
      else do {
        available_size \<leftarrow> usize_sub dbg (oca_size a) (adjusted_start - oca_start a);
        Some (if available_size \<le> lsize l then (Inl OutOfMemory, a)
              else (Inr (adjusted_start, available_size),
                    a\<lparr>oca_allocated_chunk_start := adjusted_start\<rparr>)) })"

definition oca_deallocate :: "bool \<Rightarrow> one_chunk_allocator \<Rightarrow> nat \<Rightarrow> one_chunk_allocator option" where
  "oca_deallocate dbg a ptr = do {
     _ \<leftarrow> debug_assert dbg (ptr = oca_allocated_chunk_start a);
     Some (a\<lparr>oca_allocated_chunk_start := 0\<rparr>) }"

definition oca_grow ::
  "bool \<Rightarrow> one_chunk_allocator \<Rightarrow> nat \<Rightarrow> layout \<Rightarrow> layout \<Rightarrow> (AllocationGrowError + slice) option" where
  "oca_grow dbg a ptr old_layout new_layout = do {
     _ \<leftarrow> debug_assert dbg (ptr = oca_allocated_chunk_start a);
     if lsize old_layout \<ge> lsize new_layout then Some (Inl GrowWouldShrink)
     else if lalign old_layout < lalign new_layout then Some (Inl GrowAlignmentFailure)
     else do {
       off \<leftarrow> usize_sub dbg (oca_allocated_chunk_start a) (oca_start a);
       available_size \<leftarrow> usize_sub dbg (oca_size a) off;
       Some (if available_size < lsize new_layout then Inl GrowOutOfMemory
             else Inr (ptr, available_size)) } }"

definition oca_shrink ::
  "bool \<Rightarrow> one_chunk_allocator \<Rightarrow> nat \<Rightarrow> layout \<Rightarrow> layout \<Rightarrow> (AllocationShrinkError + slice) option" where
  "oca_shrink dbg a ptr old_layout new_layout = do {
     _ \<leftarrow> debug_assert dbg (ptr = oca_allocated_chunk_start a);
     Some (if lsize old_layout \<le> lsize new_layout then Inl ShrinkWouldGrow
       else if lalign old_layout < lalign new_layout then Inl ShrinkAlignmentFailure
       else Inr (ptr, lsize new_layout)) }"

section \<open>Correctness of the pool allocator\<close>

definition pool_bucket :: "pool_allocator \<Rightarrow> u32 \<Rightarrow> nat" where
  "pool_bucket p v = pa_start p + unat v * pa_bucket_size p"

definition pool_inv :: "pool_allocator \<Rightarrow> bool" where
  "pool_inv p \<longleftrightarrow>
     pa_is_memory_initialized p \<and> uis_unlocked (pa_buckets p) \<and> 0 < pa_bucket_size p \<and>
     unat (uis_capacity (pa_buckets p)) * pa_bucket_size p \<le> pa_size p"

lemma pool_bucket_inj: "0 < pa_bucket_size p \<Longrightarrow> pool_bucket p i = pool_bucket p j \<longleftrightarrow> i = j"
  by (auto simp: pool_bucket_def word_unat_eq_iff)

lemma pool_bucket_bound:
  assumes "pool_inv p" "i < uis_capacity (pa_buckets p)"
  shows "pool_bucket p i + pa_bucket_size p \<le> pa_start p + unat (uis_capacity (pa_buckets p)) * pa_bucket_size p"
proof -
  have "Suc (unat i) * pa_bucket_size p \<le> unat (uis_capacity (pa_buckets p)) * pa_bucket_size p"
    using assms(2) by (intro mult_le_mono1) (simp add: word_less_nat_alt)
  then show ?thesis by (simp add: pool_bucket_def)
qed

lemma pool_get_index_bucket:
  assumes "pool_inv p" "i < uis_capacity (pa_buckets p)"
  shows "pool_verify_ptr dbg p (pool_bucket p i) = Some ()" "pool_get_index dbg p (pool_bucket p i) = Some i"
proof -
  show v: "pool_verify_ptr dbg p (pool_bucket p i) = Some ()"
    using assms pool_bucket_bound [OF assms] by (auto simp: pool_verify_ptr_def pool_bucket_def pool_inv_def)
  show "pool_get_index dbg p (pool_bucket p i) = Some i"
    using v assms(1) by (simp add: pool_get_index_def pool_bucket_def pool_inv_def)
qed

lemma pool_allocate_cases:
  assumes inv: "pool_inv p" and l: "lsize l \<le> pa_bucket_size p" "lalign l \<le> pa_bucket_alignment p"
  obtains
    (exhausted) "pool_allocate dbg p l = Some (Inl OutOfMemory, p)" "uis_free (pa_buckets p) = {}"
  | (allocated) i b where "pool_allocate dbg p l = Some (Inr (pool_bucket p i, lsize l), p\<lparr>pa_buckets := b\<rparr>)"
      "i \<in> uis_free (pa_buckets p)" "uis_free b = uis_free (pa_buckets p) - {i}"
      "uis_capacity b = uis_capacity (pa_buckets p)" "uis_unlocked b"
      "uis_borrowed_indices b = uis_borrowed_indices (pa_buckets p) + 1"
proof -
  from inv have b: "uis_inv (pa_buckets p)" "\<not> uis_is_locked (pa_buckets p)" "pa_is_memory_initialized p"
    by (simp_all add: pool_inv_def uis_unlocked_def)
  from b(1) show ?thesis
  proof (cases rule: acquire_raw_index_cases [where dbg = dbg])
    case out
    with b l show ?thesis by (intro exhausted) (simp_all add: pool_allocate_def uis_free_def)
  next
    case locked
    with b show ?thesis by simp
  next
    case (ok i F b')
    with uis_inv_free(1) [OF b(1)] have "i \<notin> set F" by simp
    with ok b l show ?thesis
      by (intro allocated [of i b']) (auto simp: pool_allocate_def uis_free_def uis_unlocked_def pool_bucket_def)
  qed
qed

lemma pool_deallocate_bucket_cases:
  assumes inv: "pool_inv p" and i: "i \<in> uis_indices (pa_buckets p) - uis_free (pa_buckets p)"
  obtains b where "pool_deallocate_bucket dbg p (pool_bucket p i) = Some (p\<lparr>pa_buckets := b\<rparr>)"
    "uis_free b = insert i (uis_free (pa_buckets p))" "uis_capacity b = uis_capacity (pa_buckets p)"
    "uis_unlocked b" "uis_borrowed_indices (pa_buckets p) = uis_borrowed_indices b + 1"
proof -
  from inv have b: "uis_inv (pa_buckets p)" "pa_is_memory_initialized p"
    by (simp_all add: pool_inv_def uis_unlocked_def)
  from i have i': "i < uis_capacity (pa_buckets p)" "i \<notin> set (uis_free_list (pa_buckets p))"
    by (simp_all add: uis_indices_def uis_free_def)
  show ?thesis
    by (rule release_raw_index_cases [OF b(1) i', of dbg Default], rule that)
      (use b pool_get_index_bucket [OF inv i'(1), of dbg] in
        \<open>simp_all add: pool_deallocate_bucket_def uis_free_def uis_unlocked_def\<close>)
qed

text \<open>Addresses of buckets as the indices of a pool.\<close>

definition pool_acquire :: "pool_allocator \<Rightarrow> nat option \<times> pool_allocator" where
  "pool_acquire p =
     (case pool_allocate True p \<lparr>lsize = pa_bucket_size p, lalign = pa_bucket_alignment p\<rparr> of
        Some (Inr (a, _), p') \<Rightarrow> (Some a, p') | _ \<Rightarrow> (None, p))"

definition pool_release :: "pool_allocator \<Rightarrow> nat \<Rightarrow> pool_allocator" where
  "pool_release p a = (case pool_deallocate_bucket True p a of Some p' \<Rightarrow> p' | None \<Rightarrow> p)"

definition pool_addresses :: "pool_allocator \<Rightarrow> nat set" where
  "pool_addresses p = pool_bucket p ` uis_indices (pa_buckets p)"

definition pool_free :: "pool_allocator \<Rightarrow> nat set" where
  "pool_free p = pool_bucket p ` uis_free (pa_buckets p)"

lemma pool_bucket_update [simp]: "pool_bucket (p\<lparr>pa_buckets := b\<rparr>) = pool_bucket p"
  by (simp add: fun_eq_iff pool_bucket_def)

lemma pool_inv_update:
  "pool_inv p \<Longrightarrow> uis_capacity b = uis_capacity (pa_buckets p) \<Longrightarrow> uis_unlocked b \<Longrightarrow> pool_inv (p\<lparr>pa_buckets := b\<rparr>)"
  by (simp add: pool_inv_def)

interpretation pa: index_pool pool_acquire pool_release pool_addresses pool_free pool_inv
proof unfold_locales
  fix p a assume inv: "pool_inv p"
  then have inj: "inj (pool_bucket p)" and b: "uis_unlocked (pa_buckets p)"
    by (auto simp: pool_inv_def intro: injI dest: pool_bucket_inj [THEN iffD1, rotated])
  let ?l = "\<lparr>lsize = pa_bucket_size p, lalign = pa_bucket_alignment p\<rparr>"
  show "finite (pool_addresses p)" by (simp add: pool_addresses_def)
  show "pool_free p \<subseteq> pool_addresses p"
    using uis.free_subset [OF b] by (auto simp: pool_free_def pool_addresses_def)
  show "pool_acquire p = (None, p)" if "pool_free p = {}"
    by (rule pool_allocate_cases [OF inv, of ?l True]) (use that in \<open>auto simp: pool_acquire_def pool_free_def\<close>)
  show "\<exists>a p'. pool_acquire p = (Some a, p') \<and> a \<in> pool_free p \<and> pool_free p' = pool_free p - {a}
      \<and> pool_addresses p' = pool_addresses p \<and> pool_inv p'" if "pool_free p \<noteq> {}"
    by (rule pool_allocate_cases [OF inv, of ?l True])
      (use that inj inv in \<open>auto simp: pool_acquire_def pool_free_def pool_addresses_def uis_indices_def
        image_set_diff pool_inv_update\<close>)
  show "pool_free (pool_release p a) = insert a (pool_free p) \<and>
      pool_addresses (pool_release p a) = pool_addresses p \<and> pool_inv (pool_release p a)"
    if a: "a \<in> pool_addresses p - pool_free p"
  proof -
    from a inj obtain i where i: "a = pool_bucket p i" "i \<in> uis_indices (pa_buckets p) - uis_free (pa_buckets p)"
      by (auto simp: pool_addresses_def pool_free_def)
    show ?thesis
      by (rule pool_deallocate_bucket_cases [OF inv i(2), of True])
        (use inv i in \<open>auto simp: pool_release_def pool_free_def pool_addresses_def uis_indices_def pool_inv_update\<close>)
  qed
qed

lemma pool_new_inv:
  assumes new: "pool_new_uninit dbg l ptr mem_size = Some p0" "pool_init allocate p0 = Some (Inr p)"
    and n: "pool_calc_number_of_buckets dbg l ptr mem_size = Some n" "n < 2 ^ 24 - 1"
    and l: "0 < lalign l" "align ptr (lalign l) \<le> ptr + mem_size"
  shows "pool_inv p" "unat (uis_capacity (pa_buckets p)) = n" "pool_free p = pool_addresses p"
    "pa_start p = align ptr (lalign l)" "pa_bucket_size p = lsize l" "pa_bucket_alignment p = lalign l"
    "pa_start p + n * lsize l \<le> ptr + mem_size"
proof -
  let ?bs = "align (lsize l) (lalign l)"
  from n(1) l have bs: "0 < ?bs" "n = (ptr + mem_size - align ptr (lalign l)) div ?bs"
    by (auto simp: pool_calc_number_of_buckets_def Let_def bind_eq_Some_conv)
  from bs(1) have pos: "0 < lsize l" by (cases "lsize l = 0") (simp_all add: align_def)
  from new n(1) obtain b0 b where b: "uis_new_uninit dbg n = Some b0" "uis_init allocate b0 = Some (Inr b)"
    and p: "p = \<lparr>pa_buckets = b, pa_bucket_size = lsize l, pa_bucket_alignment = lalign l,
       pa_start = align ptr (lalign l), pa_size = mem_size, pa_is_memory_initialized = True\<rparr>"
    by (auto simp: pool_new_uninit_def pool_init_def bind_eq_Some_conv)
  note uis = uis_new_inv [OF b n(2)]
  from n(2) have cap: "unat (uis_capacity b) = n" by (simp add: uis(2) unat_of_nat_small)
  have "n * lsize l \<le> n * ?bs" using align_ge [OF l(1)] by simp
  also have "\<dots> \<le> ptr + mem_size - align ptr (lalign l)" by (simp add: bs(2))
  finally have fits: "n * lsize l \<le> ptr + mem_size - align ptr (lalign l)" .
  with align_ge [OF l(1), of ptr] have "n * lsize l \<le> mem_size" by simp
  with uis cap pos show "pool_inv p" by (simp add: pool_inv_def p uis_unlocked_def)
  have "of_nat ` {0..<n} = {i::u32. i < of_nat n}"
    using n(2) by (intro word_less_image [symmetric]) simp
  then show "pool_free p = pool_addresses p"
    by (simp add: pool_free_def pool_addresses_def p uis_free_def uis_indices_def uis)
  show "unat (uis_capacity (pa_buckets p)) = n" "pa_start p = align ptr (lalign l)" "pa_bucket_size p = lsize l"
    "pa_bucket_alignment p = lalign l"
    by (simp_all add: p cap)
  show "pa_start p + n * lsize l \<le> ptr + mem_size" using fits l(2) by (simp add: p)
qed

lemma pool_buckets_fit:
  assumes "pool_calc_number_of_buckets dbg l ptr mem_size = Some n"
    and "0 < lalign l" "align ptr (lalign l) \<le> ptr + mem_size"
  shows "n \<le> mem_size div lsize l" "n = (ptr + mem_size - align ptr (lalign l)) div align (lsize l) (lalign l)"
proof -
  let ?bs = "align (lsize l) (lalign l)"
  from assms have n: "n = (ptr + mem_size - align ptr (lalign l)) div ?bs" and "0 < ?bs"
    by (auto simp: pool_calc_number_of_buckets_def Let_def bind_eq_Some_conv)
  then have pos: "0 < lsize l" by (cases "lsize l = 0") (simp_all add: align_def)
  have "n \<le> mem_size div ?bs"
    using align_ge [OF assms(2), of ptr] by (subst n) (intro div_le_mono, simp)
  also have "\<dots> \<le> mem_size div lsize l"
    using align_ge [OF assms(2), of "lsize l"] pos by (intro div_le_mono2)
  finally show "n \<le> mem_size div lsize l" .
  show "n = (ptr + mem_size - align ptr (lalign l)) div ?bs" by (rule n)
qed

section \<open>Properties\<close>

text \<open>C12: Whatever a client allocates and frees, the chunks it holds are pairwise disjoint and lie in
  the memory the pool was given; they are aligned if the bucket size is a multiple of the
  alignment; and an allocation fails only while all buckets are in use.\<close>

theorem pool_chunks_disjoint:
  assumes "pool_new_uninit dbg l ptr mem_size = Some p0" "pool_init allocate p0 = Some (Inr p)"
    and "pool_calc_number_of_buckets dbg l ptr mem_size = Some n" "n < 2 ^ 24 - 1"
    and "0 < lalign l" "align ptr (lalign l) \<le> ptr + mem_size"
  shows "case run_pool pool_acquire pool_release p [] ops of (p', held) \<Rightarrow>
      (\<forall>a \<in> set held. \<forall>b \<in> set held. a \<noteq> b \<longrightarrow> a + lsize l \<le> b \<or> b + lsize l \<le> a)
      \<and> (\<forall>a \<in> set held. ptr \<le> a \<and> a + lsize l \<le> ptr + mem_size \<and> (lalign l dvd lsize l \<longrightarrow> lalign l dvd a))
      \<and> distinct held \<and> (fst (pool_acquire p') = None \<longleftrightarrow> length held = n)"
proof (cases "run_pool pool_acquire pool_release p [] ops")
  case (Pair p' held)
  note new = pool_new_inv [OF assms]
  from pa.run_distinct [OF new(1) _ _ Pair] new(3)
  have run: "pool_inv p'" "distinct held" "set held = pool_addresses p' - pool_free p'"
    "pool_addresses p' = pool_addresses p"
    by simp_all
  have addr: "\<exists>k < n. a = align ptr (lalign l) + k * lsize l" if "a \<in> pool_addresses p" for a
    using that new by (auto simp: pool_addresses_def pool_bucket_def uis_indices_def word_less_nat_alt)
  have n: "card (pool_addresses p) = n"
    using new(1,2,5) by (simp add: pool_addresses_def uis_indices_def card_image inj_on_def pool_bucket_inj pool_inv_def)
  have held: "set held \<subseteq> pool_addresses p" using run by auto
  have disj: "a + lsize l \<le> b \<or> b + lsize l \<le> a" if "a \<in> set held" "b \<in> set held" "a \<noteq> b" for a b
  proof -
    from that held addr obtain j k where jk: "a = align ptr (lalign l) + j * lsize l" "b = align ptr (lalign l) + k * lsize l"
      by (meson subsetD)
    with that(3) consider "Suc j \<le> k" | "Suc k \<le> j" by force
    then show ?thesis using jk by cases (auto dest: mult_le_mono1 [of _ _ "lsize l"])
  qed
  have range: "ptr \<le> a \<and> a + lsize l \<le> ptr + mem_size \<and> (lalign l dvd lsize l \<longrightarrow> lalign l dvd a)"
    if "a \<in> set held" for a
  proof -
    from that held addr obtain k where k: "k < n" "a = align ptr (lalign l) + k * lsize l" by blast
    then have "Suc k * lsize l \<le> n * lsize l" by (intro mult_le_mono1) simp
    with k new(4,7) align_ge [OF assms(5), of ptr] align_dvd [OF assms(5), of ptr] show ?thesis by auto
  qed
  have "length held = n \<longleftrightarrow> set held = pool_addresses p"
    using held n run(2) card_subset_eq [of "pool_addresses p" "set held"]
    by (auto simp: distinct_card [symmetric] pool_addresses_def)
  also have "\<dots> \<longleftrightarrow> pool_free p' = {}"
    using run(3,4) pa.free_subset [OF run(1)] by auto
  finally have "fst (pool_acquire p') = None \<longleftrightarrow> length held = n" by (simp add: pa.acquire_fails_iff [OF run(1)])
  with Pair disj range run(2) show ?thesis by simp
qed

abbreviation pool_of_two :: pool_allocator where
  "pool_of_two \<equiv> \<lparr>pa_buckets = uis_of_two, pa_bucket_size = 8, pa_bucket_alignment = 4, pa_start = 4096,
     pa_size = 20, pa_is_memory_initialized = True\<rparr>"

lemmas pool_eval =
  pool_new_uninit_def pool_init_def pool_calc_number_of_buckets_def pool_acquire_def pool_allocate_def
  pool_release_def pool_deallocate_bucket_def pool_get_index_def pool_verify_ptr_def
  uis_new_uninit_def uis_init_def align_def upt_conv_Cons

abbreviation pool_client_run :: "pool_allocator \<times> nat list" where
  "pool_client_run \<equiv> run_pool pool_acquire pool_release pool_of_two [] [Acquire, Acquire, Release 0, Acquire]"

theorem pool_chunks_disjoint_witness:
  "snd pool_client_run = [4104, 4096] \<and> (4096 + 8 \<le> (4104::nat) \<or> 4104 + 8 \<le> (4096::nat))"
proof -
  let ?b0 = "uis_of_two\<lparr>uis_data := [], uis_is_memory_initialized := False\<rparr>"
  let ?l = "\<lparr>lsize = 8, lalign = 4\<rparr>" and ?p0 = "pool_of_two\<lparr>pa_buckets := ?b0, pa_is_memory_initialized := False\<rparr>"
  have new: "pool_new_uninit True ?l 4096 20 = Some ?p0" "pool_init (\<lambda>_. Inr 0) ?p0 = Some (Inr pool_of_two)"
    "pool_calc_number_of_buckets True ?l 4096 20 = Some 2"
    by (simp_all add: pool_eval)
  have run: "snd pool_client_run = [4104, 4096]" by (simp add: pool_eval uis_eval)
  from pool_chunks_disjoint [OF new, of "[Acquire, Acquire, Release 0, Acquire]"]
  have "\<forall>a \<in> set (snd pool_client_run). \<forall>b \<in> set (snd pool_client_run). a \<noteq> b \<longrightarrow> a + 8 \<le> b \<or> b + 8 \<le> a"
    by (simp add: align_def case_prod_beta del: run_pool.simps)
  with run show ?thesis by (simp only: run) simp
qed




text \<open>All chunks a sequence of requests to the bump allocator yields, with their requests.\<close>

fun bba_run :: "bounded_bump_allocator \<Rightarrow> layout list \<Rightarrow> (layout \<times> slice) list" where
  "bba_run b [] = []"
| "bba_run b (l # ls) = (case bba_allocate b l of
     (Inl _, b') \<Rightarrow> bba_run b' ls | (Inr c, b') \<Rightarrow> (l, c) # bba_run b' ls)"

lemma bba_allocate_Inr:
  assumes "bba_allocate b l = (Inr (a, n), b')" "0 < lalign l"
  shows "bba_start b + bba_current_position b \<le> a" "n = lsize l" "0 < n" "lalign l dvd a"
    "bba_start b' + bba_current_position b' = a + n" "bba_start b' = bba_start b" "bba_size b' = bba_size b"
    "bba_current_position b' \<le> bba_size b"
proof -
  let ?a = "align (bba_start b + bba_current_position b) (lalign l)"
  have ge: "bba_start b + bba_current_position b \<le> ?a" by (rule align_ge [OF assms(2)])
  with assms(1) have eq: "a = ?a" "n = lsize l" "lsize l \<noteq> 0" "b' = b\<lparr>bba_current_position := ?a - bba_start b + lsize l\<rparr>"
    "?a - bba_start b + lsize l \<le> bba_size b"
    by (auto simp: bba_allocate_def Let_def split: if_splits)
  with ge align_dvd [OF assms(2)] show "bba_start b + bba_current_position b \<le> a" "n = lsize l" "0 < n" "lalign l dvd a"
    "bba_start b' + bba_current_position b' = a + n" "bba_start b' = bba_start b" "bba_size b' = bba_size b"
    "bba_current_position b' \<le> bba_size b"
    by auto
qed

text \<open>C35: The chunks of the bump allocator follow one another without overlap, in the order of the
  requests; each has the size and the alignment asked for and lies in the managed memory.\<close>

theorem bba_chunks_disjoint:
  assumes "\<forall>l \<in> set ls. 0 < lalign l"
  shows "sorted_wrt (\<lambda>c d. fst (snd c) + snd (snd c) \<le> fst (snd d)) (bba_run b ls)
    \<and> (\<forall>(l, a, n) \<in> set (bba_run b ls). n = lsize l \<and> lalign l dvd a
        \<and> bba_start b + bba_current_position b \<le> a \<and> a + n \<le> bba_start b + bba_size b)"
  using assms
proof (induction ls arbitrary: b)
  case (Cons l ls)
  obtain r b' where r: "bba_allocate b l = (r, b')" by force
  show ?case
  proof (cases r)
    case (Inl e)
    with r have "b' = b" by (auto simp: bba_allocate_def Let_def split: if_splits)
    with Inl r Cons show ?thesis by simp
  next
    case (Inr c)
    obtain a n where c: "c = (a, n)" by force
    from Cons.prems have "0 < lalign l" by simp
    note step = bba_allocate_Inr [OF r [unfolded Inr c] this]
    from Cons.IH [of b'] Cons.prems
    have IH: "sorted_wrt (\<lambda>c d. fst (snd c) + snd (snd c) \<le> fst (snd d)) (bba_run b' ls)"
      "\<forall>(l, a', n') \<in> set (bba_run b' ls). n' = lsize l \<and> lalign l dvd a' \<and> a + n \<le> a'
         \<and> a' + n' \<le> bba_start b + bba_size b"
      using step(5) by (simp_all add: step(6,7))
    have "a + n \<le> bba_start b + bba_size b" using step(5,6,8) by simp
    with IH step show ?thesis by (fastforce simp: r Inr c)
  qed
qed simp

theorem bba_chunks_disjoint_witness:
  "bba_run (bba_new 100 64) [\<lparr>lsize = 3, lalign = 8\<rparr>, \<lparr>lsize = 60, lalign = 1\<rparr>, \<lparr>lsize = 4, lalign = 4\<rparr>]
     = [(\<lparr>lsize = 3, lalign = 8\<rparr>, 104, 3), (\<lparr>lsize = 4, lalign = 4\<rparr>, 108, 4)]
   \<and> sorted_wrt (\<lambda>c d. fst (snd c) + snd (snd c) \<le> fst (snd d))
     (bba_run (bba_new 100 64) [\<lparr>lsize = 3, lalign = 8\<rparr>, \<lparr>lsize = 60, lalign = 1\<rparr>, \<lparr>lsize = 4, lalign = 4\<rparr>])"
proof
  show "sorted_wrt (\<lambda>c d. fst (snd c) + snd (snd c) \<le> fst (snd d))
     (bba_run (bba_new 100 64) [\<lparr>lsize = 3, lalign = 8\<rparr>, \<lparr>lsize = 60, lalign = 1\<rparr>, \<lparr>lsize = 4, lalign = 4\<rparr>])"
    by (rule bba_chunks_disjoint [THEN conjunct1]) simp
qed (simp add: bba_allocate_def bba_new_def align_def)

text \<open>C36: The one-chunk allocator refuses a request for exactly the memory it has, although
  \<open>grow\<close> accepts to enlarge a chunk to that size.\<close>

theorem oca_exact_fit_refused:
  assumes "0 < lalign l" "lalign l dvd ptr" "0 < ptr" "lsize l = mem_size"
    and "lsize old < mem_size" "lalign old = lalign l"
  shows "oca_allocate dbg (oca_new ptr mem_size) l = Some (Inl OutOfMemory, oca_new ptr mem_size)
    \<and> (\<exists>a. oca_allocate dbg (oca_new ptr mem_size) old = Some (Inr (ptr, mem_size), a)
        \<and> oca_grow dbg a ptr old l = Some (Inr (ptr, mem_size)))"
  using assms
  by (simp add: oca_allocate_def oca_new_def oca_has_chunk_available_def oca_grow_def align_id Let_def)

theorem oca_exact_fit_refused_witness:
  "oca_allocate True (oca_new 64 16) \<lparr>lsize = 16, lalign = 8\<rparr> = Some (Inl OutOfMemory, oca_new 64 16)"
  using oca_exact_fit_refused [of "\<lparr>lsize = 16, lalign = 8\<rparr>" 64 16 "\<lparr>lsize = 8, lalign = 8\<rparr>" True] by simp

end
