(* ===== verification/Shm_Allocators.thy ===== *)
theory Shm_Allocators
  imports Memory_Allocators
begin

text \<open>
  The shared-memory allocators of \<^verbatim>\<open>iceoryx2-cal/src/shm_allocator\<close>: offsets that carry the id of
  their segment (\<^verbatim>\<open>pointer_offset.rs\<close>), the pool allocator that hands out such offsets
  (\<^verbatim>\<open>pool_allocator.rs\<close>, prefix \<open>spa\<close>) and the bump allocator (\<^verbatim>\<open>bump_allocator.rs\<close>, prefix \<open>sba\<close>).
\<close>

unbundle bit_operations_syntax

section \<open>Pointer offsets\<close>

type_synonym SegmentId = u8

text \<open>A \<open>PointerOffset\<close> is a \<open>u64\<close>: the offset above the eight bits of the segment id.\<close>

type_synonym PointerOffset = u64

definition max_segment_id :: u8 where
  "max_segment_id = - 1"

definition from_offset_and_segment_id :: "nat \<Rightarrow> SegmentId \<Rightarrow> PointerOffset" where
  "from_offset_and_segment_id offset segment_id = push_bit 8 (of_nat offset) OR ucast segment_id"

definition po_new :: "nat \<Rightarrow> PointerOffset" where
  "po_new offset = from_offset_and_segment_id offset 0"

definition po_from_value :: "u64 \<Rightarrow> PointerOffset" where
  "po_from_value value = value"

definition po_as_value :: "PointerOffset \<Rightarrow> u64" where
  "po_as_value p = p"

definition po_set_segment_id :: "PointerOffset \<Rightarrow> SegmentId \<Rightarrow> PointerOffset" where
  "po_set_segment_id p value = (p AND NOT (push_bit 8 1 - 1)) OR ucast value"

definition po_offset :: "PointerOffset \<Rightarrow> nat" where
  "po_offset p = unat (drop_bit 8 p)"

definition po_segment_id :: "PointerOffset \<Rightarrow> SegmentId" where
  "po_segment_id p = ucast (p AND (push_bit 8 1 - 1))"

lemma segment_mask: "push_bit 8 1 - 1 = (mask 8 :: u64)"
  by (simp add: mask_eq_exp_minus_1)

lemma po_segment_id_from [simp]: "po_segment_id (from_offset_and_segment_id offset s) = s"
  unfolding po_segment_id_def from_offset_and_segment_id_def segment_mask
  by (rule bit_word_eqI) (auto simp: bit_simps)

lemma po_segment_id_set [simp]: "po_segment_id (po_set_segment_id p s) = s"
  unfolding po_segment_id_def po_set_segment_id_def segment_mask
  by (rule bit_word_eqI) (auto simp: bit_simps)

lemma drop_bit_set_segment: "drop_bit 8 (po_set_segment_id p s) = drop_bit 8 p"
  unfolding po_set_segment_id_def segment_mask
  by (rule bit_word_eqI) (auto simp: bit_simps dest: bit_imp_le_length)

lemma po_offset_set [simp]: "po_offset (po_set_segment_id p s) = po_offset p"
  by (simp add: po_offset_def drop_bit_set_segment)

lemma drop_bit_from_offset:
  "drop_bit 8 (from_offset_and_segment_id offset s) = take_bit 56 (of_nat offset)"
  unfolding from_offset_and_segment_id_def
  by (rule bit_word_eqI) (auto simp: bit_simps dest: bit_imp_le_length)

lemma po_offset_from [simp]: "offset < 2 ^ 56 \<Longrightarrow> po_offset (from_offset_and_segment_id offset s) = offset"
  by (simp add: po_offset_def drop_bit_from_offset unsigned_take_bit_eq unat_of_nat_small take_bit_nat_eq_self)

text \<open>The two parts determine the offset.\<close>

lemma po_eqI:
  assumes "po_offset p = po_offset q" "po_segment_id p = po_segment_id q"
  shows "p = q"
proof (rule bit_word_eqI)
  fix n assume n: "n < LENGTH(64)"
  have hi: "drop_bit 8 p = drop_bit 8 q" using assms(1) by (simp add: po_offset_def word_unat_eq_iff)
  have lo: "bit (po_segment_id r) n = bit r n" if "n < 8" for r
    using that unfolding po_segment_id_def segment_mask by (simp add: bit_simps)
  have up: "bit (drop_bit 8 r) (n - 8) = bit r n" if "8 \<le> n" for r :: u64
    using that by (simp add: bit_drop_bit_eq)
  show "bit p n = bit q n"
    using lo [of p] lo [of q] up [of p] up [of q] hi assms(2) by (cases "n < 8") auto
qed

section \<open>Strategies, errors and hints\<close>

datatype AllocationStrategy = BestFit | PowerOfTwo | Static

datatype ShmAllocationError = ExceedsMaxSupportedAlignment | AllocationErrorOf AllocationError

datatype ShmAllocatorInitError = MaxSupportedMemoryAlignmentInsufficient | AllocationFailed

record pool_setup_hint =
  hint_payload_size :: nat
  hint_bucket_layout :: layout

text \<open>\<open>next_power_of_two\<close> and \<open>next_multiple_of\<close> of the standard library.\<close>

function power_of_two_from :: "nat \<Rightarrow> nat \<Rightarrow> nat" where
  "power_of_two_from k n = (if n \<le> k \<or> k = 0 then k else power_of_two_from (2 * k) n)"
  by pat_completeness auto
termination
  by (relation "measure (\<lambda>(k, n). n - k)") auto

declare power_of_two_from.simps [simp del]

definition next_power_of_two :: "nat \<Rightarrow> nat" where
  "next_power_of_two n = power_of_two_from 1 n"

definition next_multiple_of :: "nat \<Rightarrow> nat \<Rightarrow> nat" where
  "next_multiple_of n a = (if n mod a = 0 then n else n + (a - n mod a))"

lemma power_of_two_from_ge: "0 < k \<Longrightarrow> n \<le> power_of_two_from k n"
proof (induction k n rule: power_of_two_from.induct)
  case (1 k n)
  then show ?case by (subst power_of_two_from.simps) auto
qed

lemma next_power_of_two_ge: "n \<le> next_power_of_two n"
  by (simp add: next_power_of_two_def power_of_two_from_ge)

lemma next_multiple_of_align: "0 < a \<Longrightarrow> next_multiple_of n a = align n a"
  by (simp add: next_multiple_of_def align_def)

section \<open>Pool allocator\<close>

record shm_pool_allocator =
  spa_allocator :: pool_allocator
  spa_base_address :: nat
  spa_max_supported_alignment_by_memory :: nat
  spa_number_of_used_buckets :: nat

definition spa_number_of_buckets :: "shm_pool_allocator \<Rightarrow> nat" where
  "spa_number_of_buckets p = unat (uis_capacity (pa_buckets (spa_allocator p)))"

definition spa_max_alignment :: "shm_pool_allocator \<Rightarrow> nat" where
  "spa_max_alignment p = pa_bucket_alignment (spa_allocator p)"

definition spa_initial_setup_hint :: "layout \<Rightarrow> nat \<Rightarrow> pool_setup_hint" where
  "spa_initial_setup_hint max_chunk_layout max_number_of_chunks =
     \<lparr>hint_payload_size = lsize max_chunk_layout * max_number_of_chunks,
      hint_bucket_layout = max_chunk_layout\<rparr>"

definition spa_resize_hint :: "shm_pool_allocator \<Rightarrow> layout \<Rightarrow> AllocationStrategy \<Rightarrow> pool_setup_hint" where
  "spa_resize_hint p l strategy =
     (let n = spa_number_of_buckets p;
          current_size = pa_bucket_size (spa_allocator p);
          current_align = pa_bucket_alignment (spa_allocator p);
          adjusted_number_of_buckets =
            (if spa_number_of_used_buckets p = n
             then case strategy of BestFit \<Rightarrow> n + 1 | PowerOfTwo \<Rightarrow> next_power_of_two (n + 1) | Static \<Rightarrow> n
             else n);
          adjusted_layout =
            (if current_size < lsize l \<or> current_align < lalign l
             then case strategy of
                 Static \<Rightarrow> \<lparr>lsize = current_size, lalign = current_align\<rparr>
               | BestFit \<Rightarrow>
                   let a = max (lalign l) current_align
                   in \<lparr>lsize = next_multiple_of (max (lsize l) current_size) a, lalign = a\<rparr>
               | PowerOfTwo \<Rightarrow>
                   let a = next_power_of_two (max (lalign l) current_align)
                   in \<lparr>lsize = next_multiple_of (next_power_of_two (max (lsize l) current_size)) a, lalign = a\<rparr>
             else \<lparr>lsize = current_size, lalign = current_align\<rparr>)
      in spa_initial_setup_hint adjusted_layout adjusted_number_of_buckets)"

definition spa_management_size :: "nat \<Rightarrow> layout \<Rightarrow> nat option" where
  "spa_management_size memory_size bucket_layout = pool_memory_size bucket_layout memory_size"

definition spa_relative_start_address :: "shm_pool_allocator \<Rightarrow> nat" where
  "spa_relative_start_address p = pa_start (spa_allocator p) - spa_base_address p"

definition spa_new_uninit :: "bool \<Rightarrow> nat \<Rightarrow> slice \<Rightarrow> layout \<Rightarrow> shm_pool_allocator option" where
  "spa_new_uninit dbg max_supported_alignment managed_memory bucket_layout = do {
     a \<leftarrow> pool_new_uninit dbg bucket_layout (fst managed_memory) (snd managed_memory);
     Some \<lparr>spa_allocator = a, spa_base_address = fst managed_memory,
           spa_max_supported_alignment_by_memory = max_supported_alignment,
           spa_number_of_used_buckets = 0\<rparr> }"

definition spa_init ::
  "(layout \<Rightarrow> AllocationError + nat) \<Rightarrow> shm_pool_allocator \<Rightarrow>
   (ShmAllocatorInitError + shm_pool_allocator) option" where
  "spa_init mgmt_allocate p =
     (if spa_max_supported_alignment_by_memory p < spa_max_alignment p
      then Some (Inl MaxSupportedMemoryAlignmentInsufficient)
      else do {
        r \<leftarrow> pool_init mgmt_allocate (spa_allocator p);
        Some (case r of Inl _ \<Rightarrow> Inl AllocationFailed | Inr a \<Rightarrow> Inr (p\<lparr>spa_allocator := a\<rparr>)) })"

definition spa_allocate ::
  "bool \<Rightarrow> shm_pool_allocator \<Rightarrow> layout \<Rightarrow> ((ShmAllocationError + PointerOffset) \<times> shm_pool_allocator) option" where
  "spa_allocate dbg p l =
     (if lalign l > spa_max_alignment p then Some (Inl ExceedsMaxSupportedAlignment, p)
      else do {
        (r, a) \<leftarrow> pool_allocate dbg (spa_allocator p) l;
        Some (case r of
            Inl e \<Rightarrow> (Inl (AllocationErrorOf e), p\<lparr>spa_allocator := a\<rparr>)
          | Inr chunk \<Rightarrow>
              (Inr (po_new (fst chunk - pa_start (spa_allocator p))),
               p\<lparr>spa_allocator := a, spa_number_of_used_buckets := spa_number_of_used_buckets p + 1\<rparr>)) })"

text \<open>\<open>fetch_sub\<close> wraps around.\<close>

definition spa_deallocate_bucket :: "bool \<Rightarrow> shm_pool_allocator \<Rightarrow> PointerOffset \<Rightarrow> shm_pool_allocator option" where
  "spa_deallocate_bucket dbg p offset = do {
     let used = (spa_number_of_used_buckets p + 2 ^ 64 - 1) mod 2 ^ 64;
     a \<leftarrow> pool_deallocate_bucket dbg (spa_allocator p) (po_offset offset + pa_start (spa_allocator p));
     Some (p\<lparr>spa_allocator := a, spa_number_of_used_buckets := used\<rparr>) }"

section \<open>Bump allocator\<close>

record shm_bump_allocator =
  sba_allocator :: bounded_bump_allocator
  sba_base_address :: nat
  sba_max_supported_alignment_by_memory :: nat

definition sba_max_alignment :: nat where
  "sba_max_alignment = 8"

definition sba_new_uninit :: "nat \<Rightarrow> slice \<Rightarrow> shm_bump_allocator" where
  "sba_new_uninit max_supported_alignment managed_memory =
     \<lparr>sba_allocator = bba_new (fst managed_memory) (snd managed_memory),
      sba_base_address = fst managed_memory,
      sba_max_supported_alignment_by_memory = max_supported_alignment\<rparr>"

definition sba_init :: "shm_bump_allocator \<Rightarrow> ShmAllocatorInitError + unit" where
  "sba_init p =
     (if sba_max_supported_alignment_by_memory p < sba_max_alignment
      then Inl MaxSupportedMemoryAlignmentInsufficient else Inr ())"

definition sba_resize_hint :: "shm_bump_allocator \<Rightarrow> layout \<Rightarrow> AllocationStrategy \<Rightarrow> nat" where
  "sba_resize_hint p l strategy =
     (let current_payload_size = bba_size (sba_allocator p) in
      if lsize l < bba_free_space (sba_allocator p) then current_payload_size
      else case strategy of
          BestFit \<Rightarrow> current_payload_size + lsize l
        | PowerOfTwo \<Rightarrow> next_power_of_two (current_payload_size + lsize l)
        | Static \<Rightarrow> current_payload_size)"

definition sba_allocate ::
  "shm_bump_allocator \<Rightarrow> layout \<Rightarrow> (ShmAllocationError + PointerOffset) \<times> shm_bump_allocator" where
  "sba_allocate p l =
     (if lalign l > sba_max_alignment then (Inl ExceedsMaxSupportedAlignment, p)
      else case bba_allocate (sba_allocator p) l of
          (Inl e, a) \<Rightarrow> (Inl (AllocationErrorOf e), p\<lparr>sba_allocator := a\<rparr>)
        | (Inr chunk, a) \<Rightarrow> (Inr (po_new (fst chunk - sba_base_address p)), p\<lparr>sba_allocator := a\<rparr>))"

definition sba_deallocate :: "shm_bump_allocator \<Rightarrow> shm_bump_allocator" where
  "sba_deallocate p = p\<lparr>sba_allocator := bba_deallocate (sba_allocator p)\<rparr>"

section \<open>Correctness of the pool allocator\<close>

definition spa_offset :: "shm_pool_allocator \<Rightarrow> u32 \<Rightarrow> PointerOffset" where
  "spa_offset p i = po_new (unat i * pa_bucket_size (spa_allocator p))"

definition spa_inv :: "shm_pool_allocator \<Rightarrow> bool" where
  "spa_inv p \<longleftrightarrow>
     pool_inv (spa_allocator p) \<and> pa_size (spa_allocator p) < 2 ^ 56 \<and>
     spa_number_of_used_buckets p = uis_borrowed_indices (pa_buckets (spa_allocator p))"

definition spa_acquire :: "shm_pool_allocator \<Rightarrow> PointerOffset option \<times> shm_pool_allocator" where
  "spa_acquire p =
     (case spa_allocate True p \<lparr>lsize = pa_bucket_size (spa_allocator p), lalign = spa_max_alignment p\<rparr> of
        Some (Inr a, p') \<Rightarrow> (Some a, p') | _ \<Rightarrow> (None, p))"

definition spa_release :: "shm_pool_allocator \<Rightarrow> PointerOffset \<Rightarrow> shm_pool_allocator" where
  "spa_release p a = (case spa_deallocate_bucket True p a of Some p' \<Rightarrow> p' | None \<Rightarrow> p)"

definition spa_offsets :: "shm_pool_allocator \<Rightarrow> PointerOffset set" where
  "spa_offsets p = spa_offset p ` uis_indices (pa_buckets (spa_allocator p))"

definition spa_free :: "shm_pool_allocator \<Rightarrow> PointerOffset set" where
  "spa_free p = spa_offset p ` uis_free (pa_buckets (spa_allocator p))"

lemma spa_offset_update [simp]:
  "spa_offset (p\<lparr>spa_allocator := (spa_allocator p)\<lparr>pa_buckets := b\<rparr>, spa_number_of_used_buckets := k\<rparr>) = spa_offset p"
  by (simp add: spa_offset_def fun_eq_iff)

lemma po_offset_spa_offset:
  assumes "spa_inv p" "i < uis_capacity (pa_buckets (spa_allocator p))"
  shows "po_offset (spa_offset p i) = unat i * pa_bucket_size (spa_allocator p)"
    "po_offset (spa_offset p i) + pa_start (spa_allocator p) = pool_bucket (spa_allocator p) i"
proof -
  from assms have inv: "pool_inv (spa_allocator p)" by (simp add: spa_inv_def)
  have "unat i * pa_bucket_size (spa_allocator p) < 2 ^ 56"
    using pool_bucket_bound [OF inv assms(2)] assms(1) inv
    by (simp add: pool_bucket_def spa_inv_def pool_inv_def)
  then show "po_offset (spa_offset p i) = unat i * pa_bucket_size (spa_allocator p)"
    by (simp add: spa_offset_def po_new_def)
  then show "po_offset (spa_offset p i) + pa_start (spa_allocator p) = pool_bucket (spa_allocator p) i"
    by (simp add: pool_bucket_def)
qed

lemma spa_offset_inj:
  assumes "spa_inv p"
  shows "inj_on (spa_offset p) (uis_indices (pa_buckets (spa_allocator p)))"
proof (rule inj_onI)
  fix i j assume "i \<in> uis_indices (pa_buckets (spa_allocator p))" "j \<in> uis_indices (pa_buckets (spa_allocator p))"
    and eq: "spa_offset p i = spa_offset p j"
  then have "unat i * pa_bucket_size (spa_allocator p) = unat j * pa_bucket_size (spa_allocator p)"
    using po_offset_spa_offset(1) [OF assms] by (metis mem_Collect_eq uis_indices_def)
  with assms show "i = j" by (simp add: spa_inv_def pool_inv_def word_unat_eq_iff)
qed

lemma spa_allocate_cases:
  assumes inv: "spa_inv p" and l: "lsize l \<le> pa_bucket_size (spa_allocator p)" "lalign l \<le> spa_max_alignment p"
  obtains
    (exhausted) "spa_allocate dbg p l = Some (Inl (AllocationErrorOf OutOfMemory), p)"
      "uis_free (pa_buckets (spa_allocator p)) = {}"
  | (allocated) i p' where "spa_allocate dbg p l = Some (Inr (spa_offset p i), p')"
      "i \<in> uis_free (pa_buckets (spa_allocator p))" "spa_free p' = spa_free p - {spa_offset p i}"
      "spa_offsets p' = spa_offsets p" "spa_inv p'" "spa_number_of_buckets p' = spa_number_of_buckets p"
      "spa_number_of_used_buckets p' = spa_number_of_used_buckets p + 1"
proof -
  let ?b = "pa_buckets (spa_allocator p)"
  from inv have pinv: "pool_inv (spa_allocator p)" by (simp add: spa_inv_def)
  from l(2) have l2: "lalign l \<le> pa_bucket_alignment (spa_allocator p)" by (simp add: spa_max_alignment_def)
  from pinv l(1) l2 show ?thesis
  proof (cases rule: pool_allocate_cases [where dbg = dbg])
    case exhausted
    with l inv show ?thesis by (intro that(1)) (simp_all add: spa_allocate_def)
  next
    case (allocated i b)
    let ?p = "p\<lparr>spa_allocator := (spa_allocator p)\<lparr>pa_buckets := b\<rparr>,
      spa_number_of_used_buckets := spa_number_of_used_buckets p + 1\<rparr>"
    have sub: "uis_free ?b \<subseteq> uis_indices ?b"
      using pinv uis.free_subset by (simp add: pool_inv_def)
    have "spa_allocate dbg p l = Some (Inr (spa_offset p i), ?p)"
      using allocated l by (simp add: spa_allocate_def spa_offset_def pool_bucket_def)
    moreover have "spa_free ?p = spa_free p - {spa_offset p i}"
      using allocated sub inj_on_image_set_diff [OF spa_offset_inj [OF inv], of "uis_free ?b" "{i}"]
      by (auto simp: spa_free_def)
    moreover have "spa_offsets ?p = spa_offsets p" "spa_inv ?p" "spa_number_of_buckets ?p = spa_number_of_buckets p"
      using allocated inv
      by (simp_all add: spa_offsets_def uis_indices_def spa_inv_def pool_inv_update spa_number_of_buckets_def)
    ultimately show ?thesis using allocated by (intro that(2) [of i ?p]) simp_all
  qed
qed

lemma spa_deallocate_cases:
  assumes inv: "spa_inv p" and a: "a \<in> spa_offsets p - spa_free p"
  obtains p' where "spa_deallocate_bucket dbg p a = Some p'" "spa_free p' = insert a (spa_free p)"
    "spa_offsets p' = spa_offsets p" "spa_inv p'" "spa_number_of_buckets p' = spa_number_of_buckets p"
    "spa_number_of_used_buckets p = spa_number_of_used_buckets p' + 1"
proof -
  let ?b = "pa_buckets (spa_allocator p)"
  from inv have pinv: "pool_inv (spa_allocator p)" by (simp add: spa_inv_def)
  from a obtain i where i: "a = spa_offset p i" "i \<in> uis_indices ?b - uis_free ?b"
    by (auto simp: spa_offsets_def spa_free_def)
  obtain b where b: "pool_deallocate_bucket dbg (spa_allocator p) (pool_bucket (spa_allocator p) i)
      = Some ((spa_allocator p)\<lparr>pa_buckets := b\<rparr>)"
    "uis_free b = insert i (uis_free ?b)" "uis_capacity b = uis_capacity ?b" "uis_unlocked b"
    "uis_borrowed_indices ?b = uis_borrowed_indices b + 1"
    by (rule pool_deallocate_bucket_cases [OF pinv i(2)])
  have "uis_borrowed_indices b < 2 ^ 64 - 1"
    using uis_borrowed_indices_less [of b] by simp
  then have used: "(spa_number_of_used_buckets p + 2 ^ 64 - 1) mod 2 ^ 64 = uis_borrowed_indices b"
    using inv b(5) by (simp add: spa_inv_def)
  let ?p = "p\<lparr>spa_allocator := (spa_allocator p)\<lparr>pa_buckets := b\<rparr>,
    spa_number_of_used_buckets := uis_borrowed_indices b\<rparr>"
  have "spa_deallocate_bucket dbg p a = Some ?p"
    using po_offset_spa_offset(2) [OF inv, of i] i b(1) used
    by (simp add: spa_deallocate_bucket_def uis_indices_def)
  moreover have "spa_free ?p = insert a (spa_free p)" "spa_offsets ?p = spa_offsets p" "spa_inv ?p"
    "spa_number_of_buckets ?p = spa_number_of_buckets p"
    using b inv i(1)
    by (simp_all add: spa_offsets_def spa_free_def uis_indices_def spa_inv_def pool_inv_update spa_number_of_buckets_def)
  moreover have "spa_number_of_used_buckets p = spa_number_of_used_buckets ?p + 1"
    using inv b(5) by (simp add: spa_inv_def)
  ultimately show ?thesis by (rule that)
qed

interpretation spa: index_pool spa_acquire spa_release spa_offsets spa_free spa_inv
proof unfold_locales
  fix p a assume inv: "spa_inv p"
  let ?l = "\<lparr>lsize = pa_bucket_size (spa_allocator p), lalign = spa_max_alignment p\<rparr>"
  let ?b = "pa_buckets (spa_allocator p)"
  show "finite (spa_offsets p)" by (simp add: spa_offsets_def)
  show "spa_free p \<subseteq> spa_offsets p"
    using inv uis.free_subset [of ?b] by (auto simp: spa_free_def spa_offsets_def spa_inv_def pool_inv_def)
  show "spa_acquire p = (None, p)" if "spa_free p = {}"
    by (rule spa_allocate_cases [OF inv, of ?l True]) (use that in \<open>auto simp: spa_acquire_def spa_free_def\<close>)
  show "\<exists>a p'. spa_acquire p = (Some a, p') \<and> a \<in> spa_free p \<and> spa_free p' = spa_free p - {a}
      \<and> spa_offsets p' = spa_offsets p \<and> spa_inv p'" if "spa_free p \<noteq> {}"
    by (rule spa_allocate_cases [OF inv, of ?l True]) (use that in \<open>auto simp: spa_acquire_def spa_free_def\<close>)
  show "spa_free (spa_release p a) = insert a (spa_free p) \<and> spa_offsets (spa_release p a) = spa_offsets p
      \<and> spa_inv (spa_release p a)" if "a \<in> spa_offsets p - spa_free p"
    by (rule spa_deallocate_cases [OF inv that, of True]) (auto simp: spa_release_def)
qed

text \<open>A pool set up from \<open>initial_setup_hint\<close> in aligned memory has as many buckets as asked for.\<close>

lemma spa_setup_inv:
  assumes new: "spa_new_uninit dbg A (ptr, hint_payload_size (spa_initial_setup_hint l n)) l = Some p0"
      "spa_init mgmt p0 = Some (Inr p)"
    and l: "0 < lalign l" "0 < lsize l" "lalign l dvd lsize l" "lalign l dvd ptr"
    and n: "n < 2 ^ 24 - 1" "lsize l * n < 2 ^ 56"
  shows "spa_inv p" "spa_number_of_buckets p = n" "spa_free p = spa_offsets p"
    "pa_bucket_size (spa_allocator p) = lsize l" "spa_number_of_used_buckets p = 0"
proof -
  let ?sz = "lsize l * n"
  from new obtain a0 a where a: "pool_new_uninit dbg l ptr ?sz = Some a0" "pool_init mgmt a0 = Some (Inr a)"
    and p: "p = \<lparr>spa_allocator = a, spa_base_address = ptr, spa_max_supported_alignment_by_memory = A,
      spa_number_of_used_buckets = 0\<rparr>"
    by (auto simp: spa_new_uninit_def spa_init_def spa_initial_setup_hint_def bind_eq_Some_conv split: if_splits)
  have calc: "pool_calc_number_of_buckets dbg l ptr ?sz = Some n"
    using l by (simp add: pool_calc_number_of_buckets_def align_id)
  note pool = pool_new_inv [OF a calc n(1) l(1)]
  have sz: "align ptr (lalign l) \<le> ptr + ?sz" using l(4) by (simp add: align_id)
  have "pa_size a = ?sz" and free: "uis_free_list (pa_buckets a) = map of_nat [0..<n]"
    and bor: "uis_borrowed_indices (pa_buckets a) = 0"
    using a calc uis_new_inv [OF _ _ n(1)]
    by (auto simp: pool_new_uninit_def pool_init_def bind_eq_Some_conv)
  with pool [OF sz] n(2) p show "spa_inv p" "spa_number_of_buckets p = n"
    "pa_bucket_size (spa_allocator p) = lsize l" "spa_number_of_used_buckets p = 0"
    by (simp_all add: spa_inv_def spa_number_of_buckets_def)
  have "uis_capacity (pa_buckets a) = of_nat n"
    using pool(2) [OF sz] n(1) by (simp add: word_unat_eq_iff unat_of_nat_small)
  then show "spa_free p = spa_offsets p"
    using free word_less_image [of n, where 'a = 32] n(1)
    by (simp add: spa_free_def spa_offsets_def p uis_free_def uis_indices_def)
qed

lemma spa_counts:
  assumes "spa_inv p"
  shows "card (spa_offsets p) = spa_number_of_buckets p"
    "card (spa_offsets p - spa_free p) = spa_number_of_used_buckets p"
proof -
  let ?b = "pa_buckets (spa_allocator p)"
  from assms have b: "uis_inv ?b" "\<not> uis_is_locked ?b" by (simp_all add: spa_inv_def pool_inv_def uis_unlocked_def)
  note inj = spa_offset_inj [OF assms] and free = uis_inv_free [OF b(1)]
  show card: "card (spa_offsets p) = spa_number_of_buckets p"
    using inj by (simp add: spa_offsets_def card_image spa_number_of_buckets_def uis_indices_def)
  have "card (spa_free p) = length (uis_free_list ?b)"
    using card_image [OF inj_on_subset [OF inj free(2)]] distinct_card [OF free(1)]
    by (simp add: spa_free_def) (simp add: uis_free_def)
  moreover have "spa_free p \<subseteq> spa_offsets p" using spa.free_subset [OF assms] .
  moreover have "spa_number_of_used_buckets p + length (uis_free_list ?b) = spa_number_of_buckets p"
    using free(3) b assms by (simp add: spa_inv_def spa_number_of_buckets_def)
  ultimately show "card (spa_offsets p - spa_free p) = spa_number_of_used_buckets p"
    using card by (subst card_Diff_subset) (auto simp: spa_free_def)
qed

lemma spa_resize_hint_fits:
  assumes "strategy \<noteq> Static" "0 < pa_bucket_alignment (spa_allocator p)"
    and "h = spa_resize_hint p l strategy"
  shows "lsize l \<le> lsize (hint_bucket_layout h) \<and> lalign l \<le> lalign (hint_bucket_layout h)
    \<and> pa_bucket_size (spa_allocator p) \<le> lsize (hint_bucket_layout h)
    \<and> pa_bucket_alignment (spa_allocator p) \<le> lalign (hint_bucket_layout h)
    \<and> (\<exists>m. hint_payload_size h = lsize (hint_bucket_layout h) * m \<and> spa_number_of_buckets p \<le> m
        \<and> (spa_number_of_used_buckets p = spa_number_of_buckets p \<longrightarrow> spa_number_of_buckets p < m))"
proof -
  have mult: "n \<le> next_multiple_of n a" if "0 < a" for n a
    using that align_ge by (simp add: next_multiple_of_align)
  have pot: "m \<le> next_power_of_two n" if "m \<le> n" for m n using that next_power_of_two_ge [of n] by simp
  have fit: "m \<le> next_multiple_of n a" if "m \<le> n" "k \<le> a" "0 < k" for m n a k
    using that mult [of a n] by simp
  let ?n = "spa_number_of_buckets p"
  define m where "m = (if spa_number_of_used_buckets p = ?n
    then case strategy of BestFit \<Rightarrow> ?n + 1 | PowerOfTwo \<Rightarrow> next_power_of_two (?n + 1) | Static \<Rightarrow> ?n else ?n)"
  have "hint_payload_size h = lsize (hint_bucket_layout h) * m"
    by (simp add: assms(3) spa_resize_hint_def spa_initial_setup_hint_def m_def Let_def)
  moreover have "?n \<le> m \<and> (spa_number_of_used_buckets p = ?n \<longrightarrow> ?n < m)"
    using assms(1) pot [of "?n + 1" "?n + 1"] by (cases strategy) (auto simp: m_def)
  moreover have "lsize l \<le> lsize (hint_bucket_layout h) \<and> lalign l \<le> lalign (hint_bucket_layout h)
    \<and> pa_bucket_size (spa_allocator p) \<le> lsize (hint_bucket_layout h)
    \<and> pa_bucket_alignment (spa_allocator p) \<le> lalign (hint_bucket_layout h)"
    using assms(1,2) unfolding assms(3)
    by (cases strategy)
      (auto simp: spa_resize_hint_def spa_initial_setup_hint_def Let_def not_less
        intro!: fit [where k = "pa_bucket_alignment (spa_allocator p)"] pot)
  ultimately show ?thesis by blast
qed

text \<open>The proposed bucket size stays a multiple of the alignment.\<close>

lemma spa_resize_hint_aligned:
  assumes "0 < pa_bucket_alignment (spa_allocator p)" "pa_bucket_alignment (spa_allocator p) dvd pa_bucket_size (spa_allocator p)"
    and "h = spa_resize_hint p l strategy"
  shows "lalign (hint_bucket_layout h) dvd lsize (hint_bucket_layout h) \<and> 0 < lalign (hint_bucket_layout h)"
proof -
  have pos: "0 < next_power_of_two (max (lalign l) (pa_bucket_alignment (spa_allocator p)))"
    using next_power_of_two_ge [of "max (lalign l) (pa_bucket_alignment (spa_allocator p))"] assms(1) by linarith
  have dvd: "a dvd next_multiple_of n a" if "0 < a" for n a
    unfolding next_multiple_of_align [OF that] by (rule align_dvd [OF that])
  show ?thesis
  proof (cases "pa_bucket_size (spa_allocator p) < lsize l \<or> pa_bucket_alignment (spa_allocator p) < lalign l")
    case True
    let ?a = "max (lalign l) (pa_bucket_alignment (spa_allocator p))"
    have "0 < ?a" using assms(1) by simp
    with True assms(1,2) dvd [OF pos] dvd [of ?a] pos show ?thesis
      unfolding assms(3) spa_resize_hint_def spa_initial_setup_hint_def Let_def
      by (cases strategy) simp_all
  next
    case False
    with assms(1,2) show ?thesis
      unfolding assms(3) spa_resize_hint_def spa_initial_setup_hint_def Let_def by simp
  qed
qed

section \<open>Properties\<close>

text \<open>C37: A pointer offset carries its offset and its segment id without loss for every offset below
  \<open>2 ^ 56\<close>, changing the segment id keeps the offset, and both together determine it.\<close>

theorem pointer_offset_roundtrip:
  assumes "offset < 2 ^ 56"
  shows "po_offset (from_offset_and_segment_id offset s) = offset
    \<and> po_segment_id (from_offset_and_segment_id offset s) = s
    \<and> po_set_segment_id (from_offset_and_segment_id offset s) s' = from_offset_and_segment_id offset s'
    \<and> po_from_value (po_as_value (from_offset_and_segment_id offset s)) = from_offset_and_segment_id offset s"
  using assms by (auto simp: po_from_value_def po_as_value_def intro: po_eqI)

theorem pointer_offset_roundtrip_witness:
  "po_offset (from_offset_and_segment_id 123456 7) = 123456
   \<and> po_set_segment_id (from_offset_and_segment_id 123456 7) 9 = from_offset_and_segment_id 123456 9"
  using pointer_offset_roundtrip [of 123456 7 9] by simp

text \<open>C17: A shared-memory pool set up for \<open>n\<close> chunks really has \<open>n\<close> buckets; over every sequence of
  allocations and deallocations the offsets in use are distinct multiples of the chunk size
  inside the payload, \<open>number_of_used_buckets\<close> counts them, and an allocation fails only when
  all \<open>n\<close> are in use.\<close>

theorem shm_pool_offsets:
  assumes "spa_new_uninit dbg A (ptr, hint_payload_size (spa_initial_setup_hint l n)) l = Some p0"
      "spa_init mgmt p0 = Some (Inr p)"
    and "0 < lalign l" "0 < lsize l" "lalign l dvd lsize l" "lalign l dvd ptr"
    and "n < 2 ^ 24 - 1" "lsize l * n < 2 ^ 56"
  shows "case run_pool spa_acquire spa_release p [] ops of (p', held) \<Rightarrow>
      distinct (map po_offset held)
      \<and> (\<forall>a \<in> set held. \<exists>k < n. po_offset a = k * lsize l)
      \<and> spa_number_of_used_buckets p' = length held
      \<and> (fst (spa_acquire p') = None \<longleftrightarrow> length held = n)"
proof (cases "run_pool spa_acquire spa_release p [] ops")
  case (Pair p' held)
  note new = spa_setup_inv [OF assms]
  from spa.run_distinct [OF new(1) _ _ Pair] new(3)
  have run: "spa_inv p'" "distinct held" "set held = spa_offsets p' - spa_free p'" "spa_offsets p' = spa_offsets p"
    by simp_all
  have n: "card (spa_offsets p) = n" using spa_counts(1) [OF new(1)] new(2) by simp
  have addr: "\<exists>i < uis_capacity (pa_buckets (spa_allocator p)). a = spa_offset p i \<and> po_offset a = unat i * lsize l"
    if "a \<in> spa_offsets p" for a
    using that po_offset_spa_offset(1) [OF new(1)] new(4) by (auto simp: spa_offsets_def uis_indices_def)
  have held: "set held \<subseteq> spa_offsets p" using run by auto
  have "inj_on po_offset (set held)"
  proof (rule inj_onI)
    fix a b assume ab: "a \<in> set held" "b \<in> set held" and eq: "po_offset a = po_offset b"
    from ab(1) held have "a \<in> spa_offsets p" by auto
    from addr [OF this] obtain i where i: "a = spa_offset p i" "po_offset a = unat i * lsize l" by auto
    from ab(2) held have "b \<in> spa_offsets p" by auto
    from addr [OF this] obtain j where j: "b = spa_offset p j" "po_offset b = unat j * lsize l" by auto
    from i(2) j(2) eq assms(4) have "i = j" by (simp add: word_unat_eq_iff)
    with i(1) j(1) show "a = b" by simp
  qed
  moreover have "\<exists>k < n. po_offset a = k * lsize l" if "a \<in> set held" for a
    using addr [of a] that held new(2) by (auto simp: spa_number_of_buckets_def word_less_nat_alt)
  moreover have used: "spa_number_of_used_buckets p' = length held"
    using spa_counts(2) [OF run(1)] distinct_card [OF run(2)] unfolding run(3) by simp
  moreover have "fst (spa_acquire p') = None \<longleftrightarrow> length held = n"
  proof -
    have "length held = n \<longleftrightarrow> set held = spa_offsets p"
      using held n run(2) card_subset_eq [of "spa_offsets p" "set held"]
      by (auto simp: distinct_card [symmetric] spa_offsets_def)
    also have "\<dots> \<longleftrightarrow> spa_free p' = {}" using run(3,4) spa.free_subset [OF run(1)] by auto
    finally show ?thesis by (simp add: spa.acquire_fails_iff [OF run(1)])
  qed
  ultimately show ?thesis using Pair run(2) by (simp add: distinct_map)
qed

abbreviation spa_of_two :: shm_pool_allocator where
  "spa_of_two \<equiv> \<lparr>spa_allocator = pool_of_two\<lparr>pa_size := 16\<rparr>, spa_base_address = 4096,
     spa_max_supported_alignment_by_memory = 8, spa_number_of_used_buckets = 0\<rparr>"

abbreviation spa_client_run :: "shm_pool_allocator \<times> PointerOffset list" where
  "spa_client_run \<equiv> run_pool spa_acquire spa_release spa_of_two [] [Acquire, Acquire, Release 0]"

theorem shm_pool_offsets_witness:
  "snd spa_client_run = [po_new 8] \<and> spa_number_of_used_buckets (fst spa_client_run) = length (snd spa_client_run)"
proof
  let ?b0 = "uis_of_two\<lparr>uis_data := [], uis_is_memory_initialized := False\<rparr>"
  let ?l = "\<lparr>lsize = 8, lalign = 4\<rparr>"
  let ?p0 = "spa_of_two\<lparr>spa_allocator := pool_of_two\<lparr>pa_buckets := ?b0, pa_size := 16, pa_is_memory_initialized := False\<rparr>\<rparr>"
  have new: "spa_new_uninit True 8 (4096, hint_payload_size (spa_initial_setup_hint ?l 2)) ?l = Some ?p0"
    "spa_init (\<lambda>_. Inr 0) ?p0 = Some (Inr spa_of_two)"
    by (simp_all add: spa_new_uninit_def spa_initial_setup_hint_def spa_init_def spa_max_alignment_def pool_eval)
  from shm_pool_offsets [OF new, of "[Acquire, Acquire, Release 0]"]
  have "case spa_client_run of (p', held) \<Rightarrow> spa_number_of_used_buckets p' = length held"
    by (simp add: case_prod_beta del: run_pool.simps)
  then show "spa_number_of_used_buckets (fst spa_client_run) = length (snd spa_client_run)"
    by (simp add: case_prod_beta del: run_pool.simps)
  show "snd spa_client_run = [po_new 8]"
    by (simp add: spa_acquire_def spa_release_def spa_allocate_def spa_deallocate_bucket_def spa_max_alignment_def
        po_new_def from_offset_and_segment_id_def po_offset_def pool_eval uis_eval)
qed



end
