(* ===== verification/Used_Chunk_List.thy ===== *)
theory Used_Chunk_List
  imports Elementary
begin

text \<open>
  The list of chunks in use of a connection
  (\<^verbatim>\<open>iceoryx2-cal/src/zero_copy_connection/used_chunk_list.rs\<close>): one flag per chunk of a segment,
  set when the chunk is sent and cleared when it comes back. It abstracts to the set of the
  indices whose flag is set. An index past the end is an access through a raw pointer in
  release builds; the model stops there like the debug assertion does.
\<close>

section \<open>State and operations\<close>

record used_chunk_list =
  ucl_data :: "bool list"
  ucl_capacity :: nat
  ucl_is_memory_initialized :: bool

definition ucl_new :: "nat \<Rightarrow> used_chunk_list" where
  "ucl_new capacity =
     \<lparr>ucl_data = replicate capacity False, ucl_capacity = capacity, ucl_is_memory_initialized = True\<rparr>"

definition ucl_new_uninit :: "nat \<Rightarrow> used_chunk_list" where
  "ucl_new_uninit capacity =
     \<lparr>ucl_data = [], ucl_capacity = capacity, ucl_is_memory_initialized = False\<rparr>"

definition ucl_layout :: "used_chunk_list \<Rightarrow> layout" where
  "ucl_layout l = \<lparr>lsize = 1 * ucl_capacity l, lalign = 1\<rparr>"

definition ucl_init ::
  "(layout \<Rightarrow> AllocationError + nat) \<Rightarrow> used_chunk_list \<Rightarrow> (AllocationError + used_chunk_list) option" where
  "ucl_init allocate l =
     (if ucl_is_memory_initialized l then None
      else Some (case allocate (ucl_layout l) of
          Inl e \<Rightarrow> Inl e
        | Inr _ \<Rightarrow> Inr (l\<lparr>ucl_data := replicate (ucl_capacity l) False, ucl_is_memory_initialized := True\<rparr>)))"

definition ucl_memory_size :: "nat \<Rightarrow> nat" where
  "ucl_memory_size capacity = unaligned_mem_size 1 1 capacity"

text \<open>\<open>swap\<close>: the old flag is returned.\<close>

definition ucl_swap :: "bool \<Rightarrow> used_chunk_list \<Rightarrow> nat \<Rightarrow> bool \<Rightarrow> (bool \<times> used_chunk_list) option" where
  "ucl_swap dbg l idx value = do {
     _ \<leftarrow> debug_assert dbg (ucl_is_memory_initialized l);
     _ \<leftarrow> debug_assert dbg (idx < ucl_capacity l);
     old \<leftarrow> slice_get (ucl_data l) idx;
     Some (old, l\<lparr>ucl_data := (ucl_data l)[idx := value]\<rparr>) }"

definition ucl_insert :: "bool \<Rightarrow> used_chunk_list \<Rightarrow> nat \<Rightarrow> (bool \<times> used_chunk_list) option" where
  "ucl_insert dbg l value = do { (old, l') \<leftarrow> ucl_swap dbg l value True; Some (\<not> old, l') }"

definition ucl_remove :: "bool \<Rightarrow> used_chunk_list \<Rightarrow> nat \<Rightarrow> (bool \<times> used_chunk_list) option" where
  "ucl_remove dbg l value = ucl_swap dbg l value False"

text \<open>\<open>remove_all\<close> clears every flag and calls the callback on each index that was set, in order.\<close>

fun ucl_remove_all_from :: "bool list \<Rightarrow> nat \<Rightarrow> nat list" where
  "ucl_remove_all_from [] i = []"
| "ucl_remove_all_from (f # fs) i = (if f then i # ucl_remove_all_from fs (i + 1) else ucl_remove_all_from fs (i + 1))"

definition ucl_remove_all :: "bool \<Rightarrow> used_chunk_list \<Rightarrow> (nat list \<times> used_chunk_list) option" where
  "ucl_remove_all dbg l = do {
     _ \<leftarrow> debug_assert dbg (ucl_is_memory_initialized l);
     Some (ucl_remove_all_from (ucl_data l) 0, l\<lparr>ucl_data := replicate (length (ucl_data l)) False\<rparr>) }"

section \<open>Abstraction to a set\<close>

definition ucl_inv :: "used_chunk_list \<Rightarrow> bool" where
  "ucl_inv l \<longleftrightarrow> ucl_is_memory_initialized l \<and> length (ucl_data l) = ucl_capacity l"

definition ucl_set :: "used_chunk_list \<Rightarrow> nat set" where
  "ucl_set l = {i. i < length (ucl_data l) \<and> ucl_data l ! i}"

lemma ucl_new_inv [simp]: "ucl_inv (ucl_new n)" "ucl_set (ucl_new n) = {}" "ucl_capacity (ucl_new n) = n"
  by (auto simp: ucl_new_def ucl_inv_def ucl_set_def)

lemma ucl_init_new: "ucl_init (\<lambda>_. Inr a) (ucl_new_uninit n) = Some (Inr (ucl_new n))"
  by (simp add: ucl_init_def ucl_new_uninit_def ucl_new_def)

lemma ucl_set_update:
  assumes "i < length (ucl_data l)"
  shows "ucl_set (l\<lparr>ucl_data := (ucl_data l)[i := v]\<rparr>) = (if v then insert i (ucl_set l) else ucl_set l - {i})"
  using assms by (auto simp: ucl_set_def nth_list_update split: if_splits)

lemma ucl_swap_inv:
  assumes "ucl_inv l" "i < ucl_capacity l"
  shows "ucl_swap dbg l i v = Some (i \<in> ucl_set l, l\<lparr>ucl_data := (ucl_data l)[i := v]\<rparr>)"
    "ucl_inv (l\<lparr>ucl_data := (ucl_data l)[i := v]\<rparr>)"
  using assms by (simp_all add: ucl_swap_def ucl_inv_def ucl_set_def)

lemma ucl_insert_set:
  assumes "ucl_inv l" "i < ucl_capacity l"
  obtains l' where "ucl_insert dbg l i = Some (i \<notin> ucl_set l, l')" "ucl_inv l'"
    "ucl_capacity l' = ucl_capacity l" "ucl_set l' = insert i (ucl_set l)"
proof (rule that [of "l\<lparr>ucl_data := (ucl_data l)[i := True]\<rparr>"])
  show "ucl_set (l\<lparr>ucl_data := (ucl_data l)[i := True]\<rparr>) = insert i (ucl_set l)"
    using assms by (simp add: ucl_set_update ucl_inv_def)
qed (use ucl_swap_inv [OF assms] in \<open>simp_all add: ucl_insert_def\<close>)

lemma ucl_remove_set:
  assumes "ucl_inv l" "i < ucl_capacity l"
  obtains l' where "ucl_remove dbg l i = Some (i \<in> ucl_set l, l')" "ucl_inv l'"
    "ucl_capacity l' = ucl_capacity l" "ucl_set l' = ucl_set l - {i}"
proof (rule that [of "l\<lparr>ucl_data := (ucl_data l)[i := False]\<rparr>"])
  show "ucl_set (l\<lparr>ucl_data := (ucl_data l)[i := False]\<rparr>) = ucl_set l - {i}"
    using assms by (simp add: ucl_set_update ucl_inv_def)
qed (use ucl_swap_inv [OF assms] in \<open>simp_all add: ucl_remove_def\<close>)

lemma ucl_remove_all_from_filter:
  "ucl_remove_all_from fs i = filter (\<lambda>j. fs ! (j - i)) [i..<i + length fs]"
proof (induction fs arbitrary: i)
  case (Cons f fs)
  have "filter (\<lambda>j. (f # fs) ! (j - i)) [Suc i..<Suc i + length fs] =
      filter (\<lambda>j. fs ! (j - Suc i)) [Suc i..<Suc i + length fs]"
    by (rule filter_cong) (auto simp: nth_Cons')
  then show ?case by (cases f) (simp_all add: Cons upt_conv_Cons del: upt_Suc)
qed simp

lemma ucl_remove_all_set:
  assumes "ucl_inv l"
  obtains xs l' where "ucl_remove_all dbg l = Some (xs, l')" "set xs = ucl_set l" "distinct xs" "ucl_inv l'"
    "ucl_capacity l' = ucl_capacity l" "ucl_set l' = {}"
proof (rule that)
  show "ucl_remove_all dbg l = Some (filter (\<lambda>j. ucl_data l ! j) [0..<length (ucl_data l)],
      l\<lparr>ucl_data := replicate (length (ucl_data l)) False\<rparr>)"
    using assms by (simp add: ucl_remove_all_def ucl_inv_def ucl_remove_all_from_filter)
qed (use assms in \<open>auto simp: ucl_inv_def ucl_set_def\<close>)

end
