(* ===== verification/Zero_Copy_Connection.thy ===== *)
theory Zero_Copy_Connection
  imports Index_Queue Overflow_Queue Used_Chunk_List Shm_Allocators
begin

text \<open>
  The zero-copy connection of \<^verbatim>\<open>iceoryx2-cal/src/zero_copy_connection/common.rs\<close> in use: a sender
  and a receiver share a \<open>SharedManagementData\<close> with, per channel, a submission queue (safely
  overflowing), a completion queue and, per segment, the list of the chunks in use. One
  definition per method of \<open>Sender\<close> and \<open>Receiver\<close>; each runs as one step, which the
  interleaving proofs of the two queues justify. Setting a connection up and tearing it down
  is in \<open>Zero_Copy_Setup\<close>, the guarantees of the protocol in \<open>Zero_Copy_Protocol\<close>.

  The management data is shared memory; the \<open>borrow_counter\<close> belongs to the receiver.
\<close>

section \<open>Data\<close>

datatype ZeroCopySendError = ConnectionCorrupted | ReceiveBufferFull | UsedChunkListFull

datatype ZeroCopyReceiveError = ReceiveWouldExceedMaxBorrowValue

datatype ZeroCopyReclaimError = ReceiverReturnedCorruptedPointerOffset

datatype ZeroCopyReleaseError = RetrieveBufferFull

type_synonym ChannelId = nat

record segment_details =
  sd_used_chunk_list :: used_chunk_list
  sd_sample_size :: nat

record channel =
  ch_submission_queue :: overflow_queue
  ch_completion_queue :: index_queue
  ch_state :: u64

record shared_management_data =
  mgmt_channels :: "channel list"
  mgmt_segment_details :: "segment_details list"
  mgmt_state :: u8
  mgmt_max_borrowed_samples :: nat
  mgmt_number_of_samples_per_segment :: nat
  mgmt_number_of_segments :: u8
  mgmt_enable_safe_overflow :: bool

definition segment_index :: "shared_management_data \<Rightarrow> nat \<Rightarrow> ChannelId \<Rightarrow> nat" where
  "segment_index m segment_id channel_id = channel_id * unat (mgmt_number_of_segments m) + segment_id"

definition get_segment_details :: "shared_management_data \<Rightarrow> nat \<Rightarrow> ChannelId \<Rightarrow> segment_details option" where
  "get_segment_details m segment_id channel_id =
     slice_get (mgmt_segment_details m) (segment_index m segment_id channel_id)"

definition put_segment_details ::
  "shared_management_data \<Rightarrow> nat \<Rightarrow> ChannelId \<Rightarrow> segment_details \<Rightarrow> shared_management_data" where
  "put_segment_details m segment_id channel_id d =
     m\<lparr>mgmt_segment_details := (mgmt_segment_details m)[segment_index m segment_id channel_id := d]\<rparr>"

definition get_channel :: "bool \<Rightarrow> shared_management_data \<Rightarrow> ChannelId \<Rightarrow> channel option" where
  "get_channel dbg m channel_id = do {
     _ \<leftarrow> debug_assert dbg (channel_id < length (mgmt_channels m));
     slice_get (mgmt_channels m) channel_id }"

definition put_channel :: "shared_management_data \<Rightarrow> ChannelId \<Rightarrow> channel \<Rightarrow> shared_management_data" where
  "put_channel m channel_id c = m\<lparr>mgmt_channels := (mgmt_channels m)[channel_id := c]\<rparr>"

text \<open>
  The chunk an offset names inside its segment. Both the remainder (a debug assertion) and
  the quotient by a sample size of zero panic.
\<close>

definition chunk_index :: "bool \<Rightarrow> PointerOffset \<Rightarrow> nat \<Rightarrow> nat option" where
  "chunk_index dbg ptr sample_size = do {
     _ \<leftarrow> panic_unless (sample_size \<noteq> 0);
     _ \<leftarrow> debug_assert dbg (po_offset ptr mod sample_size = 0);
     Some (po_offset ptr div sample_size) }"

section \<open>Sender\<close>

definition zcc_try_send ::
  "bool \<Rightarrow> shared_management_data \<Rightarrow> PointerOffset \<Rightarrow> nat \<Rightarrow> ChannelId \<Rightarrow>
   ((ZeroCopySendError + PointerOffset option) \<times> shared_management_data) option" where
  "zcc_try_send dbg m ptr sample_size channel_id = do {
     c \<leftarrow> get_channel dbg m channel_id;
     if \<not> mgmt_enable_safe_overflow m \<and> overflow_queue_is_full (ch_submission_queue c)
     then Some (Inl ReceiveBufferFull, m)
     else do {
       let segment_id = unat (po_segment_id ptr);
       d0 \<leftarrow> get_segment_details m segment_id channel_id;
       let d = d0\<lparr>sd_sample_size := sample_size\<rparr>;
       index \<leftarrow> chunk_index dbg ptr sample_size;
       _ \<leftarrow> debug_assert dbg (segment_id < unat (mgmt_number_of_segments m));
       (did_not_send_same_offset_twice, l) \<leftarrow> ucl_insert dbg (sd_used_chunk_list d) index;
       _ \<leftarrow> debug_assert dbg did_not_send_same_offset_twice;
       let m1 = put_segment_details m segment_id channel_id (d\<lparr>sd_used_chunk_list := l\<rparr>);
       let (r, q) = overflow_queue_push (ch_submission_queue c) (po_as_value ptr);
       let m2 = put_channel m1 channel_id (c\<lparr>ch_submission_queue := q\<rparr>);
       case r of
         None \<Rightarrow> Some (Inr None, m2)
       | Some v \<Rightarrow> do {
           let pointer_offset = po_from_value v;
           let seg = unat (po_segment_id pointer_offset);
           d2 \<leftarrow> get_segment_details m2 seg channel_id;
           i \<leftarrow> chunk_index dbg pointer_offset (sd_sample_size d2);
           (removed, l2) \<leftarrow> ucl_remove dbg (sd_used_chunk_list d2) i;
           let m3 = put_segment_details m2 seg channel_id (d2\<lparr>sd_used_chunk_list := l2\<rparr>);
           Some (if removed then Inr (Some pointer_offset) else Inl ConnectionCorrupted, m3) } } }"

text \<open>
  \<open>blocking_send\<close> polls until the submission queue has room and then sends. One poll either
  leaves the caller waiting or does the work.
\<close>

datatype 'a poll = Waiting | Ready 'a

definition zcc_blocking_send_poll ::
  "bool \<Rightarrow> shared_management_data \<Rightarrow> PointerOffset \<Rightarrow> nat \<Rightarrow> ChannelId \<Rightarrow>
   ((ZeroCopySendError + PointerOffset option) \<times> shared_management_data) poll option" where
  "zcc_blocking_send_poll dbg m ptr sample_size channel_id = do {
     c \<leftarrow> get_channel dbg m channel_id;
     if \<not> mgmt_enable_safe_overflow m \<and> overflow_queue_is_full (ch_submission_queue c)
     then Some Waiting
     else do { r \<leftarrow> zcc_try_send dbg m ptr sample_size channel_id; Some (Ready r) } }"

definition zcc_reclaim ::
  "bool \<Rightarrow> shared_management_data \<Rightarrow> ChannelId \<Rightarrow>
   ((ZeroCopyReclaimError + PointerOffset option) \<times> shared_management_data) option" where
  "zcc_reclaim dbg m channel_id = do {
     c \<leftarrow> get_channel dbg m channel_id;
     let (r, q) = index_queue_pop (ch_completion_queue c);
     let m1 = put_channel m channel_id (c\<lparr>ch_completion_queue := q\<rparr>);
     case r of
       None \<Rightarrow> Some (Inr None, m1)
     | Some v \<Rightarrow> do {
         let pointer_offset = po_from_value v;
         let segment_id = unat (po_segment_id pointer_offset);
         _ \<leftarrow> debug_assert dbg (segment_id < unat (mgmt_number_of_segments m));
         if segment_id \<ge> length (mgmt_segment_details m)
         then Some (Inl ReceiverReturnedCorruptedPointerOffset, m1)
         else do {
           d \<leftarrow> get_segment_details m1 segment_id channel_id;
           index \<leftarrow> chunk_index dbg pointer_offset (sd_sample_size d);
           (removed, l) \<leftarrow> ucl_remove dbg (sd_used_chunk_list d) index;
           let m2 = put_segment_details m1 segment_id channel_id (d\<lparr>sd_used_chunk_list := l\<rparr>);
           Some (if removed then Inr (Some pointer_offset)
                 else Inl ReceiverReturnedCorruptedPointerOffset, m2) } } }"

definition segment_id_from_index :: "shared_management_data \<Rightarrow> nat \<Rightarrow> SegmentId" where
  "segment_id_from_index m index =
     (let number_of_segments = unat (mgmt_number_of_segments m)
      in of_nat (index - (index div number_of_segments) * number_of_segments))"

text \<open>The offsets of all chunks in use; every flag is cleared.\<close>

fun acquire_used_offsets_from ::
  "bool \<Rightarrow> shared_management_data \<Rightarrow> nat \<Rightarrow> segment_details list \<Rightarrow>
   (PointerOffset list \<times> segment_details list) option" where
  "acquire_used_offsets_from dbg m n [] = Some ([], [])"
| "acquire_used_offsets_from dbg m n (d # ds) = do {
     (indices, l) \<leftarrow> ucl_remove_all dbg (sd_used_chunk_list d);
     let offsets = map (\<lambda>index. from_offset_and_segment_id (index * sd_sample_size d) (segment_id_from_index m n)) indices;
     (offsets', ds') \<leftarrow> acquire_used_offsets_from dbg m (n + 1) ds;
     Some (offsets @ offsets', d\<lparr>sd_used_chunk_list := l\<rparr> # ds') }"

definition zcc_acquire_used_offsets ::
  "bool \<Rightarrow> shared_management_data \<Rightarrow> (PointerOffset list \<times> shared_management_data) option" where
  "zcc_acquire_used_offsets dbg m = do {
     (offsets, ds) \<leftarrow> acquire_used_offsets_from dbg m 0 (mgmt_segment_details m);
     Some (offsets, m\<lparr>mgmt_segment_details := ds\<rparr>) }"

section \<open>Receiver\<close>

definition zcc_has_data :: "bool \<Rightarrow> shared_management_data \<Rightarrow> ChannelId \<Rightarrow> bool option" where
  "zcc_has_data dbg m channel_id = do {
     c \<leftarrow> get_channel dbg m channel_id;
     Some (\<not> overflow_queue_is_empty (ch_submission_queue c)) }"

definition zcc_receive ::
  "bool \<Rightarrow> shared_management_data \<Rightarrow> nat list \<Rightarrow> ChannelId \<Rightarrow>
   ((ZeroCopyReceiveError + PointerOffset option) \<times> shared_management_data \<times> nat list) option" where
  "zcc_receive dbg m borrow_counter channel_id = do {
     c \<leftarrow> get_channel dbg m channel_id;
     b \<leftarrow> slice_get borrow_counter channel_id;
     if b \<ge> mgmt_max_borrowed_samples m
     then Some (Inl ReceiveWouldExceedMaxBorrowValue, m, borrow_counter)
     else do {
       let (r, q) = overflow_queue_pop (ch_submission_queue c);
       let m1 = put_channel m channel_id (c\<lparr>ch_submission_queue := q\<rparr>);
       Some (case r of
           None \<Rightarrow> (Inr None, m1, borrow_counter)
         | Some v \<Rightarrow> (Inr (Some (po_from_value v)), m1, borrow_counter[channel_id := b + 1])) } }"

definition zcc_borrow_count :: "nat list \<Rightarrow> ChannelId \<Rightarrow> nat option" where
  "zcc_borrow_count borrow_counter channel_id = slice_get borrow_counter channel_id"

definition zcc_release ::
  "bool \<Rightarrow> shared_management_data \<Rightarrow> nat list \<Rightarrow> PointerOffset \<Rightarrow> ChannelId \<Rightarrow>
   ((ZeroCopyReleaseError + unit) \<times> shared_management_data \<times> nat list) option" where
  "zcc_release dbg m borrow_counter ptr channel_id = do {
     c \<leftarrow> get_channel dbg m channel_id;
     let (ok, q) = index_queue_push (ch_completion_queue c) (po_as_value ptr);
     let m1 = put_channel m channel_id (c\<lparr>ch_completion_queue := q\<rparr>);
     if ok
     then do {
       b \<leftarrow> slice_get borrow_counter channel_id;
       b' \<leftarrow> usize_sub dbg b 1;
       Some (Inr (), m1, borrow_counter[channel_id := b']) }
     else Some (Inl RetrieveBufferFull, m1, borrow_counter) }"

section \<open>Port details\<close>

definition zcc_buffer_size :: "shared_management_data \<Rightarrow> nat option" where
  "zcc_buffer_size m = do { c \<leftarrow> slice_get (mgmt_channels m) 0; Some (oq_capacity (ch_submission_queue c)) }"

definition zcc_channel_state :: "bool \<Rightarrow> shared_management_data \<Rightarrow> ChannelId \<Rightarrow> u64 option" where
  "zcc_channel_state dbg m channel_id = do { c \<leftarrow> get_channel dbg m channel_id; Some (ch_state c) }"

end
