(* ===== verification/Zero_Copy_Setup.thy ===== *)
theory Zero_Copy_Setup
  imports Zero_Copy_Connection
begin

text \<open>
  Creating, opening and tearing down a zero-copy connection
  (\<^verbatim>\<open>iceoryx2-cal/src/zero_copy_connection/common.rs\<close>): the initialisation of the shared management
  data from the memory behind it, the registration of the two ports in one atomic byte, the
  builder with its compatibility checks, and the forced removal of a port.

  The dynamic storage is not part of this model: whether \<open>open_or_create\<close> created the storage,
  opened one with given content or failed is the argument \<open>storage\<close>. The sizes and alignments of
  \<open>Channel\<close> and \<open>SegmentDetails\<close> are chosen by the compiler: they are the arguments \<open>cl\<close> and \<open>sl\<close>.
\<close>

unbundle bit_operations_syntax

section \<open>Initialisation of the management data\<close>

text \<open>
  The \<open>BumpAllocator\<close> handed to the initialiser is the bounded one; a failing allocation is a
  \<open>fatal_panic!\<close>.
\<close>

definition bba_source :: "bounded_bump_allocator \<Rightarrow> layout \<Rightarrow> AllocationError + nat" where
  "bba_source a l = (case fst (bba_allocate a l) of Inl e \<Rightarrow> Inl e | Inr c \<Rightarrow> Inr (fst c))"

definition bba_next :: "bounded_bump_allocator \<Rightarrow> layout \<Rightarrow> bounded_bump_allocator" where
  "bba_next a l = snd (bba_allocate a l)"

definition unwrap :: "'e + 'a \<Rightarrow> 'a option" where
  "unwrap r = (case r of Inl _ \<Rightarrow> None | Inr a \<Rightarrow> Some a)"

definition channel_new :: "nat \<Rightarrow> nat \<Rightarrow> channel" where
  "channel_new submission_queue_capacity completion_queue_capacity =
     \<lparr>ch_submission_queue = overflow_queue_new_uninit submission_queue_capacity,
      ch_completion_queue = index_queue_new_uninit completion_queue_capacity, ch_state = 0\<rparr>"

definition channel_memory_size :: "nat \<Rightarrow> nat \<Rightarrow> nat" where
  "channel_memory_size submission_queue_capacity completion_queue_capacity =
     index_queue_memory_size completion_queue_capacity + overflow_queue_memory_size submission_queue_capacity"

definition channel_init :: "bounded_bump_allocator \<Rightarrow> channel \<Rightarrow> (channel \<times> bounded_bump_allocator) option" where
  "channel_init a c = do {
     let sub_layout = \<lparr>lsize = 8 * (oq_capacity (ch_submission_queue c) + 1), lalign = 8\<rparr>;
     let com_layout = \<lparr>lsize = 8 * iq_capacity (ch_completion_queue c), lalign = 8\<rparr>;
     r1 \<leftarrow> overflow_queue_init (bba_source a) (ch_submission_queue c);
     q1 \<leftarrow> unwrap r1;
     let a1 = bba_next a sub_layout;
     r2 \<leftarrow> index_queue_init (bba_source a1) (ch_completion_queue c);
     q2 \<leftarrow> unwrap r2;
     Some (c\<lparr>ch_submission_queue := q1, ch_completion_queue := q2\<rparr>, bba_next a1 com_layout) }"

fun init_channels ::
  "nat \<Rightarrow> nat \<Rightarrow> nat \<Rightarrow> bounded_bump_allocator \<Rightarrow> (channel list \<times> bounded_bump_allocator) option" where
  "init_channels 0 sub_capacity com_capacity a = Some ([], a)"
| "init_channels (Suc n) sub_capacity com_capacity a = do {
     (c, a1) \<leftarrow> channel_init a (channel_new sub_capacity com_capacity);
     (cs, a2) \<leftarrow> init_channels n sub_capacity com_capacity a1;
     Some (c # cs, a2) }"

definition segment_details_new_uninit :: "nat \<Rightarrow> segment_details" where
  "segment_details_new_uninit number_of_samples =
     \<lparr>sd_used_chunk_list = ucl_new_uninit number_of_samples, sd_sample_size = 0\<rparr>"

definition segment_details_memory_size :: "nat \<Rightarrow> nat" where
  "segment_details_memory_size number_of_samples = ucl_memory_size number_of_samples"

fun init_segments ::
  "nat \<Rightarrow> nat \<Rightarrow> bounded_bump_allocator \<Rightarrow> (segment_details list \<times> bounded_bump_allocator) option" where
  "init_segments 0 samples a = Some ([], a)"
| "init_segments (Suc n) samples a = do {
     let d = segment_details_new_uninit samples;
     r \<leftarrow> ucl_init (bba_source a) (sd_used_chunk_list d);
     l \<leftarrow> unwrap r;
     (ds, a2) \<leftarrow> init_segments n samples (bba_next a (ucl_layout (sd_used_chunk_list d)));
     Some (d\<lparr>sd_used_chunk_list := l\<rparr> # ds, a2) }"

definition vec_layout :: "layout \<Rightarrow> nat \<Rightarrow> layout" where
  "vec_layout el n = \<lparr>lsize = lsize el * n, lalign = lalign el\<rparr>"

definition mgmt_new :: "bool \<Rightarrow> nat \<Rightarrow> nat \<Rightarrow> u8 \<Rightarrow> shared_management_data" where
  "mgmt_new enable_safe_overflow max_borrowed_samples number_of_samples_per_segment number_of_segments =
     \<lparr>mgmt_channels = [], mgmt_segment_details = [], mgmt_state = 0,
      mgmt_max_borrowed_samples = max_borrowed_samples,
      mgmt_number_of_samples_per_segment = number_of_samples_per_segment,
      mgmt_number_of_segments = number_of_segments, mgmt_enable_safe_overflow = enable_safe_overflow\<rparr>"

definition mgmt_memory_size :: "layout \<Rightarrow> layout \<Rightarrow> nat \<Rightarrow> nat \<Rightarrow> nat \<Rightarrow> u8 \<Rightarrow> nat \<Rightarrow> nat" where
  "mgmt_memory_size cl sl sub_capacity com_capacity number_of_samples number_of_segments number_of_channels =
     number_of_channels * channel_memory_size sub_capacity com_capacity
     + unaligned_mem_size (lsize cl) (lalign cl) number_of_channels
     + segment_details_memory_size number_of_samples * unat number_of_segments * number_of_channels
     + unaligned_mem_size (lsize sl) (lalign sl) (unat number_of_segments * number_of_channels)"

definition mgmt_init ::
  "layout \<Rightarrow> layout \<Rightarrow> bounded_bump_allocator \<Rightarrow> shared_management_data \<Rightarrow> nat \<Rightarrow> nat \<Rightarrow> nat \<Rightarrow>
   shared_management_data option" where
  "mgmt_init cl sl a m number_of_channels sub_capacity com_capacity = do {
     let n = unat (mgmt_number_of_segments m) * number_of_channels;
     _ \<leftarrow> unwrap (bba_source a (vec_layout cl number_of_channels));
     let a1 = bba_next a (vec_layout cl number_of_channels);
     (cs, a2) \<leftarrow> init_channels number_of_channels sub_capacity com_capacity a1;
     _ \<leftarrow> unwrap (bba_source a2 (vec_layout sl n));
     let a3 = bba_next a2 (vec_layout sl n);
     (ds, a4) \<leftarrow> init_segments n (mgmt_number_of_samples_per_segment m) a3;
     Some (m\<lparr>mgmt_channels := cs, mgmt_segment_details := ds\<rparr>) }"

section \<open>Port registration\<close>

definition STATE_SENDER :: u8 where "STATE_SENDER = 0b00000001"
definition STATE_RECEIVER :: u8 where "STATE_RECEIVER = 0b00000010"
definition STATE_MARKED_FOR_DESTRUCTION :: u8 where "STATE_MARKED_FOR_DESTRUCTION = 0b10000000"

datatype ZeroCopyCreationError =
    CreationInternalError | IsBeingCleanedUp | AnotherInstanceIsAlreadyConnected
  | CreationInsufficientPermissions | CreationVersionMismatch | ConnectionMaybeCorrupted
  | InvalidSampleSize | CreationInitializationNotYetFinalized | IncompatibleBufferSize
  | IncompatibleMaxBorrowedSamplesPerChannelSetting | IncompatibleOverflowSetting
  | IncompatibleNumberOfSamples | IncompatibleNumberOfSegments | IncompatibleNumberOfChannels

definition zcc_is_connected :: "shared_management_data \<Rightarrow> bool" where
  "zcc_is_connected m \<longleftrightarrow> mgmt_state m = STATE_SENDER OR STATE_RECEIVER"

definition remove_state :: "shared_management_data \<Rightarrow> u8 \<Rightarrow> u8 \<times> shared_management_data" where
  "remove_state m state_to_remove =
     (let current_state = mgmt_state m in
      if current_state = STATE_MARKED_FOR_DESTRUCTION then (STATE_MARKED_FOR_DESTRUCTION, m)
      else let new_state =
             (if current_state = state_to_remove then STATE_MARKED_FOR_DESTRUCTION
              else current_state AND NOT state_to_remove)
           in (new_state, m\<lparr>mgmt_state := new_state\<rparr>))"

definition reserve_port :: "shared_management_data \<Rightarrow> u8 \<Rightarrow> (ZeroCopyCreationError + unit) \<times> shared_management_data" where
  "reserve_port m new_state =
     (let current_state = mgmt_state m in
      if current_state AND new_state \<noteq> 0 then (Inl AnotherInstanceIsAlreadyConnected, m)
      else if current_state AND STATE_MARKED_FOR_DESTRUCTION \<noteq> 0 then (Inl IsBeingCleanedUp, m)
      else (Inr (), m\<lparr>mgmt_state := current_state OR new_state\<rparr>))"

text \<open>The first component says that the caller now owns the storage and removes it when it drops it.\<close>

definition cleanup_shared_memory :: "shared_management_data \<Rightarrow> u8 \<Rightarrow> bool \<times> shared_management_data" where
  "cleanup_shared_memory m state_to_remove =
     (let (state, m') = remove_state m state_to_remove in (state = STATE_MARKED_FOR_DESTRUCTION, m'))"

section \<open>Builder\<close>

record zcc_builder =
  bld_buffer_size :: nat
  bld_enable_safe_overflow :: bool
  bld_max_borrowed_samples_per_channel :: nat
  bld_number_of_samples_per_segment :: nat
  bld_number_of_segments :: u8
  bld_number_of_channels :: nat
  bld_initial_channel_state :: u64

definition bld_new :: zcc_builder where
  "bld_new = \<lparr>bld_buffer_size = 4, bld_enable_safe_overflow = False, bld_max_borrowed_samples_per_channel = 4,
     bld_number_of_samples_per_segment = 8, bld_number_of_segments = 1, bld_number_of_channels = 1,
     bld_initial_channel_state = 0\<rparr>"

text \<open>The setters of all sizes raise zero to one.\<close>

definition bld_set_buffer_size :: "zcc_builder \<Rightarrow> nat \<Rightarrow> zcc_builder" where
  "bld_set_buffer_size c v = c\<lparr>bld_buffer_size := max 1 v\<rparr>"

definition bld_set_enable_safe_overflow :: "zcc_builder \<Rightarrow> bool \<Rightarrow> zcc_builder" where
  "bld_set_enable_safe_overflow c v = c\<lparr>bld_enable_safe_overflow := v\<rparr>"

definition bld_set_max_borrowed :: "zcc_builder \<Rightarrow> nat \<Rightarrow> zcc_builder" where
  "bld_set_max_borrowed c v = c\<lparr>bld_max_borrowed_samples_per_channel := max 1 v\<rparr>"

definition bld_set_samples_per_segment :: "zcc_builder \<Rightarrow> nat \<Rightarrow> zcc_builder" where
  "bld_set_samples_per_segment c v = c\<lparr>bld_number_of_samples_per_segment := max 1 v\<rparr>"

definition bld_set_segments :: "zcc_builder \<Rightarrow> u8 \<Rightarrow> zcc_builder" where
  "bld_set_segments c v = c\<lparr>bld_number_of_segments := max 1 v\<rparr>"

definition bld_set_initial_channel_state :: "zcc_builder \<Rightarrow> u64 \<Rightarrow> zcc_builder" where
  "bld_set_initial_channel_state c v = c\<lparr>bld_initial_channel_state := v\<rparr>"

definition bld_set_channels :: "zcc_builder \<Rightarrow> nat \<Rightarrow> zcc_builder" where
  "bld_set_channels c v = c\<lparr>bld_number_of_channels := max 1 v\<rparr>"

definition submission_queue_size :: "zcc_builder \<Rightarrow> nat" where
  "submission_queue_size c = bld_buffer_size c"

definition completion_queue_size :: "zcc_builder \<Rightarrow> nat" where
  "completion_queue_size c = bld_buffer_size c + bld_max_borrowed_samples_per_channel c + 1"

datatype DynamicStorageCreateError =
  StorageAlreadyExists | StorageInsufficientPermissions | StorageInitializationFailed | StorageCreateInternalError

datatype DynamicStorageOpenError =
  StorageDoesNotExist | StorageInitializationNotYetFinalized | StorageVersionMismatch | StorageOpenInternalError

datatype DynamicStorageOpenOrCreateError =
  OpenErrorOf DynamicStorageOpenError | CreateErrorOf DynamicStorageCreateError

datatype storage = Created nat | Opened shared_management_data | StorageFailed DynamicStorageOpenOrCreateError

definition creation_error :: "DynamicStorageOpenOrCreateError \<Rightarrow> ZeroCopyCreationError" where
  "creation_error e = (case e of
      CreateErrorOf StorageInsufficientPermissions \<Rightarrow> CreationInsufficientPermissions
    | OpenErrorOf StorageVersionMismatch \<Rightarrow> CreationVersionMismatch
    | OpenErrorOf StorageInitializationNotYetFinalized \<Rightarrow> CreationInitializationNotYetFinalized
    | _ \<Rightarrow> CreationInternalError)"

text \<open>The settings of an existing connection, compared in the order of the code.\<close>

definition zcc_check_compatibility :: "zcc_builder \<Rightarrow> shared_management_data \<Rightarrow> ZeroCopyCreationError option option" where
  "zcc_check_compatibility bld m = do {
     c0 \<leftarrow> slice_get (mgmt_channels m) 0;
     Some (if oq_capacity (ch_submission_queue c0) \<noteq> submission_queue_size bld then Some IncompatibleBufferSize
       else if iq_capacity (ch_completion_queue c0) \<noteq> completion_queue_size bld
       then Some IncompatibleMaxBorrowedSamplesPerChannelSetting
       else if mgmt_enable_safe_overflow m \<noteq> bld_enable_safe_overflow bld then Some IncompatibleOverflowSetting
       else if mgmt_number_of_samples_per_segment m \<noteq> bld_number_of_samples_per_segment bld
       then Some IncompatibleNumberOfSamples
       else if mgmt_number_of_segments m \<noteq> bld_number_of_segments bld then Some IncompatibleNumberOfSegments
       else if length (mgmt_channels m) \<noteq> bld_number_of_channels bld then Some IncompatibleNumberOfChannels
       else None) }"

text \<open>
  A created storage is initialised from the supplementary memory at the given address. The
  result is the error or success with the management data as it is left in the storage, and
  whether the caller has to remove the storage.
\<close>

definition create_or_open_shm ::
  "layout \<Rightarrow> layout \<Rightarrow> zcc_builder \<Rightarrow> u8 \<Rightarrow> storage \<Rightarrow>
   ((ZeroCopyCreationError + shared_management_data) \<times> shared_management_data option \<times> bool) option" where
  "create_or_open_shm cl sl bld port storage = (case storage of
      StorageFailed e \<Rightarrow> Some (Inl (creation_error e), None, False)
    | Created ptr \<Rightarrow> do {
        let supplementary_size = mgmt_memory_size cl sl (submission_queue_size bld) (completion_queue_size bld)
              (bld_number_of_samples_per_segment bld) (bld_number_of_segments bld) (bld_number_of_channels bld);
        m \<leftarrow> mgmt_init cl sl (bba_new ptr supplementary_size)
          (mgmt_new (bld_enable_safe_overflow bld) (bld_max_borrowed_samples_per_channel bld)
            (bld_number_of_samples_per_segment bld) (bld_number_of_segments bld))
          (bld_number_of_channels bld) (submission_queue_size bld) (completion_queue_size bld);
        let m1 = m\<lparr>mgmt_channels := map (\<lambda>c. c\<lparr>ch_state := bld_initial_channel_state bld\<rparr>) (mgmt_channels m)\<rparr>;
        let (r, m2) = reserve_port m1 port;
        Some (case r of Inl e \<Rightarrow> (Inl e, Some m2, True) | Inr _ \<Rightarrow> (Inr m2, Some m2, False)) }
    | Opened m \<Rightarrow> do {
        let (r, m1) = reserve_port m port;
        case r of
          Inl e \<Rightarrow> Some (Inl e, Some m1, False)
        | Inr _ \<Rightarrow> do {
            incompatible \<leftarrow> zcc_check_compatibility bld m1;
            Some (case incompatible of
                None \<Rightarrow> (Inr m1, Some m1, False)
              | Some e \<Rightarrow> let (owned, m2) = cleanup_shared_memory m1 port in (Inl e, Some m2, owned)) } })"

text \<open>The receiver starts with one borrow counter per channel.\<close>

definition receiver_borrow_counter :: "zcc_builder \<Rightarrow> nat list" where
  "receiver_borrow_counter bld = replicate (bld_number_of_channels bld) 0"

datatype ZeroCopyPortRemoveError =
  RemoveInternalError | RemoveVersionMismatch | RemoveInsufficientPermissions | RemoveDoesNotExist

definition open_storage :: "DynamicStorageOpenError + shared_management_data \<Rightarrow>
  ZeroCopyPortRemoveError + shared_management_data" where
  "open_storage r = (case r of
      Inr m \<Rightarrow> Inr m
    | Inl StorageVersionMismatch \<Rightarrow> Inl RemoveVersionMismatch
    | Inl StorageInitializationNotYetFinalized \<Rightarrow> Inl RemoveInsufficientPermissions
    | Inl StorageDoesNotExist \<Rightarrow> Inl RemoveDoesNotExist
    | Inl StorageOpenInternalError \<Rightarrow> Inl RemoveInternalError)"

definition remove_port :: "u8 \<Rightarrow> DynamicStorageOpenError + shared_management_data \<Rightarrow>
  ZeroCopyPortRemoveError + (bool \<times> shared_management_data)" where
  "remove_port port r = (case open_storage r of Inl e \<Rightarrow> Inl e | Inr m \<Rightarrow> Inr (cleanup_shared_memory m port))"

section \<open>The supplementary memory suffices\<close>

lemma bba_fits:
  assumes "0 < lsize l" "0 < lalign l" "bba_current_position a + (lsize l + lalign l - 1) \<le> bba_size a"
  obtains p where "bba_source a l = Inr p"
    "bba_current_position (bba_next a l) \<le> bba_current_position a + (lsize l + lalign l - 1)"
    "bba_size (bba_next a l) = bba_size a"
proof -
  let ?al = "align (bba_start a + bba_current_position a) (lalign l)"
  have ge: "bba_start a + bba_current_position a \<le> ?al" and le: "?al \<le> bba_start a + bba_current_position a + lalign l - 1"
    using align_ge [OF assms(2)] align_le [OF assms(2)] by simp_all
  then have "?al - bba_start a + lsize l \<le> bba_current_position a + (lsize l + lalign l - 1)"
    using assms(2) by simp
  with assms ge have "bba_allocate a l = (Inr (?al, lsize l), a\<lparr>bba_current_position := ?al - bba_start a + lsize l\<rparr>)"
    by (simp add: bba_allocate_def)
  with \<open>?al - bba_start a + lsize l \<le> _\<close> show ?thesis
    by (intro that [of ?al]) (simp_all add: bba_source_def bba_next_def)
qed

definition channel_fresh :: "nat \<Rightarrow> nat \<Rightarrow> channel" where
  "channel_fresh sub_capacity com_capacity =
     \<lparr>ch_submission_queue = overflow_queue_new sub_capacity, ch_completion_queue = index_queue_new com_capacity,
      ch_state = 0\<rparr>"

lemma channel_init_fits:
  assumes "0 < k" "bba_current_position a + channel_memory_size n k \<le> bba_size a"
  obtains a' where "channel_init a (channel_new n k) = Some (channel_fresh n k, a')"
    "bba_current_position a' \<le> bba_current_position a + channel_memory_size n k" "bba_size a' = bba_size a"
proof -
  let ?l1 = "\<lparr>lsize = 8 * (n + 1), lalign = 8\<rparr>" and ?l2 = "\<lparr>lsize = 8 * k, lalign = 8\<rparr>"
  have size: "channel_memory_size n k = (lsize ?l1 + lalign ?l1 - 1) + (lsize ?l2 + lalign ?l2 - 1)"
    by (simp add: channel_memory_size_def index_queue_memory_size_def overflow_queue_memory_size_def unaligned_mem_size_def)
  obtain p1 where p1: "bba_source a ?l1 = Inr p1"
    "bba_current_position (bba_next a ?l1) \<le> bba_current_position a + (lsize ?l1 + lalign ?l1 - 1)"
    "bba_size (bba_next a ?l1) = bba_size a"
    by (rule bba_fits [of ?l1 a]) (use assms size in simp_all)
  obtain p2 where p2: "bba_source (bba_next a ?l1) ?l2 = Inr p2"
    "bba_current_position (bba_next (bba_next a ?l1) ?l2) \<le>
       bba_current_position (bba_next a ?l1) + (lsize ?l2 + lalign ?l2 - 1)"
    "bba_size (bba_next (bba_next a ?l1) ?l2) = bba_size a"
    by (rule bba_fits [of ?l2 "bba_next a ?l1"]) (use assms size p1 in simp_all)
  have "channel_init a (channel_new n k) = Some (channel_fresh n k, bba_next (bba_next a ?l1) ?l2)"
    using overflow_queue_init_new [of "bba_source a" n p1] index_queue_init_new [of "bba_source (bba_next a ?l1)" k p2] p1(1) p2(1)
    by (simp add: channel_init_def channel_new_def channel_fresh_def unwrap_def
        overflow_queue_new_uninit_def index_queue_new_uninit_def)
  with p1 p2 size show ?thesis by (intro that [of "bba_next (bba_next a ?l1) ?l2"]) simp_all
qed

lemma init_channels_fits:
  assumes "0 < k" "bba_current_position a + c * channel_memory_size n k \<le> bba_size a"
  obtains a' where "init_channels c n k a = Some (replicate c (channel_fresh n k), a')"
    "bba_current_position a' \<le> bba_current_position a + c * channel_memory_size n k" "bba_size a' = bba_size a"
  using assms(2)
proof (induction c arbitrary: a thesis)
  case 0
  then show ?case by simp
next
  case (Suc c)
  obtain a1 where a1: "channel_init a (channel_new n k) = Some (channel_fresh n k, a1)"
    "bba_current_position a1 \<le> bba_current_position a + channel_memory_size n k" "bba_size a1 = bba_size a"
    by (rule channel_init_fits [OF assms(1), of a n]) (use Suc.prems(2) in simp)
  obtain a2 where a2: "init_channels c n k a1 = Some (replicate c (channel_fresh n k), a2)"
    "bba_current_position a2 \<le> bba_current_position a1 + c * channel_memory_size n k" "bba_size a2 = bba_size a1"
    by (rule Suc.IH [of a1]) (use Suc.prems(2) a1 in simp_all)
  show ?case by (rule Suc.prems(1) [of a2]) (use a1 a2 in simp_all)
qed

lemma init_segments_fits:
  assumes "0 < k" "bba_current_position a + c * segment_details_memory_size k \<le> bba_size a"
  obtains a' where
    "init_segments c k a = Some (replicate c \<lparr>sd_used_chunk_list = ucl_new k, sd_sample_size = 0\<rparr>, a')"
  using assms(2)
proof (induction c arbitrary: a thesis)
  case 0
  then show ?case by simp
next
  case (Suc c)
  let ?l = "ucl_layout (ucl_new_uninit k)"
  have l: "lsize ?l = k" "lalign ?l = 1" by (simp_all add: ucl_layout_def ucl_new_uninit_def)
  have k: "segment_details_memory_size k = k"
    by (simp add: segment_details_memory_size_def ucl_memory_size_def unaligned_mem_size_def)
  obtain p where p: "bba_source a ?l = Inr p" "bba_current_position (bba_next a ?l) \<le> bba_current_position a + k"
    "bba_size (bba_next a ?l) = bba_size a"
    by (rule bba_fits [of ?l a]) (use assms(1) l k Suc.prems(2) in simp_all)
  obtain a' where "init_segments c k (bba_next a ?l) =
      Some (replicate c \<lparr>sd_used_chunk_list = ucl_new k, sd_sample_size = 0\<rparr>, a')"
    by (rule Suc.IH [of "bba_next a ?l"]) (use p k Suc.prems(2) in simp_all)
  moreover have "ucl_init (bba_source a) (ucl_new_uninit k) = Some (Inr (ucl_new k))"
    using p(1) by (simp add: ucl_init_def ucl_new_uninit_def ucl_new_def)
  ultimately show ?case
    by (intro Suc.prems(1) [of a']) (simp add: segment_details_new_uninit_def unwrap_def)
qed

definition mgmt_fresh :: "zcc_builder \<Rightarrow> shared_management_data" where
  "mgmt_fresh bld =
     \<lparr>mgmt_channels = replicate (bld_number_of_channels bld)
        ((channel_fresh (submission_queue_size bld) (completion_queue_size bld))\<lparr>ch_state := bld_initial_channel_state bld\<rparr>),
      mgmt_segment_details = replicate (unat (bld_number_of_segments bld) * bld_number_of_channels bld)
        \<lparr>sd_used_chunk_list = ucl_new (bld_number_of_samples_per_segment bld), sd_sample_size = 0\<rparr>,
      mgmt_state = 0,
      mgmt_max_borrowed_samples = bld_max_borrowed_samples_per_channel bld,
      mgmt_number_of_samples_per_segment = bld_number_of_samples_per_segment bld,
      mgmt_number_of_segments = bld_number_of_segments bld,
      mgmt_enable_safe_overflow = bld_enable_safe_overflow bld\<rparr>"

lemma mgmt_init_fits:
  assumes pos: "0 < bld_number_of_channels bld" "0 < bld_number_of_segments bld"
      "0 < bld_number_of_samples_per_segment bld" "0 < lsize cl" "0 < lalign cl" "0 < lsize sl" "0 < lalign sl"
    and a: "bba_current_position a = 0"
      "bba_size a = mgmt_memory_size cl sl (submission_queue_size bld) (completion_queue_size bld)
        (bld_number_of_samples_per_segment bld) (bld_number_of_segments bld) (bld_number_of_channels bld)"
    and m: "m = mgmt_new (bld_enable_safe_overflow bld) (bld_max_borrowed_samples_per_channel bld)
        (bld_number_of_samples_per_segment bld) (bld_number_of_segments bld)"
  shows "mgmt_init cl sl a m (bld_number_of_channels bld) (submission_queue_size bld) (completion_queue_size bld) =
    Some (m\<lparr>mgmt_channels := replicate (bld_number_of_channels bld)
          (channel_fresh (submission_queue_size bld) (completion_queue_size bld)),
        mgmt_segment_details := replicate (unat (bld_number_of_segments bld) * bld_number_of_channels bld)
          \<lparr>sd_used_chunk_list = ucl_new (bld_number_of_samples_per_segment bld), sd_sample_size = 0\<rparr>\<rparr>)"
proof -
  let ?nc = "bld_number_of_channels bld" and ?q = "channel_memory_size (submission_queue_size bld) (completion_queue_size bld)"
  let ?k = "bld_number_of_samples_per_segment bld"
  let ?n = "unat (bld_number_of_segments bld) * ?nc"
  let ?l1 = "vec_layout cl ?nc" and ?l2 = "vec_layout sl ?n"
  have n: "0 < ?n" using pos by (simp add: word_less_nat_alt)
  define s1 s2 where s: "s1 = lsize ?l1 + lalign ?l1 - 1" "s2 = lsize ?l2 + lalign ?l2 - 1"
  have size: "bba_size a = ?nc * ?q + s1 + ?n * segment_details_memory_size ?k + s2"
    by (simp add: a s mgmt_memory_size_def vec_layout_def unaligned_mem_size_def algebra_simps)
  have fields: "mgmt_number_of_segments m = bld_number_of_segments bld" "mgmt_number_of_samples_per_segment m = ?k"
    by (simp_all add: m mgmt_new_def)
  have pos': "0 < lsize ?l1" "0 < lalign ?l1" "0 < lsize ?l2" "0 < lalign ?l2" "0 < completion_queue_size bld"
    using pos n by (simp_all add: vec_layout_def completion_queue_size_def)
  obtain p1 where p1: "bba_source a ?l1 = Inr p1" "bba_current_position (bba_next a ?l1) \<le> bba_current_position a + s1"
    "bba_size (bba_next a ?l1) = bba_size a"
    unfolding s by (rule bba_fits [OF pos'(1,2), of a]) (use a(1) size in \<open>simp_all add: s\<close>)
  obtain a2 where a2: "init_channels ?nc (submission_queue_size bld) (completion_queue_size bld) (bba_next a ?l1) =
      Some (replicate ?nc (channel_fresh (submission_queue_size bld) (completion_queue_size bld)), a2)"
    "bba_current_position a2 \<le> bba_current_position (bba_next a ?l1) + ?nc * ?q" "bba_size a2 = bba_size (bba_next a ?l1)"
    by (rule init_channels_fits [OF pos'(5), of "bba_next a ?l1" ?nc "submission_queue_size bld"]) (use p1 a(1) size in simp_all)
  obtain p2 where p2: "bba_source a2 ?l2 = Inr p2" "bba_current_position (bba_next a2 ?l2) \<le> bba_current_position a2 + s2"
    "bba_size (bba_next a2 ?l2) = bba_size a2"
    unfolding s by (rule bba_fits [OF pos'(3,4), of a2]) (use a2 p1 a(1) size in \<open>simp_all add: s\<close>)
  obtain a4 where "init_segments ?n ?k (bba_next a2 ?l2) =
      Some (replicate ?n \<lparr>sd_used_chunk_list = ucl_new ?k, sd_sample_size = 0\<rparr>, a4)"
    by (rule init_segments_fits [OF pos(3), of "bba_next a2 ?l2" ?n]) (use p1 p2 a2 a(1) size in simp_all)
  with p1 p2 a2 show ?thesis by (simp add: mgmt_init_def fields unwrap_def Let_def)
qed

lemma create_storage_fits:
  assumes "0 < bld_number_of_channels bld" "0 < bld_number_of_segments bld" "0 < bld_number_of_samples_per_segment bld"
    and "0 < lsize cl" "0 < lalign cl" "0 < lsize sl" "0 < lalign sl"
  shows "create_or_open_shm cl sl bld port (Created ptr) =
    Some (Inr ((mgmt_fresh bld)\<lparr>mgmt_state := port\<rparr>), Some ((mgmt_fresh bld)\<lparr>mgmt_state := port\<rparr>), False)"
  using assms by (simp add: create_or_open_shm_def mgmt_init_fits bba_new_def mgmt_new_def reserve_port_def mgmt_fresh_def)



section \<open>Life cycle of the two ports\<close>

text \<open>
  The ports of a connection as a state machine: a port registers, is refused, or goes away
  (it is dropped, it found its settings incompatible, or \<open>remove_port\<close> cleans up after a dead
  process). \<open>live\<close> lists the registered ports, \<open>removals\<close> counts how often a port was told to
  remove the storage.
\<close>

datatype side = SenderSide | ReceiverSide

fun side_state :: "side \<Rightarrow> u8" where
  "side_state SenderSide = STATE_SENDER"
| "side_state ReceiverSide = STATE_RECEIVER"

inductive port_reach :: "shared_management_data \<Rightarrow> side list \<Rightarrow> nat \<Rightarrow> bool" where
  created: "mgmt_state m = 0 \<Longrightarrow> reserve_port m (side_state p) = (r, m') \<Longrightarrow> port_reach m' [p] 0"
| reserved: "port_reach m live removals \<Longrightarrow> reserve_port m (side_state p) = (Inr (), m') \<Longrightarrow>
    port_reach m' (p # live) removals"
| refused: "port_reach m live removals \<Longrightarrow> reserve_port m (side_state p) = (Inl e, m') \<Longrightarrow>
    port_reach m' live removals"
| removed: "port_reach m live removals \<Longrightarrow> p \<in> set live \<Longrightarrow> cleanup_shared_memory m (side_state p) = (owned, m') \<Longrightarrow>
    port_reach m' (remove1 p live) (if owned then removals + 1 else removals)"

lemmas state_defs = STATE_SENDER_def STATE_RECEIVER_def STATE_MARKED_FOR_DESTRUCTION_def

definition live_state :: "side list \<Rightarrow> u8" where
  "live_state live =
     (if live = [] then STATE_MARKED_FOR_DESTRUCTION else foldr (\<lambda>p s. side_state p OR s) live 0)"

lemma distinct_sides: "distinct live \<longleftrightarrow>
    live \<in> {[], [SenderSide], [ReceiverSide], [SenderSide, ReceiverSide], [ReceiverSide, SenderSide]}"
proof
  assume d: "distinct live"
  have "length live = card (set live)" using d by (simp add: distinct_card)
  also have "\<dots> \<le> card {SenderSide, ReceiverSide}" by (intro card_mono) (auto intro: side.exhaust)
  finally have "length live \<le> 2" by simp
  then show "live \<in> {[], [SenderSide], [ReceiverSide], [SenderSide, ReceiverSide], [ReceiverSide, SenderSide]}"
  proof (cases live)
    case (Cons a xs)
    with \<open>length live \<le> 2\<close> d show ?thesis
      by (cases a; cases xs; cases "hd xs") auto
  qed simp
qed auto

lemma reserve_port_live:
  assumes "distinct live" "mgmt_state m = live_state live"
  shows "reserve_port m (side_state p) =
    (if p \<in> set live then (Inl AnotherInstanceIsAlreadyConnected, m)
     else if live = [] then (Inl IsBeingCleanedUp, m)
     else (Inr (), m\<lparr>mgmt_state := live_state (p # live)\<rparr>))"
  using assms unfolding distinct_sides
  by (cases p) (auto simp: reserve_port_def live_state_def state_defs)

lemma cleanup_live:
  assumes "distinct live" "mgmt_state m = live_state live" "p \<in> set live"
  shows "cleanup_shared_memory m (side_state p) = (live = [p], m\<lparr>mgmt_state := live_state (remove1 p live)\<rparr>)"
  using assms unfolding distinct_sides
  by (cases p) (auto simp: cleanup_shared_memory_def remove_state_def live_state_def state_defs)

lemma port_reach_state:
  assumes "port_reach m live removals"
  shows "distinct live \<and> mgmt_state m = live_state live \<and> removals = (if live = [] then 1 else 0)"
  using assms
proof induction
  case (created m p r m')
  then show ?case by (cases p) (auto simp: reserve_port_def live_state_def state_defs)
next
  case (reserved m live removals p m')
  then show ?case by (auto simp: reserve_port_live split: if_splits)
next
  case (refused m live removals p e m')
  then show ?case by (auto simp: reserve_port_live split: if_splits)
next
  case (removed m live removals p owned m')
  then have "owned = (live = [p])" "m' = m\<lparr>mgmt_state := live_state (remove1 p live)\<rparr>" by (auto simp: cleanup_live)
  moreover have "remove1 p live = [] \<longleftrightarrow> live = [p]" using removed.hyps(2) by (cases live) auto
  ultimately show ?case using removed by (auto simp: distinct_remove1)
qed



section \<open>Opening an existing connection\<close>

text \<open>The settings with which a connection was created, as its management data keeps them.\<close>

definition created_with :: "zcc_builder \<Rightarrow> shared_management_data \<Rightarrow> bool" where
  "created_with bld m \<longleftrightarrow>
     length (mgmt_channels m) = bld_number_of_channels bld \<and> 0 < bld_number_of_channels bld \<and>
     (\<forall>c \<in> set (mgmt_channels m). oq_capacity (ch_submission_queue c) = submission_queue_size bld \<and>
        iq_capacity (ch_completion_queue c) = completion_queue_size bld) \<and>
     mgmt_enable_safe_overflow m = bld_enable_safe_overflow bld \<and>
     mgmt_max_borrowed_samples m = bld_max_borrowed_samples_per_channel bld \<and>
     mgmt_number_of_samples_per_segment m = bld_number_of_samples_per_segment bld \<and>
     mgmt_number_of_segments m = bld_number_of_segments bld"

lemma created_with_fresh: "0 < bld_number_of_channels bld \<Longrightarrow> created_with bld ((mgmt_fresh bld)\<lparr>mgmt_state := st\<rparr>)"
  by (auto simp: created_with_def mgmt_fresh_def channel_fresh_def overflow_queue_new_def index_queue_new_def)

lemma zcc_check_created:
  assumes "created_with bld0 m"
  obtains i where "zcc_check_compatibility bld m = Some i"
    "i = None \<longleftrightarrow> bld\<lparr>bld_initial_channel_state := 0\<rparr> = bld0\<lparr>bld_initial_channel_state := 0\<rparr>"
proof -
  obtain c0 where c0: "slice_get (mgmt_channels m) 0 = Some c0"
    "oq_capacity (ch_submission_queue c0) = submission_queue_size bld0"
    "iq_capacity (ch_completion_queue c0) = completion_queue_size bld0"
    using assms by (auto simp: created_with_def)
  then show ?thesis using assms that
    by (cases bld; cases bld0) (auto simp: zcc_check_compatibility_def created_with_def submission_queue_size_def completion_queue_size_def)
qed

text \<open>
  C21: Opening a connection that was created with other settings never panics. While the side is
  free and the other port registered, it succeeds exactly if all settings agree (the initial
  channel state aside, which an opened connection keeps), and an attempt that fails leaves the
  management data as it found it.
\<close>

theorem zcc_open_compatible:
  assumes "created_with bld0 m" "mgmt_state m = live_state [q]" "p \<noteq> q"
  shows "\<exists>r m'. create_or_open_shm cl sl bld (side_state p) (Opened m) = Some (r, Some m', False) \<and>
    (if bld\<lparr>bld_initial_channel_state := 0\<rparr> = bld0\<lparr>bld_initial_channel_state := 0\<rparr>
     then r = Inr m' \<and> m' = m\<lparr>mgmt_state := live_state [p, q]\<rparr> \<and> zcc_is_connected m'
     else (\<exists>e. r = Inl e) \<and> m' = m)"
proof -
  let ?m1 = "m\<lparr>mgmt_state := live_state [p, q]\<rparr>"
  have d: "distinct [p, q]" "mgmt_state ?m1 = live_state [p, q]" using assms by simp_all
  have reserve: "reserve_port m (side_state p) = (Inr (), ?m1)"
    using reserve_port_live [of "[q]" m p] assms by simp
  have cleanup: "cleanup_shared_memory ?m1 (side_state p) = (False, m)"
    using cleanup_live [OF d, of p] assms(2) by simp
  have conn: "zcc_is_connected ?m1"
    using assms(3) by (cases p; cases q) (simp_all add: zcc_is_connected_def live_state_def state_defs)
  define same where "same \<longleftrightarrow> bld\<lparr>bld_initial_channel_state := 0\<rparr> = bld0\<lparr>bld_initial_channel_state := 0\<rparr>"
  have "created_with bld0 ?m1" using assms(1) by (simp add: created_with_def)
  then obtain i where i: "zcc_check_compatibility bld ?m1 = Some i" "i = None \<longleftrightarrow> same"
    unfolding same_def by (rule zcc_check_created)
  then show ?thesis unfolding same_def [symmetric]
    by (cases i) (simp_all add: create_or_open_shm_def reserve cleanup conn)
qed

theorem zcc_open_compatible_witness:
  "\<exists>m r m'. create_or_open_shm \<lparr>lsize = 160, lalign = 8\<rparr> \<lparr>lsize = 48, lalign = 8\<rparr> bld_new STATE_RECEIVER (Opened m) =
      Some (r, Some m', False) \<and> zcc_is_connected m'"
proof -
  have "created_with bld_new ((mgmt_fresh bld_new)\<lparr>mgmt_state := live_state [SenderSide]\<rparr>)"
    by (rule created_with_fresh) (simp add: bld_new_def)
  from zcc_open_compatible [OF this, of SenderSide ReceiverSide "\<lparr>lsize = 160, lalign = 8\<rparr>" "\<lparr>lsize = 48, lalign = 8\<rparr>" bld_new]
  show ?thesis by auto
qed

end
