(* ===== verification/Zero_Copy_Protocol.thy ===== *)
theory Zero_Copy_Protocol
  imports Zero_Copy_Setup "HOL-Library.Multiset"
begin

text \<open>
  What the two sides of a zero-copy connection can rely on. An offset is in flight on a
  channel from the moment it is sent until it is reclaimed or comes back as overflow: it is
  in the submission queue, borrowed by the receiver, or in the completion queue. The
  invariant says that these places never hold the same offset twice and that the used-chunk
  lists of the segments mark exactly the offsets in flight. From it follow the absence of
  corruption errors, the bound on the completion queue and the completeness of the recovery
  after a crash.

  \<open>sz\<close> is the sample size of each segment: the caller sends the offsets of one segment with
  one sample size. \<open>b\<close> lists, per channel, what the receiver has borrowed.
\<close>

section \<open>Offsets and chunks\<close>

definition segment_of :: "PointerOffset \<Rightarrow> nat" where
  "segment_of p = unat (po_segment_id p)"

definition chunk_of :: "(nat \<Rightarrow> nat) \<Rightarrow> PointerOffset \<Rightarrow> nat" where
  "chunk_of sz p = po_offset p div sz (segment_of p)"

definition valid_offset :: "(nat \<Rightarrow> nat) \<Rightarrow> nat \<Rightarrow> nat \<Rightarrow> PointerOffset \<Rightarrow> bool" where
  "valid_offset sz segments samples p \<longleftrightarrow>
     segment_of p < segments \<and> 0 < sz (segment_of p) \<and>
     po_offset p mod sz (segment_of p) = 0 \<and> chunk_of sz p < samples"

lemma valid_offset_eqI:
  assumes "valid_offset sz n k p" "valid_offset sz n k q" "segment_of p = segment_of q" "chunk_of sz p = chunk_of sz q"
  shows "p = q"
proof (rule po_eqI)
  have "po_offset r = chunk_of sz r * sz (segment_of r)" if "valid_offset sz n k r" for r
    using that by (auto simp: valid_offset_def chunk_of_def)
  with assms show "po_offset p = po_offset q" by simp
  show "po_segment_id p = po_segment_id q" using assms(3) by (simp add: segment_of_def word_unat_eq_iff)
qed

lemma chunk_index_valid:
  assumes "valid_offset sz n k p"
  shows "chunk_index dbg p (sz (segment_of p)) = Some (chunk_of sz p)"
  using assms by (simp add: chunk_index_def valid_offset_def chunk_of_def)

section \<open>The used-chunk lists of a channel\<close>

text \<open>\<open>U\<close> is the set of offsets in flight.\<close>

definition segment_inv :: "(nat \<Rightarrow> nat) \<Rightarrow> nat \<Rightarrow> PointerOffset set \<Rightarrow> nat \<Rightarrow> segment_details \<Rightarrow> bool" where
  "segment_inv sz samples U s d \<longleftrightarrow>
     ucl_inv (sd_used_chunk_list d) \<and> ucl_capacity (sd_used_chunk_list d) = samples \<and>
     ucl_set (sd_used_chunk_list d) = chunk_of sz ` {p \<in> U. segment_of p = s} \<and>
     ((\<exists>p \<in> U. segment_of p = s) \<longrightarrow> sd_sample_size d = sz s)"

definition used_inv ::
  "(nat \<Rightarrow> nat) \<Rightarrow> nat \<Rightarrow> nat \<Rightarrow> segment_details list \<Rightarrow> nat \<Rightarrow> PointerOffset set \<Rightarrow> bool" where
  "used_inv sz segments samples ds ch U \<longleftrightarrow>
     (\<forall>p \<in> U. valid_offset sz segments samples p) \<and>
     (\<forall>s < segments. ch * segments + s < length ds \<and> segment_inv sz samples U s (ds ! (ch * segments + s)))"

lemma segment_slot_neq:
  assumes "s < n" "s' < n" "ch \<noteq> ch' \<or> s \<noteq> s'"
  shows "ch * n + s \<noteq> ch' * n + (s'::nat)"
proof
  assume eq: "ch * n + s = ch' * n + s'"
  have "(ch * n + s) div n = ch" "(ch' * n + s') div n = ch'" "(ch * n + s) mod n = s" "(ch' * n + s') mod n = s'"
    using assms by simp_all
  with eq assms show False by metis
qed

lemma used_inv_other:
  assumes "used_inv sz n k ds ch' U" "ch' \<noteq> ch" "s < n"
  shows "used_inv sz n k (ds[ch * n + s := d]) ch' U"
proof -
  have "ds[ch * n + s := d] ! (ch' * n + s') = ds ! (ch' * n + s')" if "s' < n" for s'
    using segment_slot_neq [OF assms(3) that, of ch ch'] assms(2) by simp
  with assms(1) show ?thesis by (simp add: used_inv_def)
qed

lemma used_inv_update:
  assumes used: "used_inv sz n k ds ch U" and s: "s < n"
    and U': "\<forall>p \<in> U'. valid_offset sz n k p" "{p \<in> U'. segment_of p \<noteq> s} = {p \<in> U. segment_of p \<noteq> s}"
    and d: "segment_inv sz k U' s d"
  shows "used_inv sz n k (ds[ch * n + s := d]) ch U'"
  unfolding used_inv_def
proof (intro conjI allI impI)
  fix s' assume s': "s' < n"
  show "ch * n + s' < length (ds[ch * n + s := d])" using used s' by (simp add: used_inv_def)
  show "segment_inv sz k U' s' (ds[ch * n + s := d] ! (ch * n + s'))"
  proof (cases "s' = s")
    case True
    then show ?thesis using used s d by (simp add: used_inv_def)
  next
    case False
    then have "{p \<in> U'. segment_of p = s'} = {p \<in> U. segment_of p = s'}" using U'(2) by auto
    moreover have "(\<exists>p \<in> U'. segment_of p = s') = (\<exists>p \<in> U. segment_of p = s')" using calculation by auto
    ultimately show ?thesis
      using used s' segment_slot_neq [OF s s', of ch ch] False by (simp add: used_inv_def segment_inv_def)
  qed
qed (use U' in simp)

lemma used_mark:
  assumes used: "used_inv sz n k ds ch U" and p: "valid_offset sz n k p" "p \<notin> U"
  obtains l where
    "ucl_insert dbg (sd_used_chunk_list (ds ! (ch * n + segment_of p))) (chunk_of sz p) = Some (True, l)"
    "used_inv sz n k (ds[ch * n + segment_of p := (ds ! (ch * n + segment_of p))
        \<lparr>sd_sample_size := sz (segment_of p), sd_used_chunk_list := l\<rparr>]) ch (insert p U)"
    "ch * n + segment_of p < length ds"
proof -
  let ?s = "segment_of p" and ?d = "ds ! (ch * n + segment_of p)"
  from p have s: "?s < n" "chunk_of sz p < k" by (simp_all add: valid_offset_def)
  with used have d: "segment_inv sz k U ?s ?d" "ch * n + ?s < length ds" by (simp_all add: used_inv_def)
  have new: "chunk_of sz p \<notin> ucl_set (sd_used_chunk_list ?d)"
  proof
    assume "chunk_of sz p \<in> ucl_set (sd_used_chunk_list ?d)"
    then obtain q where "q \<in> U" "segment_of p = segment_of q" "chunk_of sz p = chunk_of sz q"
      using d(1) by (auto simp: segment_inv_def)
    moreover from used \<open>q \<in> U\<close> have "valid_offset sz n k q" by (simp add: used_inv_def)
    ultimately have "p = q" by (intro valid_offset_eqI [OF p(1)])
    with p(2) \<open>q \<in> U\<close> show False by simp
  qed
  obtain l where l: "ucl_insert dbg (sd_used_chunk_list ?d) (chunk_of sz p) = Some (True, l)"
    "ucl_inv l" "ucl_capacity l = k" "ucl_set l = insert (chunk_of sz p) (ucl_set (sd_used_chunk_list ?d))"
    using ucl_insert_set [of "sd_used_chunk_list ?d" "chunk_of sz p" dbg] d(1) s(2) new
    by (auto simp: segment_inv_def)
  have "segment_inv sz k (insert p U) ?s (?d\<lparr>sd_sample_size := sz ?s, sd_used_chunk_list := l\<rparr>)"
    using l d(1) by (auto simp: segment_inv_def)
  then have "used_inv sz n k (ds[ch * n + ?s := ?d\<lparr>sd_sample_size := sz ?s, sd_used_chunk_list := l\<rparr>]) ch (insert p U)"
    using p used by (intro used_inv_update [OF used s(1)]) (auto simp: used_inv_def)
  with l(1) d(2) show ?thesis by (intro that)
qed

lemma used_unmark:
  assumes used: "used_inv sz n k ds ch U" and p: "p \<in> U"
  obtains l where
    "sd_sample_size (ds ! (ch * n + segment_of p)) = sz (segment_of p)"
    "ucl_remove dbg (sd_used_chunk_list (ds ! (ch * n + segment_of p))) (chunk_of sz p) = Some (True, l)"
    "used_inv sz n k (ds[ch * n + segment_of p := (ds ! (ch * n + segment_of p))
        \<lparr>sd_used_chunk_list := l\<rparr>]) ch (U - {p})"
    "ch * n + segment_of p < length ds"
proof -
  let ?s = "segment_of p" and ?d = "ds ! (ch * n + segment_of p)"
  from used p have v: "valid_offset sz n k p" by (simp add: used_inv_def)
  then have s: "?s < n" "chunk_of sz p < k" by (simp_all add: valid_offset_def)
  with used have d: "segment_inv sz k U ?s ?d" "ch * n + ?s < length ds" by (simp_all add: used_inv_def)
  have mem: "chunk_of sz p \<in> ucl_set (sd_used_chunk_list ?d)" and size: "sd_sample_size ?d = sz ?s"
    and inv: "ucl_inv (sd_used_chunk_list ?d)" "ucl_capacity (sd_used_chunk_list ?d) = k"
    and set: "ucl_set (sd_used_chunk_list ?d) = chunk_of sz ` {q \<in> U. segment_of q = ?s}"
    using d(1) p by (auto simp: segment_inv_def)
  from inv s(2) have "chunk_of sz p < ucl_capacity (sd_used_chunk_list ?d)" by simp
  from ucl_remove_set [OF inv(1) this, of dbg] mem inv(2)
  obtain l where l: "ucl_remove dbg (sd_used_chunk_list ?d) (chunk_of sz p) = Some (True, l)"
    "ucl_inv l" "ucl_capacity l = k" "ucl_set l = ucl_set (sd_used_chunk_list ?d) - {chunk_of sz p}"
    by auto
  have only: "q = p" if "q \<in> U" "segment_of q = ?s" "chunk_of sz q = chunk_of sz p" for q
    using that used v by (intro valid_offset_eqI [of sz n k q p]) (simp_all add: used_inv_def)
  have "ucl_set l = chunk_of sz ` {q \<in> U - {p}. segment_of q = ?s}"
    unfolding l(4) set using only by (intro set_eqI) auto
  with l size have "segment_inv sz k (U - {p}) ?s (?d\<lparr>sd_used_chunk_list := l\<rparr>)"
    by (simp add: segment_inv_def)
  then have "used_inv sz n k (ds[ch * n + ?s := ?d\<lparr>sd_used_chunk_list := l\<rparr>]) ch (U - {p})"
    using used by (intro used_inv_update [OF used s(1)]) (auto simp: used_inv_def)
  with size l(1) d(2) show ?thesis by (intro that)
qed

section \<open>The invariant of a connection\<close>

abbreviation submitted :: "channel \<Rightarrow> PointerOffset list" where
  "submitted c \<equiv> overflow_queue_content (ch_submission_queue c)"

abbreviation completed :: "channel \<Rightarrow> PointerOffset list" where
  "completed c \<equiv> index_queue_content (ch_completion_queue c)"

definition in_flight :: "channel \<Rightarrow> PointerOffset list \<Rightarrow> PointerOffset list" where
  "in_flight c b = submitted c @ b @ completed c"

definition channel_inv ::
  "(nat \<Rightarrow> nat) \<Rightarrow> shared_management_data \<Rightarrow> ChannelId \<Rightarrow> channel \<Rightarrow> PointerOffset list \<Rightarrow> bool" where
  "channel_inv sz m ch c b \<longleftrightarrow>
     overflow_queue_inv (ch_submission_queue c) \<and> index_queue_inv (ch_completion_queue c) \<and>
     length b \<le> mgmt_max_borrowed_samples m \<and> distinct (in_flight c b) \<and>
     used_inv sz (unat (mgmt_number_of_segments m)) (mgmt_number_of_samples_per_segment m)
       (mgmt_segment_details m) ch (set (in_flight c b))"

definition zcc_inv ::
  "(nat \<Rightarrow> nat) \<Rightarrow> shared_management_data \<Rightarrow> nat list \<Rightarrow> (ChannelId \<Rightarrow> PointerOffset list) \<Rightarrow> bool" where
  "zcc_inv sz m borrow_counter b \<longleftrightarrow>
     length (mgmt_segment_details m) = unat (mgmt_number_of_segments m) * length (mgmt_channels m) \<and>
     length borrow_counter = length (mgmt_channels m) \<and>
     (\<forall>ch < length (mgmt_channels m). borrow_counter ! ch = length (b ch) \<and>
        channel_inv sz m ch (mgmt_channels m ! ch) (b ch))"

lemma get_channel_eq [simp]: "ch < length (mgmt_channels m) \<Longrightarrow> get_channel dbg m ch = Some (mgmt_channels m ! ch)"
  by (simp add: get_channel_def)

lemma put_channel_simps [simp]:
  "mgmt_segment_details (put_channel m ch c) = mgmt_segment_details m"
  "mgmt_number_of_segments (put_channel m ch c) = mgmt_number_of_segments m"
  "mgmt_number_of_samples_per_segment (put_channel m ch c) = mgmt_number_of_samples_per_segment m"
  "mgmt_max_borrowed_samples (put_channel m ch c) = mgmt_max_borrowed_samples m"
  "mgmt_enable_safe_overflow (put_channel m ch c) = mgmt_enable_safe_overflow m"
  "mgmt_channels (put_channel m ch c) = (mgmt_channels m)[ch := c]"
  by (simp_all add: put_channel_def)

lemma put_segment_details_simps [simp]:
  "mgmt_channels (put_segment_details m s ch d) = mgmt_channels m"
  "mgmt_number_of_segments (put_segment_details m s ch d) = mgmt_number_of_segments m"
  "mgmt_number_of_samples_per_segment (put_segment_details m s ch d) = mgmt_number_of_samples_per_segment m"
  "mgmt_max_borrowed_samples (put_segment_details m s ch d) = mgmt_max_borrowed_samples m"
  "mgmt_enable_safe_overflow (put_segment_details m s ch d) = mgmt_enable_safe_overflow m"
  "mgmt_segment_details (put_segment_details m s ch d) =
     (mgmt_segment_details m)[ch * unat (mgmt_number_of_segments m) + s := d]"
  by (simp_all add: put_segment_details_def segment_index_def)

text \<open>
  How an operation on channel \<open>ch\<close> changes the connection: the channel is replaced, the
  segment details of other channels keep their marks.
\<close>

lemma zcc_inv_step:
  assumes inv: "zcc_inv sz m cnt b" and ch: "ch < length (mgmt_channels m)"
    and chan: "channel_inv sz m' ch c' bs"
    and m': "mgmt_channels m' = (mgmt_channels m)[ch := c']" "mgmt_number_of_segments m' = mgmt_number_of_segments m"
      "mgmt_number_of_samples_per_segment m' = mgmt_number_of_samples_per_segment m"
      "mgmt_max_borrowed_samples m' = mgmt_max_borrowed_samples m"
      "length (mgmt_segment_details m') = length (mgmt_segment_details m)"
    and others: "\<And>ch' U. ch' \<noteq> ch \<Longrightarrow>
      used_inv sz (unat (mgmt_number_of_segments m)) (mgmt_number_of_samples_per_segment m) (mgmt_segment_details m) ch' U \<Longrightarrow>
      used_inv sz (unat (mgmt_number_of_segments m)) (mgmt_number_of_samples_per_segment m) (mgmt_segment_details m') ch' U"
    and cnt': "cnt' = cnt[ch := length bs]" and b': "b' = b(ch := bs)"
  shows "zcc_inv sz m' cnt' b'"
  unfolding zcc_inv_def
proof (intro conjI allI impI)
  fix ch' assume ch': "ch' < length (mgmt_channels m')"
  show "cnt' ! ch' = length (b' ch')" using inv ch ch' cnt' b' by (auto simp: zcc_inv_def m' nth_list_update)
  show "channel_inv sz m' ch' (mgmt_channels m' ! ch') (b' ch')"
  proof (cases "ch' = ch")
    case True
    then show ?thesis using chan ch by (simp add: m' b')
  next
    case False
    then have "channel_inv sz m ch' (mgmt_channels m ! ch') (b ch')" using inv ch' by (simp add: zcc_inv_def m')
    then show ?thesis using False others [OF False] by (simp add: channel_inv_def m' b')
  qed
qed (use inv cnt' in \<open>simp_all add: zcc_inv_def m'\<close>)

section \<open>The operations keep the invariant\<close>

lemma zcc_invD:
  assumes "zcc_inv sz m cnt b" "ch < length (mgmt_channels m)"
  shows "channel_inv sz m ch (mgmt_channels m ! ch) (b ch)" "cnt ! ch = length (b ch)" "ch < length cnt"
    "slice_get cnt ch = Some (length (b ch))"
  using assms by (simp_all add: zcc_inv_def)

text \<open>Only the queues of the channel and the list of borrowed offsets change, not what is in flight.\<close>

lemma zcc_inv_moved:
  assumes inv: "zcc_inv sz m cnt b" and ch: "ch < length (mgmt_channels m)"
    and c': "overflow_queue_inv (ch_submission_queue c')" "index_queue_inv (ch_completion_queue c')"
    and bs: "length bs \<le> mgmt_max_borrowed_samples m" "distinct (in_flight c' bs)"
      "set (in_flight c' bs) = set (in_flight (mgmt_channels m ! ch) (b ch))"
    and cnt': "cnt' = cnt[ch := length bs]" and b': "b' = b(ch := bs)"
  shows "zcc_inv sz (put_channel m ch c') cnt' b'"
proof (rule zcc_inv_step [OF inv ch _ _ _ _ _ _ _ cnt' b'])
  show "channel_inv sz (put_channel m ch c') ch c' bs"
    using zcc_invD(1) [OF inv ch] c' bs by (simp add: channel_inv_def)
qed simp_all

lemma put_channel_same: "c = mgmt_channels m ! ch \<Longrightarrow> put_channel m ch c = m"
  by (simp add: put_channel_def)

lemma zcc_receive_cases:
  assumes inv: "zcc_inv sz m cnt b" and ch: "ch < length (mgmt_channels m)"
  obtains
    (exceeded) "zcc_receive dbg m cnt ch = Some (Inl ReceiveWouldExceedMaxBorrowValue, m, cnt)"
      "length (b ch) = mgmt_max_borrowed_samples m"
  | (empty) "zcc_receive dbg m cnt ch = Some (Inr None, m, cnt)" "submitted (mgmt_channels m ! ch) = []"
      "length (b ch) < mgmt_max_borrowed_samples m"
  | (received) p c' where
      "zcc_receive dbg m cnt ch = Some (Inr (Some p), put_channel m ch c', cnt[ch := length (b ch) + 1])"
      "length (b ch) < mgmt_max_borrowed_samples m"
      "submitted (mgmt_channels m ! ch) = p # submitted c'" "completed c' = completed (mgmt_channels m ! ch)"
      "zcc_inv sz (put_channel m ch c') (cnt[ch := length (b ch) + 1]) (b(ch := b ch @ [p]))"
      "oq_capacity (ch_submission_queue c') = oq_capacity (ch_submission_queue (mgmt_channels m ! ch))"
      "iq_capacity (ch_completion_queue c') = iq_capacity (ch_completion_queue (mgmt_channels m ! ch))"
proof -
  let ?c = "mgmt_channels m ! ch"
  note D = zcc_invD [OF inv ch]
  from D(1) have q: "overflow_queue_inv (ch_submission_queue ?c)" and le: "length (b ch) \<le> mgmt_max_borrowed_samples m"
    and dist: "distinct (in_flight ?c (b ch))"
    by (simp_all add: channel_inv_def)
  show ?thesis
  proof (cases "length (b ch) = mgmt_max_borrowed_samples m")
    case True
    with D ch show ?thesis by (intro exceeded) (simp_all add: zcc_receive_def)
  next
    case False
    with le have less: "length (b ch) < mgmt_max_borrowed_samples m" by simp
    from q show ?thesis
    proof (cases rule: oq.pop_cases)
      case empty
      with D ch less show ?thesis by (intro that(2)) (simp_all add: zcc_receive_def put_channel_same)
    next
      case (taken p q')
      let ?c' = "?c\<lparr>ch_submission_queue := q'\<rparr>"
      have "zcc_inv sz (put_channel m ch ?c') (cnt[ch := length (b ch) + 1]) (b(ch := b ch @ [p]))"
        using taken D(1) dist less
        by (intro zcc_inv_moved [OF inv ch]) (auto simp: channel_inv_def in_flight_def)
      moreover have "zcc_receive dbg m cnt ch = Some (Inr (Some p), put_channel m ch ?c', cnt[ch := length (b ch) + 1])"
        using taken D ch less by (simp add: zcc_receive_def po_from_value_def)
      ultimately show ?thesis using taken less by (intro received [of p ?c']) simp_all
    qed
  qed
qed

lemma zcc_release_cases:
  assumes inv: "zcc_inv sz m cnt b" and ch: "ch < length (mgmt_channels m)" and p: "p \<in> set (b ch)"
  obtains
    (full) "zcc_release dbg m cnt p ch = Some (Inl RetrieveBufferFull, m, cnt)"
      "length (completed (mgmt_channels m ! ch)) = iq_capacity (ch_completion_queue (mgmt_channels m ! ch))"
  | (released) c' where
      "zcc_release dbg m cnt p ch = Some (Inr (), put_channel m ch c', cnt[ch := length (b ch) - 1])"
      "submitted c' = submitted (mgmt_channels m ! ch)" "completed c' = completed (mgmt_channels m ! ch) @ [p]"
      "zcc_inv sz (put_channel m ch c') (cnt[ch := length (b ch) - 1]) (b(ch := remove1 p (b ch)))"
      "oq_capacity (ch_submission_queue c') = oq_capacity (ch_submission_queue (mgmt_channels m ! ch))"
      "iq_capacity (ch_completion_queue c') = iq_capacity (ch_completion_queue (mgmt_channels m ! ch))"
proof -
  let ?c = "mgmt_channels m ! ch"
  note D = zcc_invD [OF inv ch]
  from D(1) have q: "index_queue_inv (ch_completion_queue ?c)" and dist: "distinct (in_flight ?c (b ch))"
    by (simp_all add: channel_inv_def)
  from p have "1 \<le> length (b ch)" by (cases "b ch") simp_all
  then have sub: "usize_sub dbg (length (b ch)) 1 = Some (length (b ch) - 1)" by (rule usize_sub_le)
  from q show ?thesis
  proof (cases rule: iq.push_cases [where v = p])
    case full
    with ch show ?thesis by (intro that(1)) (simp_all add: zcc_release_def po_as_value_def put_channel_same)
  next
    case (stored q')
    let ?c' = "?c\<lparr>ch_completion_queue := q'\<rparr>"
    have len: "length (remove1 p (b ch)) = length (b ch) - 1" using p by (simp add: length_remove1)
    have "zcc_inv sz (put_channel m ch ?c') (cnt[ch := length (b ch) - 1]) (b(ch := remove1 p (b ch)))"
      using stored D(1) dist p len
      by (intro zcc_inv_moved [OF inv ch]) (auto simp: channel_inv_def in_flight_def)
    moreover have "zcc_release dbg m cnt p ch = Some (Inr (), put_channel m ch ?c', cnt[ch := length (b ch) - 1])"
      using stored D ch sub by (simp add: zcc_release_def po_as_value_def)
    ultimately show ?thesis using stored by (intro released [of ?c']) simp_all
  qed
qed

text \<open>The two bookkeeping sequences: mark a chunk that is sent, clear one that comes back.\<close>

abbreviation channel_used :: "(nat \<Rightarrow> nat) \<Rightarrow> shared_management_data \<Rightarrow> ChannelId \<Rightarrow> PointerOffset set \<Rightarrow> bool" where
  "channel_used sz m ch U \<equiv> used_inv sz (unat (mgmt_number_of_segments m)) (mgmt_number_of_samples_per_segment m)
     (mgmt_segment_details m) ch U"

lemma mark_in_connection:
  assumes "channel_used sz m ch U" "p \<notin> U"
    and "valid_offset sz (unat (mgmt_number_of_segments m)) (mgmt_number_of_samples_per_segment m) p"
  obtains d l where "get_segment_details m (unat (po_segment_id p)) ch = Some d"
    "chunk_index dbg p (sz (segment_of p)) = Some (chunk_of sz p)"
    "ucl_insert dbg (sd_used_chunk_list d) (chunk_of sz p) = Some (True, l)"
    "channel_used sz (put_segment_details m (unat (po_segment_id p)) ch
       (d\<lparr>sd_sample_size := sz (segment_of p), sd_used_chunk_list := l\<rparr>)) ch (insert p U)"
    "unat (po_segment_id p) < unat (mgmt_number_of_segments m)"
proof -
  have "segment_of p < unat (mgmt_number_of_segments m)" using assms(3) by (simp add: valid_offset_def)
  with chunk_index_valid [OF assms(3), of dbg] show ?thesis
    by (rule_tac used_mark [OF assms(1,3,2), of dbg], rule_tac that)
      (simp_all add: get_segment_details_def segment_index_def segment_of_def)
qed

lemma unmark_in_connection:
  assumes "channel_used sz m ch U" "p \<in> U"
  obtains d l where "get_segment_details m (unat (po_segment_id p)) ch = Some d"
    "chunk_index dbg p (sd_sample_size d) = Some (chunk_of sz p)"
    "ucl_remove dbg (sd_used_chunk_list d) (chunk_of sz p) = Some (True, l)"
    "channel_used sz (put_segment_details m (unat (po_segment_id p)) ch (d\<lparr>sd_used_chunk_list := l\<rparr>)) ch (U - {p})"
    "unat (po_segment_id p) < unat (mgmt_number_of_segments m)"
    "unat (po_segment_id p) < length (mgmt_segment_details m)"
proof -
  have v: "valid_offset sz (unat (mgmt_number_of_segments m)) (mgmt_number_of_samples_per_segment m) p"
    using assms by (simp add: used_inv_def)
  then have "segment_of p < unat (mgmt_number_of_segments m)" by (simp add: valid_offset_def)
  with chunk_index_valid [OF v, of dbg] show ?thesis
    by (rule_tac used_unmark [OF assms, of dbg], rule_tac that)
      (simp_all add: get_segment_details_def segment_index_def segment_of_def)
qed

lemma channel_used_other:
  assumes "channel_used sz m ch' U" "ch' \<noteq> ch" "s < unat (mgmt_number_of_segments m)"
  shows "channel_used sz (put_segment_details m s ch d) ch' U"
  using assms by (simp add: used_inv_other)

lemma zcc_reclaim_cases:
  assumes inv: "zcc_inv sz m cnt b" and ch: "ch < length (mgmt_channels m)"
  obtains
    (empty) "zcc_reclaim dbg m ch = Some (Inr None, m)" "completed (mgmt_channels m ! ch) = []"
  | (reclaimed) p m' where "zcc_reclaim dbg m ch = Some (Inr (Some p), m')"
      "completed (mgmt_channels m ! ch) = p # completed (mgmt_channels m' ! ch)"
      "submitted (mgmt_channels m' ! ch) = submitted (mgmt_channels m ! ch)"
      "zcc_inv sz m' cnt b" "length (mgmt_channels m') = length (mgmt_channels m)"
proof -
  let ?c = "mgmt_channels m ! ch" and ?n = "unat (mgmt_number_of_segments m)"
  let ?k = "mgmt_number_of_samples_per_segment m" and ?ds = "mgmt_segment_details m"
  note D = zcc_invD [OF inv ch]
  from D(1) have q: "index_queue_inv (ch_completion_queue ?c)" and dist: "distinct (in_flight ?c (b ch))"
    and used: "used_inv sz ?n ?k ?ds ch (set (in_flight ?c (b ch)))"
    by (simp_all add: channel_inv_def)
  from q show ?thesis
  proof (cases rule: iq.pop_cases)
    case empty
    with ch show ?thesis by (intro that(1)) (simp_all add: zcc_reclaim_def put_channel_same)
  next
    case (taken p q')
    let ?c' = "?c\<lparr>ch_completion_queue := q'\<rparr>"
    have p: "p \<in> set (in_flight ?c (b ch))" using taken by (simp add: in_flight_def)
    have rest: "set (in_flight ?c' (b ch)) = set (in_flight ?c (b ch)) - {p}" "distinct (in_flight ?c' (b ch))"
      using taken dist by (auto simp: in_flight_def)
    let ?m1 = "put_channel m ch ?c'"
    from used have "channel_used sz ?m1 ch (set (in_flight ?c (b ch)))" by simp
    then obtain d l where d: "get_segment_details ?m1 (unat (po_segment_id p)) ch = Some d"
      "chunk_index dbg p (sd_sample_size d) = Some (chunk_of sz p)"
      "ucl_remove dbg (sd_used_chunk_list d) (chunk_of sz p) = Some (True, l)"
      "channel_used sz (put_segment_details ?m1 (unat (po_segment_id p)) ch (d\<lparr>sd_used_chunk_list := l\<rparr>)) ch
         (set (in_flight ?c' (b ch)))"
      "unat (po_segment_id p) < ?n" "unat (po_segment_id p) < length ?ds"
      unfolding rest(1) by (rule unmark_in_connection [OF _ p, of sz ?m1 ch dbg]) simp_all
    let ?m' = "put_segment_details ?m1 (unat (po_segment_id p)) ch (d\<lparr>sd_used_chunk_list := l\<rparr>)"
    have "zcc_inv sz ?m' cnt b"
    proof (rule zcc_inv_step [OF inv ch, where bs = "b ch" and c' = ?c'])
      show "channel_inv sz ?m' ch ?c' (b ch)"
        using D(1) taken rest(2) d(4) by (simp add: channel_inv_def)
      show "cnt = cnt[ch := length (b ch)]" using D(2,3) by (metis list_update_id)
    qed (use d(5) in \<open>simp_all add: used_inv_other\<close>)
    moreover have "zcc_reclaim dbg m ch = Some (Inr (Some p), ?m')"
      using taken ch d by (simp add: zcc_reclaim_def po_from_value_def Let_def)
    ultimately show ?thesis using taken ch by (intro reclaimed [of p ?m']) simp_all
  qed
qed

text \<open>
  A send that is not refused: what leaves the front of the submission queue is handed back.
\<close>

lemma zcc_try_send_cases:
  assumes inv: "zcc_inv sz m cnt b" and ch: "ch < length (mgmt_channels m)"
    and p: "valid_offset sz (unat (mgmt_number_of_segments m)) (mgmt_number_of_samples_per_segment m) p"
      "p \<notin> set (in_flight (mgmt_channels m ! ch) (b ch))"
  obtains
    (full) "zcc_try_send dbg m p (sz (segment_of p)) ch = Some (Inl ReceiveBufferFull, m)"
      "\<not> mgmt_enable_safe_overflow m"
      "length (submitted (mgmt_channels m ! ch)) = oq_capacity (ch_submission_queue (mgmt_channels m ! ch))"
  | (sent) r m' where "zcc_try_send dbg m p (sz (segment_of p)) ch = Some (Inr r, m')"
      "submitted (mgmt_channels m ! ch) @ [p] = (case r of None \<Rightarrow> [] | Some q \<Rightarrow> [q]) @ submitted (mgmt_channels m' ! ch)"
      "completed (mgmt_channels m' ! ch) = completed (mgmt_channels m ! ch)"
      "zcc_inv sz m' cnt b" "length (mgmt_channels m') = length (mgmt_channels m)"
      "r = None \<longleftrightarrow> length (submitted (mgmt_channels m ! ch)) < oq_capacity (ch_submission_queue (mgmt_channels m ! ch))"
proof -
  let ?c = "mgmt_channels m ! ch" and ?n = "unat (mgmt_number_of_segments m)"
  let ?k = "mgmt_number_of_samples_per_segment m" and ?ds = "mgmt_segment_details m"
  let ?U = "set (in_flight ?c (b ch))"
  note D = zcc_invD [OF inv ch]
  from D(1) have q: "overflow_queue_inv (ch_submission_queue ?c)" and dist: "distinct (in_flight ?c (b ch))"
    and used: "used_inv sz ?n ?k ?ds ch ?U"
    by (simp_all add: channel_inv_def)
  have is_full: "overflow_queue_is_full (ch_submission_queue ?c) \<longleftrightarrow> length (submitted ?c) = oq_capacity (ch_submission_queue ?c)"
    using overflow_queue_is_full_content [OF q] .
  show ?thesis
  proof (cases "\<not> mgmt_enable_safe_overflow m \<and> overflow_queue_is_full (ch_submission_queue ?c)")
    case True
    with ch is_full show ?thesis by (intro full) (simp_all add: zcc_try_send_def)
  next
    case False
    obtain r q' where push: "overflow_queue_push (ch_submission_queue ?c) p = (r, q')" by force
    let ?c' = "?c\<lparr>ch_submission_queue := q'\<rparr>"
    have content: "submitted ?c @ [p] = (case r of None \<Rightarrow> [] | Some q \<Rightarrow> [q]) @ submitted ?c'"
      using oq.push_conserves [OF q, of p] push by simp
    have room: "r = None \<longleftrightarrow> length (submitted ?c) < oq_capacity (ch_submission_queue ?c)"
      using content oq.content_bound [OF q] oq.push_room [OF q, of p] oq.push_overflow [OF q, of p] push
      by (cases "length (submitted ?c) < oq_capacity (ch_submission_queue ?c)") auto
    have inv': "overflow_queue_inv q'" using oq.push_invar [OF q, of p] push by simp
    obtain d l where d: "get_segment_details m (unat (po_segment_id p)) ch = Some d"
      "chunk_index dbg p (sz (segment_of p)) = Some (chunk_of sz p)"
      "ucl_insert dbg (sd_used_chunk_list d) (chunk_of sz p) = Some (True, l)"
      "channel_used sz (put_segment_details m (unat (po_segment_id p)) ch
         (d\<lparr>sd_sample_size := sz (segment_of p), sd_used_chunk_list := l\<rparr>)) ch (insert p ?U)"
      "unat (po_segment_id p) < ?n"
      by (rule mark_in_connection [OF used p(2,1), of dbg])
    let ?m1 = "put_segment_details m (unat (po_segment_id p)) ch
         (d\<lparr>sd_sample_size := sz (segment_of p), sd_used_chunk_list := l\<rparr>)"
    let ?m2 = "put_channel ?m1 ch ?c'"
    have fl: "(case r of None \<Rightarrow> [] | Some q \<Rightarrow> [q]) @ in_flight ?c' (b ch) = (submitted ?c @ [p]) @ b ch @ completed ?c"
      using content by (simp add: in_flight_def)
    have all: "set ((submitted ?c @ [p]) @ b ch @ completed ?c) = insert p ?U"
      "distinct ((submitted ?c @ [p]) @ b ch @ completed ?c)"
      using dist p(2) by (auto simp: in_flight_def)
    have cnt: "cnt = cnt[ch := length (b ch)]" using D(2,3) by (metis list_update_id)
    show ?thesis
    proof (cases r)
      case None
      then have fl': "in_flight ?c' (b ch) = (submitted ?c @ [p]) @ b ch @ completed ?c" using fl by simp
      have "zcc_inv sz ?m2 cnt b"
      proof (rule zcc_inv_step [OF inv ch, where bs = "b ch" and c' = ?c'])
        show "channel_inv sz ?m2 ch ?c' (b ch)"
          using D(1) inv' d(4) all fl' by (simp add: channel_inv_def)
      qed (use cnt d(5) in \<open>simp_all add: used_inv_other\<close>)
      moreover have "zcc_try_send dbg m p (sz (segment_of p)) ch = Some (Inr None, ?m2)"
        using ch False d push None by (simp add: zcc_try_send_def Let_def po_as_value_def)
      ultimately show ?thesis using content room None ch by (intro sent [of None ?m2]) simp_all
    next
      case (Some q)
      then have fl': "q # in_flight ?c' (b ch) = (submitted ?c @ [p]) @ b ch @ completed ?c" using fl by simp
      have q: "q \<in> insert p ?U" "set (in_flight ?c' (b ch)) = insert p ?U - {q}" "distinct (in_flight ?c' (b ch))"
        using all unfolding fl' [symmetric] by auto
      from d(4) have "channel_used sz ?m2 ch (insert p ?U)" by simp
      then obtain d2 l2 where d2: "get_segment_details ?m2 (unat (po_segment_id q)) ch = Some d2"
        "chunk_index dbg q (sd_sample_size d2) = Some (chunk_of sz q)"
        "ucl_remove dbg (sd_used_chunk_list d2) (chunk_of sz q) = Some (True, l2)"
        "channel_used sz (put_segment_details ?m2 (unat (po_segment_id q)) ch (d2\<lparr>sd_used_chunk_list := l2\<rparr>)) ch
           (set (in_flight ?c' (b ch)))"
        "unat (po_segment_id q) < unat (mgmt_number_of_segments ?m2)"
        unfolding q(2) by (rule unmark_in_connection [OF _ q(1), of sz ?m2 ch dbg])
      let ?m3 = "put_segment_details ?m2 (unat (po_segment_id q)) ch (d2\<lparr>sd_used_chunk_list := l2\<rparr>)"
      have "zcc_inv sz ?m3 cnt b"
      proof (rule zcc_inv_step [OF inv ch, where bs = "b ch" and c' = ?c'])
        show "channel_inv sz ?m3 ch ?c' (b ch)"
          using D(1) inv' d2(4) q(3) by (simp add: channel_inv_def)
      qed (use cnt d(5) d2(5) in \<open>simp_all add: used_inv_other\<close>)
      moreover have "zcc_try_send dbg m p (sz (segment_of p)) ch = Some (Inr (Some q), ?m3)"
        using ch False d d2 push Some by (simp add: zcc_try_send_def Let_def po_as_value_def po_from_value_def)
      ultimately show ?thesis using content room Some ch by (intro sent [of "Some q" ?m3]) simp_all
    qed
  qed
qed

section \<open>A connection in use\<close>

text \<open>The settings of a connection do not change.\<close>

definition zcc_settings :: "shared_management_data \<Rightarrow> (nat \<times> nat) list \<times> nat \<times> nat \<times> u8 \<times> bool" where
  "zcc_settings m =
     (map (\<lambda>c. (oq_capacity (ch_submission_queue c), iq_capacity (ch_completion_queue c))) (mgmt_channels m),
      mgmt_max_borrowed_samples m, mgmt_number_of_samples_per_segment m, mgmt_number_of_segments m,
      mgmt_enable_safe_overflow m)"

lemma zcc_settings_put_segment [simp]: "zcc_settings (put_segment_details m s ch d) = zcc_settings m"
  by (simp add: zcc_settings_def)

lemma zcc_settings_put_channel [simp]:
  assumes "oq_capacity (ch_submission_queue c) = oq_capacity (ch_submission_queue (mgmt_channels m ! ch))"
    "iq_capacity (ch_completion_queue c) = iq_capacity (ch_completion_queue (mgmt_channels m ! ch))"
  shows "zcc_settings (put_channel m ch c) = zcc_settings m"
proof -
  have "map f (xs[i := c]) = map f xs" if "f c = f (xs ! i)" for f :: "channel \<Rightarrow> nat \<times> nat" and xs i
    by (cases "i < length xs") (simp_all add: map_update that list_update_beyond flip: nth_map)
  with assms show ?thesis by (simp add: zcc_settings_def)
qed

lemma queue_capacities [simp]:
  "oq_capacity (snd (overflow_queue_push q v)) = oq_capacity q"
  "oq_capacity (snd (overflow_queue_pop q)) = oq_capacity q"
  "iq_capacity (snd (index_queue_push r v)) = iq_capacity r"
  "iq_capacity (snd (index_queue_pop r)) = iq_capacity r"
  by (simp_all add: overflow_queue_push_def overflow_queue_pop_def index_queue_push_def index_queue_pop_def Let_def)

lemma get_channel_Some: "get_channel dbg m ch = Some c \<Longrightarrow> c = mgmt_channels m ! ch"
  by (auto simp: get_channel_def slice_get_eq_Some bind_eq_Some_conv)

lemma zcc_receive_settings: "zcc_receive dbg m cnt ch = Some (r, m', cnt') \<Longrightarrow> zcc_settings m' = zcc_settings m"
  by (auto simp: zcc_receive_def bind_eq_Some_conv case_prod_beta Let_def dest!: get_channel_Some
      split: if_splits option.splits)

lemma zcc_release_settings: "zcc_release dbg m cnt p ch = Some (r, m', cnt') \<Longrightarrow> zcc_settings m' = zcc_settings m"
  by (auto simp: zcc_release_def bind_eq_Some_conv case_prod_beta Let_def dest!: get_channel_Some split: if_splits)

lemma zcc_reclaim_settings: "zcc_reclaim dbg m ch = Some (r, m') \<Longrightarrow> zcc_settings m' = zcc_settings m"
  unfolding zcc_reclaim_def bind_eq_Some_conv case_prod_beta Let_def
  by (elim exE conjE, drule get_channel_Some)
    (auto simp: bind_eq_Some_conv simp del: debug_assert_eq_Some split: option.split_asm if_split_asm split del: if_split)

lemma zcc_try_send_settings: "zcc_try_send dbg m p k ch = Some (r, m') \<Longrightarrow> zcc_settings m' = zcc_settings m"
  unfolding zcc_try_send_def bind_eq_Some_conv case_prod_beta Let_def
  by (elim exE conjE, drule get_channel_Some)
    (auto simp: bind_eq_Some_conv case_prod_beta simp del: debug_assert_eq_Some split: option.split_asm if_split_asm split del: if_split)

lemma created_with_settings:
  "created_with bld m \<longleftrightarrow> 0 < bld_number_of_channels bld \<and> zcc_settings m =
     (replicate (bld_number_of_channels bld) (submission_queue_size bld, completion_queue_size bld),
      bld_max_borrowed_samples_per_channel bld, bld_number_of_samples_per_segment bld, bld_number_of_segments bld,
      bld_enable_safe_overflow bld)"
proof -
  have "map f xs = replicate n v \<longleftrightarrow> length xs = n \<and> (\<forall>x \<in> set xs. f x = v)" for f :: "channel \<Rightarrow> nat \<times> nat" and xs n v
    by (auto simp: list_eq_iff_nth_eq all_set_conv_all_nth)
  then show ?thesis by (auto simp: created_with_def zcc_settings_def)
qed

text \<open>
  A connection in use: the sender sends and reclaims, the receiver receives and releases, in
  any order. \<open>dr\<close> records for which channels the sender has seen an empty completion queue since
  its last send; the ports send only then, because \<open>Sender::deliver_offset\<close> and
  \<open>deliver_sample_history\<close> reclaim until nothing is left before each send.
\<close>

inductive zcc_run ::
  "(nat \<Rightarrow> nat) \<Rightarrow> bool \<Rightarrow> zcc_builder \<Rightarrow>
   shared_management_data \<Rightarrow> nat list \<Rightarrow> (ChannelId \<Rightarrow> PointerOffset list) \<Rightarrow> (ChannelId \<Rightarrow> bool) \<Rightarrow> bool"
  for sz :: "nat \<Rightarrow> nat" and dbg :: bool and bld :: zcc_builder where
  run_created: "zcc_run sz dbg bld (mgmt_fresh bld) (receiver_borrow_counter bld) (\<lambda>_. []) (\<lambda>_. True)"
| run_send: "zcc_run sz dbg bld m cnt b dr \<Longrightarrow> ch < length (mgmt_channels m) \<Longrightarrow> dr ch \<Longrightarrow>
    valid_offset sz (unat (mgmt_number_of_segments m)) (mgmt_number_of_samples_per_segment m) p \<Longrightarrow>
    p \<notin> set (in_flight (mgmt_channels m ! ch) (b ch)) \<Longrightarrow>
    zcc_try_send dbg m p (sz (segment_of p)) ch = Some (r, m') \<Longrightarrow>
    zcc_run sz dbg bld m' cnt b (dr(ch := False))"
| run_reclaim: "zcc_run sz dbg bld m cnt b dr \<Longrightarrow> ch < length (mgmt_channels m) \<Longrightarrow>
    zcc_reclaim dbg m ch = Some (r, m') \<Longrightarrow>
    zcc_run sz dbg bld m' cnt b (dr(ch := dr ch \<or> r = Inr None))"
| run_receive: "zcc_run sz dbg bld m cnt b dr \<Longrightarrow> ch < length (mgmt_channels m) \<Longrightarrow>
    zcc_receive dbg m cnt ch = Some (r, m', cnt') \<Longrightarrow>
    zcc_run sz dbg bld m' cnt' (b(ch := b ch @ (case r of Inr (Some p) \<Rightarrow> [p] | _ \<Rightarrow> []))) dr"
| run_release: "zcc_run sz dbg bld m cnt b dr \<Longrightarrow> ch < length (mgmt_channels m) \<Longrightarrow> p \<in> set (b ch) \<Longrightarrow>
    zcc_release dbg m cnt p ch = Some (r, m', cnt') \<Longrightarrow>
    zcc_run sz dbg bld m' cnt' (b(ch := if r = Inr () then remove1 p (b ch) else b ch)) dr"

text \<open>The bound that sizes the completion queue: buffer, borrowed offsets, and one more while sending.\<close>

definition flight_bound :: "zcc_builder \<Rightarrow> bool \<Rightarrow> nat" where
  "flight_bound bld drained =
     bld_buffer_size bld + bld_max_borrowed_samples_per_channel bld + (if drained then 0 else 1)"

definition run_inv ::
  "(nat \<Rightarrow> nat) \<Rightarrow> zcc_builder \<Rightarrow> shared_management_data \<Rightarrow> nat list \<Rightarrow> (ChannelId \<Rightarrow> PointerOffset list) \<Rightarrow>
   (ChannelId \<Rightarrow> bool) \<Rightarrow> bool" where
  "run_inv sz bld m cnt b dr \<longleftrightarrow>
     zcc_inv sz m cnt b \<and> created_with bld m \<and>
     (\<forall>ch < length (mgmt_channels m). length (in_flight (mgmt_channels m ! ch) (b ch)) \<le> flight_bound bld (dr ch))"

lemma created_withD:
  assumes "created_with bld m" "ch < length (mgmt_channels m)"
  shows "oq_capacity (ch_submission_queue (mgmt_channels m ! ch)) = bld_buffer_size bld"
    "iq_capacity (ch_completion_queue (mgmt_channels m ! ch)) = flight_bound bld False"
    "mgmt_max_borrowed_samples m = bld_max_borrowed_samples_per_channel bld"
  using assms by (auto simp: created_with_def submission_queue_size_def completion_queue_size_def flight_bound_def)

lemma flight_bound_mono: "flight_bound bld d \<le> flight_bound bld False"
  by (simp add: flight_bound_def)

lemma zcc_inv_fresh:
  assumes "0 < bld_number_of_channels bld"
  shows "zcc_inv sz (mgmt_fresh bld) (receiver_borrow_counter bld) (\<lambda>_. [])"
proof -
  let ?n = "unat (bld_number_of_segments bld)"
  have "ch * ?n + s < ?n * bld_number_of_channels bld" if "ch < bld_number_of_channels bld" "s < ?n" for ch s
  proof -
    have "ch * ?n + s < Suc ch * ?n" using that by simp
    also have "\<dots> \<le> bld_number_of_channels bld * ?n" using that by (intro mult_le_mono) simp_all
    finally show ?thesis by (simp add: mult.commute)
  qed
  then show ?thesis
    by (simp add: zcc_inv_def channel_inv_def mgmt_fresh_def receiver_borrow_counter_def channel_fresh_def
        in_flight_def used_inv_def segment_inv_def)
qed

lemma channel_other_same:
  assumes "zcc_settings m' = zcc_settings m"
  shows "length (mgmt_channels m') = length (mgmt_channels m)"
proof -
  from assms have "map (\<lambda>c. (oq_capacity (ch_submission_queue c), iq_capacity (ch_completion_queue c))) (mgmt_channels m') =
      map (\<lambda>c. (oq_capacity (ch_submission_queue c), iq_capacity (ch_completion_queue c))) (mgmt_channels m)"
    by (simp add: zcc_settings_def)
  from arg_cong [where f = length, OF this] show ?thesis by simp
qed

text \<open>Operations on one channel leave the other channels alone.\<close>

lemma zcc_try_send_frame:
  "zcc_try_send dbg m p k ch = Some (r, m') \<Longrightarrow> ch' \<noteq> ch \<Longrightarrow> mgmt_channels m' ! ch' = mgmt_channels m ! ch'"
  unfolding zcc_try_send_def bind_eq_Some_conv case_prod_beta Let_def
  by (elim exE conjE)
    (auto simp: bind_eq_Some_conv case_prod_beta simp del: debug_assert_eq_Some split: option.split_asm if_split_asm split del: if_split)

lemma zcc_reclaim_frame:
  "zcc_reclaim dbg m ch = Some (r, m') \<Longrightarrow> ch' \<noteq> ch \<Longrightarrow> mgmt_channels m' ! ch' = mgmt_channels m ! ch'"
  unfolding zcc_reclaim_def bind_eq_Some_conv case_prod_beta Let_def
  by (elim exE conjE)
    (auto simp: bind_eq_Some_conv simp del: debug_assert_eq_Some split: option.split_asm if_split_asm split del: if_split)

lemma run_inv_step:
  assumes inv: "run_inv sz bld m cnt b dr" and zcc: "zcc_inv sz m' cnt' b'" and set: "zcc_settings m' = zcc_settings m"
    and frame: "\<And>ch'. ch' \<noteq> ch \<Longrightarrow> mgmt_channels m' ! ch' = mgmt_channels m ! ch' \<and> b' ch' = b ch' \<and> dr' ch' = dr ch'"
    and bound: "length (in_flight (mgmt_channels m' ! ch) (b' ch)) \<le> flight_bound bld (dr' ch)"
  shows "run_inv sz bld m' cnt' b' dr'"
  unfolding run_inv_def
proof (intro conjI allI impI)
  fix ch' assume "ch' < length (mgmt_channels m')"
  then show "length (in_flight (mgmt_channels m' ! ch') (b' ch')) \<le> flight_bound bld (dr' ch')"
    using inv frame [of ch'] bound channel_other_same [OF set] by (cases "ch' = ch") (auto simp: run_inv_def)
qed (use inv zcc set in \<open>simp_all add: run_inv_def created_with_settings\<close>)

lemma run_inv_send:
  assumes inv: "run_inv sz bld m cnt b dr" and ch: "ch < length (mgmt_channels m)" "dr ch"
    and p: "valid_offset sz (unat (mgmt_number_of_segments m)) (mgmt_number_of_samples_per_segment m) p"
      "p \<notin> set (in_flight (mgmt_channels m ! ch) (b ch))"
    and send: "zcc_try_send dbg m p (sz (segment_of p)) ch = Some (r, m')"
  shows "run_inv sz bld m' cnt b (dr(ch := False))"
proof -
  from inv ch have zcc: "zcc_inv sz m cnt b"
    and le: "length (in_flight (mgmt_channels m ! ch) (b ch)) \<le> flight_bound bld True"
    by (auto simp: run_inv_def)
  from zcc ch(1) p have "zcc_inv sz m' cnt b \<and> length (in_flight (mgmt_channels m' ! ch) (b ch)) \<le> flight_bound bld False"
  proof (cases rule: zcc_try_send_cases [where dbg = dbg])
    case full
    with send zcc le flight_bound_mono [of bld True] show ?thesis by simp
  next
    case (sent r' m1)
    with send have "m1 = m'" by simp
    have "length (submitted (mgmt_channels m1 ! ch)) \<le> Suc (length (submitted (mgmt_channels m ! ch)))"
      using sent(2) by (cases r') (auto dest: arg_cong [where f = length])
    with sent have "length (in_flight (mgmt_channels m1 ! ch) (b ch)) \<le> Suc (length (in_flight (mgmt_channels m ! ch) (b ch)))"
      by (simp add: in_flight_def)
    with sent le \<open>m1 = m'\<close> show ?thesis by (simp add: flight_bound_def)
  qed
  with zcc_try_send_settings [OF send] zcc_try_send_frame [OF send] show ?thesis
    by (intro run_inv_step [OF inv, where ch = ch]) auto
qed

lemma run_inv_reclaim:
  assumes inv: "run_inv sz bld m cnt b dr" and ch: "ch < length (mgmt_channels m)"
    and reclaim: "zcc_reclaim dbg m ch = Some (r, m')"
  shows "run_inv sz bld m' cnt b (dr(ch := dr ch \<or> r = Inr None))"
proof -
  from inv ch have zcc: "zcc_inv sz m cnt b"
    and le: "length (in_flight (mgmt_channels m ! ch) (b ch)) \<le> flight_bound bld (dr ch)"
    and created: "created_with bld m"
    by (auto simp: run_inv_def)
  from zcc ch have "zcc_inv sz m' cnt b \<and>
      length (in_flight (mgmt_channels m' ! ch) (b ch)) \<le> flight_bound bld (dr ch \<or> r = Inr None)"
  proof (cases rule: zcc_reclaim_cases [where dbg = dbg])
    case empty
    have "overflow_queue_inv (ch_submission_queue (mgmt_channels m ! ch))" "length (b ch) \<le> mgmt_max_borrowed_samples m"
      using zcc_invD(1) [OF zcc ch] by (simp_all add: channel_inv_def)
    with oq.content_bound created_withD [OF created ch]
    have "length (submitted (mgmt_channels m ! ch)) + length (b ch) \<le> flight_bound bld True"
      by (fastforce simp: flight_bound_def intro: add_mono)
    with empty reclaim zcc show ?thesis by (simp add: in_flight_def)
  next
    case (reclaimed p m1)
    with reclaim le show ?thesis by (auto simp: in_flight_def)
  qed
  with zcc_reclaim_settings [OF reclaim] zcc_reclaim_frame [OF reclaim] show ?thesis
    by (intro run_inv_step [OF inv, where ch = ch]) auto
qed

lemma run_inv_receive:
  assumes inv: "run_inv sz bld m cnt b dr" and ch: "ch < length (mgmt_channels m)"
    and receive: "zcc_receive dbg m cnt ch = Some (r, m', cnt')"
  shows "run_inv sz bld m' cnt' (b(ch := b ch @ (case r of Inr (Some p) \<Rightarrow> [p] | _ \<Rightarrow> []))) dr"
proof -
  from inv ch have zcc: "zcc_inv sz m cnt b" by (simp add: run_inv_def)
  from zcc ch show ?thesis
  proof (cases rule: zcc_receive_cases [where dbg = dbg])
    case (received p c')
    have "run_inv sz bld (put_channel m ch c') cnt' (b(ch := b ch @ [p])) dr"
      using received receive inv ch zcc_receive_settings [OF receive]
      by (intro run_inv_step [OF inv, where ch = ch]) (auto simp: run_inv_def in_flight_def)
    with received receive show ?thesis by simp
  qed (use receive inv in simp_all)
qed

lemma release_not_full:
  assumes inv: "run_inv sz bld m cnt b dr" and ch: "ch < length (mgmt_channels m)" and p: "p \<in> set (b ch)"
  shows "length (completed (mgmt_channels m ! ch)) < iq_capacity (ch_completion_queue (mgmt_channels m ! ch))"
proof -
  from p have "0 < length (b ch)" by (cases "b ch") simp_all
  then have "length (completed (mgmt_channels m ! ch)) < length (in_flight (mgmt_channels m ! ch) (b ch))"
    by (simp add: in_flight_def)
  also have "\<dots> \<le> flight_bound bld False"
    using inv ch flight_bound_mono [of bld "dr ch"] by (auto simp: run_inv_def intro: order_trans)
  finally show ?thesis using inv ch created_withD(2) [of bld m ch] by (simp add: run_inv_def)
qed

lemma run_inv_release:
  assumes inv: "run_inv sz bld m cnt b dr" and ch: "ch < length (mgmt_channels m)" and p: "p \<in> set (b ch)"
    and release: "zcc_release dbg m cnt p ch = Some (r, m', cnt')"
  shows "run_inv sz bld m' cnt' (b(ch := if r = Inr () then remove1 p (b ch) else b ch)) dr"
proof -
  from inv ch have zcc: "zcc_inv sz m cnt b" by (simp add: run_inv_def)
  from zcc ch p show ?thesis
  proof (cases rule: zcc_release_cases [where dbg = dbg])
    case full
    with release_not_full [OF inv ch p] show ?thesis by simp
  next
    case (released c')
    have "Suc (length (remove1 p (b ch))) = length (b ch)"
      using p by (metis Suc_pred' length_pos_if_in_set length_remove1)
    with released have "length (in_flight c' (remove1 p (b ch))) = length (in_flight (mgmt_channels m ! ch) (b ch))"
      by (simp add: in_flight_def)
    with released release inv ch zcc_release_settings [OF release] show ?thesis
      by (intro run_inv_step [OF inv, where ch = ch]) (auto simp: run_inv_def)
  qed
qed

lemma zcc_run_inv:
  assumes "zcc_run sz dbg bld m cnt b dr" "0 < bld_number_of_channels bld"
  shows "run_inv sz bld m cnt b dr"
  using assms(1)
proof induction
  case run_created
  have "created_with bld (mgmt_fresh bld)"
    using created_with_fresh [OF assms(2), of 0] by (simp add: mgmt_fresh_def)
  moreover have "length (in_flight (mgmt_channels (mgmt_fresh bld) ! ch) []) = 0" if "ch < length (mgmt_channels (mgmt_fresh bld))" for ch
    using that by (simp add: mgmt_fresh_def in_flight_def channel_fresh_def)
  ultimately show ?case using zcc_inv_fresh [OF assms(2)] by (simp add: run_inv_def)
qed (rule run_inv_send run_inv_reclaim run_inv_receive run_inv_release; assumption)+


section \<open>Guarantees\<close>



section \<open>Recovery\<close>

text \<open>What \<open>acquire_used_offsets\<close> reports for segment details \<open>d\<close> at index \<open>i\<close>.\<close>

definition segment_offsets :: "shared_management_data \<Rightarrow> nat \<Rightarrow> segment_details \<Rightarrow> PointerOffset list" where
  "segment_offsets m i d =
     map (\<lambda>index. from_offset_and_segment_id (index * sd_sample_size d) (segment_id_from_index m i))
       (filter (\<lambda>j. ucl_data (sd_used_chunk_list d) ! j) [0..<length (ucl_data (sd_used_chunk_list d))])"

definition cleared :: "segment_details \<Rightarrow> segment_details" where
  "cleared d = d\<lparr>sd_used_chunk_list := (sd_used_chunk_list d)
     \<lparr>ucl_data := replicate (length (ucl_data (sd_used_chunk_list d))) False\<rparr>\<rparr>"

lemma acquire_used_offsets_from_eq:
  assumes "\<forall>d \<in> set ds. ucl_inv (sd_used_chunk_list d)"
  shows "acquire_used_offsets_from dbg m k ds =
    Some (concat (map (\<lambda>i. segment_offsets m (k + i) (ds ! i)) [0..<length ds]), map cleared ds)"
  using assms
proof (induction ds arbitrary: k)
  case (Cons d ds)
  have "map (\<lambda>i. segment_offsets m (k + i) ((d # ds) ! i)) [0..<length (d # ds)] =
      segment_offsets m k d # map (\<lambda>i. segment_offsets m (k + 1 + i) (ds ! i)) [0..<length ds]"
    by (simp only: length_Cons upt_conv_Cons [of 0 "Suc (length ds)", OF zero_less_Suc] list.map map_Suc_upt [symmetric] map_map comp_def)
      simp
  with Cons show ?case
    by (simp add: ucl_remove_all_def ucl_inv_def ucl_remove_all_from_filter segment_offsets_def cleared_def)
qed simp

lemma po_offset_less: "po_offset p < 2 ^ 56"
proof -
  have "unat p < 2 ^ LENGTH(64)" by (rule unsigned_less)
  moreover have "po_offset p = unat p div 2 ^ 8"
    by (simp add: po_offset_def drop_bit_eq_div unat_div)
  ultimately show ?thesis by (simp add: less_mult_imp_div_less)
qed

lemma segment_id_from_index_eq:
  assumes "s < unat (mgmt_number_of_segments m)"
  shows "unat (segment_id_from_index m (ch * unat (mgmt_number_of_segments m) + s)) = s"
proof -
  have "unat (mgmt_number_of_segments m) < 2 ^ LENGTH(8)" by (rule unsigned_less)
  with assms have "s < 2 ^ LENGTH(8)" by simp
  with assms show ?thesis by (simp add: segment_id_from_index_def Let_def unat_of_nat_small)
qed

lemma segment_offsets_used:
  assumes used: "channel_used sz m ch U" and s: "s < unat (mgmt_number_of_segments m)"
  defines "d \<equiv> mgmt_segment_details m ! (ch * unat (mgmt_number_of_segments m) + s)"
  shows "set (segment_offsets m (ch * unat (mgmt_number_of_segments m) + s) d) = {p \<in> U. segment_of p = s}"
    "distinct (segment_offsets m (ch * unat (mgmt_number_of_segments m) + s) d)"
proof -
  let ?n = "unat (mgmt_number_of_segments m)" and ?l = "sd_used_chunk_list d"
  let ?id = "segment_id_from_index m (ch * ?n + s)"
  let ?f = "\<lambda>index. from_offset_and_segment_id (index * sd_sample_size d) ?id"
  let ?xs = "filter (\<lambda>j. ucl_data ?l ! j) [0..<length (ucl_data ?l)]"
  from used s have d: "segment_inv sz (mgmt_number_of_samples_per_segment m) U s d"
    and valid: "\<And>p. p \<in> U \<Longrightarrow> valid_offset sz ?n (mgmt_number_of_samples_per_segment m) p"
    by (simp_all add: used_inv_def d_def)
  have xs: "set ?xs = chunk_of sz ` {p \<in> U. segment_of p = s}" "distinct ?xs"
    using d unfolding segment_inv_def ucl_set_def by auto
  have f: "?f (chunk_of sz p) = p" if "p \<in> U" "segment_of p = s" for p
  proof (rule po_eqI)
    have "sd_sample_size d = sz s" using d that by (auto simp: segment_inv_def)
    then have "chunk_of sz p * sd_sample_size d = po_offset p"
      using valid [OF that(1)] that(2) by (auto simp: valid_offset_def chunk_of_def)
    with po_offset_less [of p] show "po_offset (?f (chunk_of sz p)) = po_offset p" by simp
    show "po_segment_id (?f (chunk_of sz p)) = po_segment_id p"
      using segment_id_from_index_eq [OF s, of ch] that(2) by (simp add: segment_of_def word_unat_eq_iff)
  qed
  have "?f ` chunk_of sz ` {p \<in> U. segment_of p = s} = id ` {p \<in> U. segment_of p = s}"
    unfolding image_image by (intro image_cong) (simp_all only: mem_Collect_eq f id_apply)
  then show "set (segment_offsets m (ch * ?n + s) d) = {p \<in> U. segment_of p = s}"
    unfolding segment_offsets_def set_map xs(1) by simp
  have "inj_on ?f (chunk_of sz ` {p \<in> U. segment_of p = s})"
  proof (rule inj_onI, elim imageE, unfold mem_Collect_eq, elim conjE)
    fix x y p q
    assume "?f x = ?f y" "x = chunk_of sz p" "p \<in> U" "segment_of p = s" "y = chunk_of sz q" "q \<in> U" "segment_of q = s"
    then show "x = y" using f [of p] f [of q] by simp
  qed
  then show "distinct (segment_offsets m (ch * ?n + s) d)"
    unfolding segment_offsets_def distinct_map xs(1) using xs(2) by (intro conjI)
qed

lemma mset_concat_blocks:
  "mset (concat (map f [0..<c * n])) = (\<Sum>ch<c. \<Sum>s<n. mset (f (ch * n + s)))"
proof (induction c)
  case (Suc c)
  have split: "[0..<Suc c * n] = [0..<c * n] @ map (\<lambda>s. c * n + s) [0..<n]"
    using upt_add_eq_append [of 0 "c * n" n] map_add_upt [of "c * n" n] by (simp add: add.commute [of "c * n"])
  have "mset (concat (map g [0..<n])) = (\<Sum>s<n. mset (g s))" for g :: "nat \<Rightarrow> 'a list"
    by (induction n) simp_all
  from this [of "\<lambda>s. f (c * n + s)"] show ?case unfolding split by (simp add: Suc comp_def)
qed simp

lemma mset_by_segment:
  assumes "distinct xs" "\<forall>p \<in> set xs. segment_of p < n" "\<And>s. s < n \<Longrightarrow> set (g s) = {p \<in> set xs. segment_of p = s} \<and> distinct (g s)"
  shows "(\<Sum>s<n. mset (g s)) = mset xs"
proof (rule multiset_eqI)
  fix p
  have cnt: "count (mset (g s)) p = (if segment_of p = s \<and> p \<in> set xs then 1 else 0)" if "s < n" for s
    using assms(3) [OF that] by (auto simp: distinct_count_atmost_1)
  have "count (\<Sum>s<n. mset (g s)) p = (\<Sum>s<n. if segment_of p = s \<and> p \<in> set xs then 1 else 0)"
    unfolding count_sum by (intro sum.cong refl cnt) simp
  also have "\<dots> = (if p \<in> set xs then 1 else 0)"
    using assms(2) by (cases "p \<in> set xs") simp_all
  also have "\<dots> = count (mset xs) p" using assms(1) by (simp add: distinct_count_atmost_1)
  finally show "count (\<Sum>s<n. mset (g s)) p = count (mset xs) p" .
qed

lemma zcc_acquire_all:
  assumes zcc: "zcc_inv sz m cnt b"
  shows "\<exists>offsets m'. zcc_acquire_used_offsets dbg m = Some (offsets, m') \<and>
    mset offsets = (\<Sum>ch < length (mgmt_channels m). mset (in_flight (mgmt_channels m ! ch) (b ch))) \<and>
    (\<forall>d \<in> set (mgmt_segment_details m'). ucl_set (sd_used_chunk_list d) = {})"
proof (intro exI conjI)
  let ?n = "unat (mgmt_number_of_segments m)" and ?c = "length (mgmt_channels m)" and ?ds = "mgmt_segment_details m"
  let ?U = "\<lambda>ch. in_flight (mgmt_channels m ! ch) (b ch)"
  let ?f = "\<lambda>i. segment_offsets m i (?ds ! i)"
  from zcc have len: "length ?ds = ?c * ?n" by (simp add: zcc_inv_def mult.commute)
  have used: "channel_used sz m ch (set (?U ch))" "distinct (?U ch)" if "ch < ?c" for ch
    using zcc_invD(1) [OF zcc that] by (simp_all add: channel_inv_def)
  have "ucl_inv (sd_used_chunk_list (?ds ! i))" if "i < ?c * ?n" for i
  proof -
    from that have "?n \<noteq> 0" by (intro notI) simp
    with that have i: "i div ?n < ?c" "i mod ?n < ?n" "i div ?n * ?n + i mod ?n = i"
      by (simp_all add: less_mult_imp_div_less)
    from used(1) [OF i(1)] i(2,3) show ?thesis unfolding used_inv_def segment_inv_def by metis
  qed
  then have "\<forall>d \<in> set ?ds. ucl_inv (sd_used_chunk_list d)" by (simp add: all_set_conv_all_nth len)
  from acquire_used_offsets_from_eq [OF this, of dbg m 0]
  show "zcc_acquire_used_offsets dbg m = Some (concat (map ?f [0..<?c * ?n]), m\<lparr>mgmt_segment_details := map cleared ?ds\<rparr>)"
    by (simp add: zcc_acquire_used_offsets_def len)
  have "(\<Sum>s<?n. mset (?f (ch * ?n + s))) = mset (?U ch)" if "ch < ?c" for ch
  proof (rule mset_by_segment [OF used(2) [OF that]])
    show "\<forall>p \<in> set (?U ch). segment_of p < ?n"
      using used(1) [OF that] by (simp add: used_inv_def valid_offset_def)
    show "set (?f (ch * ?n + s)) = {p \<in> set (?U ch). segment_of p = s} \<and> distinct (?f (ch * ?n + s))" if "s < ?n" for s
      using segment_offsets_used [OF used(1) [OF \<open>ch < ?c\<close>] that] by (intro conjI)
  qed
  then show "mset (concat (map ?f [0..<?c * ?n])) = (\<Sum>ch<?c. mset (?U ch))"
    unfolding mset_concat_blocks by (intro sum.cong) simp_all
  show "\<forall>d \<in> set (mgmt_segment_details (m\<lparr>mgmt_segment_details := map cleared ?ds\<rparr>)). ucl_set (sd_used_chunk_list d) = {}"
    by (auto simp: cleared_def ucl_set_def)
qed

text \<open>
  C10: After the receiver is gone, \<open>acquire_used_offsets\<close> hands the sender every offset that was in
  flight, on each channel exactly once and nothing else, and leaves no chunk marked as used.
\<close>

theorem zcc_recovery_complete:
  assumes "zcc_run sz dbg bld m cnt b dr" "0 < bld_number_of_channels bld"
  shows "\<exists>offsets m'. zcc_acquire_used_offsets dbg m = Some (offsets, m') \<and>
    mset offsets = (\<Sum>ch < length (mgmt_channels m). mset (in_flight (mgmt_channels m ! ch) (b ch))) \<and>
    (\<forall>d \<in> set (mgmt_segment_details m'). ucl_set (sd_used_chunk_list d) = {})"
  using zcc_acquire_all [of sz m cnt b dbg] zcc_run_inv [OF assms] by (simp add: run_inv_def)

theorem zcc_recovery_complete_witness:
  "\<exists>m cnt b dr offsets m'. zcc_run (\<lambda>_. 8) True bld_new m cnt b dr \<and>
     zcc_acquire_used_offsets True m = Some (offsets, m') \<and> mset offsets = {#from_offset_and_segment_id 24 0#}"
proof -
  let ?m = "mgmt_fresh bld_new" and ?p = "from_offset_and_segment_id 24 0"
  note run = zcc_run.run_created [of "\<lambda>_. 8" True bld_new]
  have n: "0 < bld_number_of_channels bld_new" "0 < length (mgmt_channels ?m)"
    by (simp_all add: bld_new_def mgmt_fresh_def)
  have v: "valid_offset (\<lambda>_. 8) (unat (mgmt_number_of_segments ?m)) (mgmt_number_of_samples_per_segment ?m) ?p"
    by (simp add: valid_offset_def segment_of_def chunk_of_def bld_new_def mgmt_fresh_def)
  have e: "in_flight (mgmt_channels ?m ! 0) [] = []"
    by (simp add: bld_new_def mgmt_fresh_def in_flight_def channel_fresh_def)
  have inv: "zcc_inv (\<lambda>_. 8) ?m (receiver_borrow_counter bld_new) (\<lambda>_. [])"
    using zcc_run_inv [OF run n(1)] by (simp add: run_inv_def)
  have room: "length (submitted (mgmt_channels ?m ! 0)) < oq_capacity (ch_submission_queue (mgmt_channels ?m ! 0))"
    by (simp add: bld_new_def mgmt_fresh_def channel_fresh_def submission_queue_size_def)
  have new: "?p \<notin> set (in_flight (mgmt_channels ?m ! 0) ((\<lambda>_. []) 0))" by (simp add: e)
  obtain m' where send: "zcc_try_send True ?m ?p 8 0 = Some (Inr None, m')"
    "in_flight (mgmt_channels m' ! 0) [] = [?p]" "length (mgmt_channels m') = 1"
    using inv n(2) v new
  proof (cases rule: zcc_try_send_cases [where dbg = True])
    case (sent r m')
    with room e n show ?thesis by (intro that [of m']) (simp_all add: in_flight_def bld_new_def mgmt_fresh_def)
  qed (use room in simp)
  have run': "zcc_run (\<lambda>_. 8) True bld_new m' (receiver_borrow_counter bld_new) (\<lambda>_. []) ((\<lambda>_. True)(0 := False))"
    by (rule zcc_run.run_send [OF run n(2) _ v _ send(1)]) (simp_all add: e)
  from zcc_recovery_complete [OF this n(1)] run' send(2,3) show ?thesis by auto
qed

end
