(* ===== verification/Container_Vec.thy ===== *)
theory Container_Vec
  imports Elementary
begin

text \<open>
  The vector of \<^verbatim>\<open>iceoryx2-bb/container/src/vec.rs\<close> (\<open>MetaVec\<close>, the common core of \<open>Vec\<close>,
  \<open>RelocatableVec\<close> and \<open>FixedSizeVec\<close>): a block of memory cells of which the first \<open>len\<close> are
  initialised. As in the container queue, \<open>None\<close> is an uninitialised cell and reading one is the
  panic of the model. The vector refines a list of bounded length.
\<close>

section \<open>State and operations\<close>

record 'a meta_vec =
  mv_data :: "'a option list"
  mv_capacity :: nat
  mv_len :: nat
  mv_is_initialized :: bool

definition mv_new :: "nat \<Rightarrow> 'a meta_vec" where
  "mv_new capacity =
     \<lparr>mv_data = replicate capacity None, mv_capacity = capacity, mv_len = 0, mv_is_initialized = True\<rparr>"

definition mv_new_uninit :: "nat \<Rightarrow> 'a meta_vec" where
  "mv_new_uninit capacity = \<lparr>mv_data = [], mv_capacity = capacity, mv_len = 0, mv_is_initialized = False\<rparr>"

definition mv_init ::
  "layout \<Rightarrow> (layout \<Rightarrow> AllocationError + nat) \<Rightarrow> 'a meta_vec \<Rightarrow> (AllocationError + 'a meta_vec) option" where
  "mv_init el allocate v = do {
     _ \<leftarrow> panic_unless (\<not> mv_is_initialized v);
     Some (case allocate \<lparr>lsize = lsize el * mv_capacity v, lalign = lalign el\<rparr> of
         Inl e \<Rightarrow> Inl e
       | Inr _ \<Rightarrow> Inr (v\<lparr>mv_data := replicate (mv_capacity v) None, mv_is_initialized := True\<rparr>)) }"

definition mv_memory_size :: "layout \<Rightarrow> nat \<Rightarrow> nat" where
  "mv_memory_size el capacity = unaligned_mem_size (lsize el) (lalign el) capacity"

definition mv_verify_init :: "bool \<Rightarrow> 'a meta_vec \<Rightarrow> unit option" where
  "mv_verify_init dbg v = debug_assert dbg (mv_is_initialized v)"

definition mv_is_empty :: "'a meta_vec \<Rightarrow> bool" where
  "mv_is_empty v \<longleftrightarrow> mv_len v = 0"

definition mv_is_full :: "'a meta_vec \<Rightarrow> bool" where
  "mv_is_full v \<longleftrightarrow> mv_len v = mv_capacity v"

text \<open>The slice of the initialised cells; indexing goes through it.\<close>

fun mv_cells :: "'a option list \<Rightarrow> 'a list option" where
  "mv_cells [] = Some []"
| "mv_cells (c # cs) = do { x \<leftarrow> c; xs \<leftarrow> mv_cells cs; Some (x # xs) }"

definition mv_as_slice :: "'a meta_vec \<Rightarrow> 'a list option" where
  "mv_as_slice v = (if mv_len v \<le> length (mv_data v) then mv_cells (take (mv_len v) (mv_data v)) else None)"

definition mv_deref :: "bool \<Rightarrow> 'a meta_vec \<Rightarrow> 'a list option" where
  "mv_deref dbg v = do { _ \<leftarrow> mv_verify_init dbg v; mv_as_slice v }"

fun mv_eq_from :: "'a list \<Rightarrow> 'a list \<Rightarrow> nat list \<Rightarrow> bool option" where
  "mv_eq_from xs ys [] = Some True"
| "mv_eq_from xs ys (i # is') = do {
     x \<leftarrow> slice_get xs i;
     y \<leftarrow> slice_get ys i;
     if y \<noteq> x then Some False else mv_eq_from xs ys is' }"

definition mv_eq :: "bool \<Rightarrow> 'a meta_vec \<Rightarrow> 'a meta_vec \<Rightarrow> bool option" where
  "mv_eq dbg v other = do {
     xs \<leftarrow> mv_deref dbg v;
     ys \<leftarrow> mv_deref dbg other;
     if mv_len other \<noteq> mv_len v then Some False else mv_eq_from xs ys [0..<mv_len v] }"

definition mv_push_unchecked :: "'a meta_vec \<Rightarrow> 'a \<Rightarrow> 'a meta_vec option" where
  "mv_push_unchecked v x = do {
     d \<leftarrow> slice_set (mv_data v) (mv_len v) (Some x);
     Some (v\<lparr>mv_data := d, mv_len := mv_len v + 1\<rparr>) }"

definition mv_push :: "bool \<Rightarrow> 'a meta_vec \<Rightarrow> 'a \<Rightarrow> (bool \<times> 'a meta_vec) option" where
  "mv_push dbg v x =
     (if mv_is_full v then Some (False, v)
      else do {
        _ \<leftarrow> mv_verify_init dbg v;
        v' \<leftarrow> mv_push_unchecked v x;
        Some (True, v') })"

fun mv_push_all :: "'a meta_vec \<Rightarrow> 'a list \<Rightarrow> 'a meta_vec option" where
  "mv_push_all v [] = Some v"
| "mv_push_all v (x # xs) = do { v' \<leftarrow> mv_push_unchecked v x; mv_push_all v' xs }"

definition mv_fill :: "'a meta_vec \<Rightarrow> 'a \<Rightarrow> 'a meta_vec option" where
  "mv_fill v x = mv_push_all v (replicate (mv_capacity v - mv_len v) x)"

definition mv_extend_from_slice :: "'a meta_vec \<Rightarrow> 'a list \<Rightarrow> (bool \<times> 'a meta_vec) option" where
  "mv_extend_from_slice v other =
     (if mv_capacity v < mv_len v + length other then Some (False, v)
      else do { v' \<leftarrow> mv_push_all v other; Some (True, v') })"

text \<open>\<open>core::ptr::copy\<close> moves \<open>n\<close> cells from \<open>src\<close> to \<open>dst\<close>; the ranges may overlap.\<close>

definition copy_cells :: "'a list \<Rightarrow> nat \<Rightarrow> nat \<Rightarrow> nat \<Rightarrow> 'a list" where
  "copy_cells data src dst n = take dst data @ take n (drop src data) @ drop (dst + n) data"

definition mv_remove :: "bool \<Rightarrow> 'a meta_vec \<Rightarrow> nat \<Rightarrow> ('a \<times> 'a meta_vec) option" where
  "mv_remove dbg v index = do {
     _ \<leftarrow> mv_verify_init dbg v;
     _ \<leftarrow> panic_unless (index < mv_len v);
     c \<leftarrow> slice_get (mv_data v) index;
     value \<leftarrow> c;
     Some (value, v\<lparr>mv_data := copy_cells (mv_data v) (index + 1) index (mv_len v - index - 1),
       mv_len := mv_len v - 1\<rparr>) }"

definition mv_pop_unchecked :: "bool \<Rightarrow> 'a meta_vec \<Rightarrow> ('a \<times> 'a meta_vec) option" where
  "mv_pop_unchecked dbg v = do {
     i \<leftarrow> usize_sub dbg (mv_len v) 1;
     c \<leftarrow> slice_get (mv_data v) i;
     value \<leftarrow> c;
     Some (value, v\<lparr>mv_data := (mv_data v)[i := None], mv_len := i\<rparr>) }"

definition mv_pop :: "bool \<Rightarrow> 'a meta_vec \<Rightarrow> ('a option \<times> 'a meta_vec) option" where
  "mv_pop dbg v =
     (if mv_is_empty v then Some (None, v)
      else do {
        _ \<leftarrow> mv_verify_init dbg v;
        (x, v') \<leftarrow> mv_pop_unchecked dbg v;
        Some (Some x, v') })"

fun mv_pop_times :: "bool \<Rightarrow> nat \<Rightarrow> 'a meta_vec \<Rightarrow> 'a meta_vec option" where
  "mv_pop_times dbg 0 v = Some v"
| "mv_pop_times dbg (Suc n) v = do { (_, v') \<leftarrow> mv_pop_unchecked dbg v; mv_pop_times dbg n v' }"

definition mv_clear :: "bool \<Rightarrow> 'a meta_vec \<Rightarrow> 'a meta_vec option" where
  "mv_clear dbg v = mv_pop_times dbg (mv_len v) v"

definition mv_from_fn :: "bool \<Rightarrow> nat \<Rightarrow> (nat \<Rightarrow> 'a) \<Rightarrow> 'a meta_vec option" where
  "mv_from_fn dbg capacity callback =
     fold (\<lambda>n r. do { v \<leftarrow> r; (_, v') \<leftarrow> mv_push dbg v (callback n); Some v' }) [0..<capacity] (Some (mv_new capacity))"

section \<open>Refinement to a list\<close>

text \<open>\<open>mv_rel v xs\<close>: the initialised cells of \<open>v\<close> hold exactly \<open>xs\<close>.\<close>

definition mv_rel :: "'a meta_vec \<Rightarrow> 'a list \<Rightarrow> bool" where
  "mv_rel v xs \<longleftrightarrow> mv_is_initialized v \<and> length (mv_data v) = mv_capacity v \<and> mv_len v = length xs \<and>
     length xs \<le> mv_capacity v \<and> take (length xs) (mv_data v) = map Some xs"

named_theorems mv_refine \<open>the operations of the vector on a list\<close>

lemma mv_relD:
  assumes "mv_rel v xs"
  shows "mv_is_initialized v" "length (mv_data v) = mv_capacity v" "mv_len v = length xs" "length xs \<le> mv_capacity v"
    "take (length xs) (mv_data v) = map Some xs"
  using assms by (simp_all add: mv_rel_def)

lemma mv_rel_nth:
  assumes "mv_rel v xs" "i < length xs"
  shows "mv_data v ! i = Some (xs ! i)" "i < length (mv_data v)"
proof -
  have "mv_data v ! i = take (length xs) (mv_data v) ! i" using assms(2) by simp
  also have "\<dots> = Some (xs ! i)" unfolding mv_relD(5) [OF assms(1)] using assms(2) by simp
  finally show "mv_data v ! i = Some (xs ! i)" .
  show "i < length (mv_data v)" using assms by (simp add: mv_rel_def)
qed

lemma mv_rel_new [mv_refine]: "mv_rel (mv_new n) []"
  by (simp add: mv_rel_def mv_new_def)

lemma mv_cells_Some: "mv_cells (map Some xs) = Some xs"
  by (induction xs) simp_all

lemma mv_as_slice_rel: "mv_rel v xs \<Longrightarrow> mv_as_slice v = Some xs"
  by (simp add: mv_as_slice_def mv_rel_def mv_cells_Some)

lemma mv_deref_rel: "mv_rel v xs \<Longrightarrow> mv_deref dbg v = Some xs"
  by (simp add: mv_deref_def mv_verify_init_def mv_as_slice_rel mv_relD(1))

lemma mv_eq_from_rel:
  "\<forall>i \<in> set is'. i < length xs \<and> i < length ys \<Longrightarrow> mv_eq_from xs ys is' = Some (\<forall>i \<in> set is'. ys ! i = xs ! i)"
  by (induction is') auto

lemma mv_eq_rel:
  assumes "mv_rel v xs" "mv_rel w ys"
  shows "mv_eq dbg v w = Some (xs = ys)"
proof (cases "length ys = length xs")
  case True
  have "mv_eq_from xs ys [0..<length xs] = Some (\<forall>i \<in> set [0..<length xs]. ys ! i = xs ! i)"
    using True by (intro mv_eq_from_rel) simp
  moreover have "(\<forall>i \<in> set [0..<length xs]. ys ! i = xs ! i) \<longleftrightarrow> xs = ys"
    using True by (subst list_eq_iff_nth_eq) auto
  ultimately show ?thesis using assms True by (simp add: mv_eq_def mv_deref_rel mv_relD(3))
next
  case False
  then show ?thesis using assms by (auto simp: mv_eq_def mv_deref_rel mv_relD(3))
qed

lemma mv_push_unchecked_rel:
  assumes "mv_rel v xs" "length xs < mv_capacity v"
  obtains v' where "mv_push_unchecked v x = Some v'" "mv_rel v' (xs @ [x])" "mv_capacity v' = mv_capacity v"
proof (rule that)
  let ?v' = "v\<lparr>mv_data := (mv_data v)[mv_len v := Some x], mv_len := mv_len v + 1\<rparr>"
  from assms show "mv_push_unchecked v x = Some ?v'" by (simp add: mv_push_unchecked_def mv_rel_def)
  from assms show "mv_rel ?v' (xs @ [x])" by (simp add: mv_rel_def take_Suc_conv_app_nth)
qed simp

lemma mv_push_rel:
  assumes "mv_rel v xs"
  obtains v' where "mv_push dbg v x = Some (length xs < mv_capacity v, v')"
    "mv_rel v' (if length xs < mv_capacity v then xs @ [x] else xs)" "mv_capacity v' = mv_capacity v"
proof (cases "length xs < mv_capacity v")
  case True
  obtain v' where "mv_push_unchecked v x = Some v'" "mv_rel v' (xs @ [x])" "mv_capacity v' = mv_capacity v"
    by (rule mv_push_unchecked_rel [OF assms True, of x])
  with assms True show ?thesis
    by (intro that [of v']) (simp_all add: mv_push_def mv_is_full_def mv_verify_init_def mv_relD)
next
  case False
  with assms have "mv_is_full v" by (simp add: mv_is_full_def mv_rel_def)
  with False assms show ?thesis by (intro that [of v]) (simp_all add: mv_push_def)
qed

lemma mv_push_all_rel:
  assumes "mv_rel v xs" "length xs + length ys \<le> mv_capacity v"
  obtains v' where "mv_push_all v ys = Some v'" "mv_rel v' (xs @ ys)" "mv_capacity v' = mv_capacity v"
  using assms
proof (induction ys arbitrary: v xs thesis)
  case (Cons y ys)
  obtain v1 where v1: "mv_push_unchecked v y = Some v1" "mv_rel v1 (xs @ [y])" "mv_capacity v1 = mv_capacity v"
    by (rule mv_push_unchecked_rel [OF Cons.prems(2), of y]) (use Cons.prems(3) in simp_all)
  obtain v' where "mv_push_all v1 ys = Some v'" "mv_rel v' ((xs @ [y]) @ ys)" "mv_capacity v' = mv_capacity v1"
    by (rule Cons.IH [OF _ v1(2)]) (use Cons.prems(3) v1 in simp_all)
  with v1 show ?case by (intro Cons.prems(1) [of v']) simp_all
qed simp

lemma mv_pop_unchecked_rel:
  assumes "mv_rel v (xs @ [x])"
  obtains v' where "mv_pop_unchecked dbg v = Some (x, v')" "mv_rel v' xs" "mv_capacity v' = mv_capacity v"
proof (rule that)
  let ?v' = "v\<lparr>mv_data := (mv_data v)[length xs := None], mv_len := length xs\<rparr>"
  have last: "mv_data v ! length xs = Some x" "length xs < length (mv_data v)"
    using mv_rel_nth [OF assms, of "length xs"] by simp_all
  with assms show "mv_pop_unchecked dbg v = Some (x, ?v')"
    by (simp add: mv_pop_unchecked_def mv_relD(3))
  from assms last(2) have "take (length xs) (take (length (xs @ [x])) (mv_data v)) = map Some xs"
    by (simp only: mv_relD(5)) simp
  then show "mv_rel ?v' xs" using assms by (simp add: mv_rel_def)
qed simp

lemma mv_pop_rel:
  assumes "mv_rel v xs"
  obtains v' where "mv_pop dbg v = Some (if xs = [] then None else Some (last xs), v')" "mv_rel v' (butlast xs)"
    "mv_capacity v' = mv_capacity v"
proof (cases xs rule: rev_cases)
  case Nil
  with assms show ?thesis by (intro that [of v]) (simp_all add: mv_pop_def mv_is_empty_def mv_rel_def)
next
  case (snoc ys y)
  with assms have "mv_rel v (ys @ [y])" by simp
  then obtain v' where "mv_pop_unchecked dbg v = Some (y, v')" "mv_rel v' ys" "mv_capacity v' = mv_capacity v"
    by (rule mv_pop_unchecked_rel [of v ys y dbg])
  with assms snoc show ?thesis
    by (intro that [of v']) (simp_all add: mv_pop_def mv_is_empty_def mv_verify_init_def mv_relD)
qed

lemma mv_pop_times_rel:
  assumes "mv_rel v xs" "n \<le> length xs"
  obtains v' where "mv_pop_times dbg n v = Some v'" "mv_rel v' (take (length xs - n) xs)" "mv_capacity v' = mv_capacity v"
  using assms
proof (induction n arbitrary: v xs thesis)
  case (Suc n)
  from Suc.prems(3) obtain ys y where xs: "xs = ys @ [y]" by (cases xs rule: rev_cases) auto
  obtain v1 where v1: "mv_pop_unchecked dbg v = Some (y, v1)" "mv_rel v1 ys" "mv_capacity v1 = mv_capacity v"
    by (rule mv_pop_unchecked_rel [of v ys y dbg]) (use Suc.prems(2) xs in simp_all)
  obtain v' where "mv_pop_times dbg n v1 = Some v'" "mv_rel v' (take (length ys - n) ys)" "mv_capacity v' = mv_capacity v1"
    by (rule Suc.IH [OF _ v1(2)]) (use Suc.prems(3) xs in simp_all)
  with v1 xs show ?case by (intro Suc.prems(1) [of v']) simp_all
qed simp

lemma mv_clear_rel:
  assumes "mv_rel v xs"
  obtains v' where "mv_clear dbg v = Some v'" "mv_rel v' []" "mv_capacity v' = mv_capacity v"
  by (rule mv_pop_times_rel [OF assms, of "length xs" dbg]) (use assms that in \<open>simp_all add: mv_clear_def mv_relD(3)\<close>)

lemma mv_remove_rel:
  assumes rel: "mv_rel v xs" and i: "i < length xs"
  obtains v' where "mv_remove dbg v i = Some (xs ! i, v')" "mv_rel v' (take i xs @ drop (Suc i) xs)"
    "mv_capacity v' = mv_capacity v"
proof -
  let ?d = "copy_cells (mv_data v) (i + 1) i (mv_len v - i - 1)"
  let ?v' = "v\<lparr>mv_data := ?d, mv_len := mv_len v - 1\<rparr>"
  note D = mv_relD [OF rel]
  define r where "r = drop (length xs) (mv_data v)"
  have r: "mv_data v = map Some xs @ r"
    unfolding r_def D(5) [symmetric] by (rule append_take_drop_id [symmetric])
  have "mv_remove dbg v i = Some (xs ! i, ?v')"
    using mv_rel_nth [OF rel i] D i by (simp add: mv_remove_def mv_verify_init_def)
  moreover have "mv_rel ?v' (take i xs @ drop (Suc i) xs)"
    using D(1-4) i unfolding mv_rel_def copy_cells_def r by (simp add: take_map drop_map)
  ultimately show ?thesis by (intro that [of ?v']) simp_all
qed

section \<open>Programs over a vector\<close>

datatype 'a vec_op = VPush 'a | VPop | VRemove nat | VExtend "'a list" | VFill 'a | VClear

datatype 'a vec_res = VFlag bool | VValue "'a option" | VUnit

fun vec_step :: "bool \<Rightarrow> 'a meta_vec \<Rightarrow> 'a vec_op \<Rightarrow> ('a vec_res \<times> 'a meta_vec) option" where
  "vec_step dbg v (VPush x) = map_option (apfst VFlag) (mv_push dbg v x)"
| "vec_step dbg v VPop = map_option (apfst VValue) (mv_pop dbg v)"
| "vec_step dbg v (VRemove i) = map_option (apfst (VValue \<circ> Some)) (mv_remove dbg v i)"
| "vec_step dbg v (VExtend xs) = map_option (apfst VFlag) (mv_extend_from_slice v xs)"
| "vec_step dbg v (VFill x) = map_option (Pair VUnit) (mv_fill v x)"
| "vec_step dbg v VClear = map_option (Pair VUnit) (mv_clear dbg v)"

text \<open>The same operations on a list that holds at most \<open>cap\<close> elements.\<close>

fun list_step :: "nat \<Rightarrow> 'a list \<Rightarrow> 'a vec_op \<Rightarrow> ('a vec_res \<times> 'a list) option" where
  "list_step cap xs (VPush x) = Some (if length xs < cap then (VFlag True, xs @ [x]) else (VFlag False, xs))"
| "list_step cap xs VPop = Some (VValue (if xs = [] then None else Some (last xs)), butlast xs)"
| "list_step cap xs (VRemove i) =
     (if i < length xs then Some (VValue (Some (xs ! i)), take i xs @ drop (Suc i) xs) else None)"
| "list_step cap xs (VExtend ys) =
     Some (if length xs + length ys \<le> cap then (VFlag True, xs @ ys) else (VFlag False, xs))"
| "list_step cap xs (VFill x) = Some (VUnit, xs @ replicate (cap - length xs) x)"
| "list_step cap xs VClear = Some (VUnit, [])"

lemma mv_remove_out:
  assumes "mv_rel v xs" "length xs \<le> i"
  shows "mv_remove dbg v i = None"
  using assms by (auto simp: mv_remove_def mv_verify_init_def mv_relD)

lemma vec_step_refines:
  assumes rel: "mv_rel v xs"
  shows "case list_step (mv_capacity v) xs op of
      None \<Rightarrow> vec_step dbg v op = None
    | Some (r, xs') \<Rightarrow> \<exists>v'. vec_step dbg v op = Some (r, v') \<and> mv_rel v' xs' \<and> mv_capacity v' = mv_capacity v"
proof (cases op)
  case (VPush x)
  show ?thesis by (rule mv_push_rel [OF rel, of dbg x]) (auto simp: VPush)
next
  case VPop
  show ?thesis by (rule mv_pop_rel [OF rel, of dbg]) (simp add: VPop)
next
  case (VRemove i)
  show ?thesis
  proof (cases "i < length xs")
    case True
    show ?thesis by (rule mv_remove_rel [OF rel True, of dbg]) (simp add: VRemove True)
  next
    case False
    with mv_remove_out [OF rel] show ?thesis by (simp add: VRemove)
  qed
next
  case (VExtend ys)
  show ?thesis
  proof (cases "length xs + length ys \<le> mv_capacity v")
    case True
    show ?thesis
      by (rule mv_push_all_rel [OF rel True]) (use True mv_relD(3) [OF rel] in \<open>simp add: VExtend mv_extend_from_slice_def\<close>)
  next
    case False
    with rel mv_relD(3) [OF rel] show ?thesis by (simp add: VExtend mv_extend_from_slice_def)
  qed
next
  case (VFill x)
  show ?thesis
    by (rule mv_push_all_rel [OF rel, of "replicate (mv_capacity v - length xs) x"])
      (use mv_relD(3,4) [OF rel] in \<open>simp_all add: VFill mv_fill_def\<close>)
next
  case VClear
  show ?thesis by (rule mv_clear_rel [OF rel, of dbg]) (simp add: VClear)
qed

lemma vec_run_refines:
  assumes "mv_rel v xs" "mv_capacity v = cap"
  shows "case run_steps (list_step cap) xs ops of
      None \<Rightarrow> run_steps (vec_step dbg) v ops = None
    | Some (rs, xs') \<Rightarrow> \<exists>v'. run_steps (vec_step dbg) v ops = Some (rs, v') \<and> mv_rel v' xs'"
  using assms
proof (induction ops arbitrary: v xs)
  case (Cons op ops)
  show ?case
  proof (cases "list_step cap xs op")
    case None
    with vec_step_refines [OF Cons.prems(1), where op = op and dbg = dbg] Cons.prems(2) show ?thesis by simp
  next
    case (Some rx)
    then obtain r xs1 where step: "list_step cap xs op = Some (r, xs1)" by (cases rx) simp
    with vec_step_refines [OF Cons.prems(1), where op = op and dbg = dbg] Cons.prems(2)
    obtain v1 where v1: "vec_step dbg v op = Some (r, v1)" "mv_rel v1 xs1" "mv_capacity v1 = cap" by auto
    from Cons.IH [OF v1(2,3)] step v1(1) show ?thesis
      by (cases "run_steps (list_step cap) xs1 ops") auto
  qed
qed simp

section \<open>Properties\<close>


end
