(* ===== verification/Container_Queue.thy ===== *)
theory Container_Queue
  imports Queue_Interface Elementary
begin

text \<open>
  The queue of \<^verbatim>\<open>iceoryx2-bb/container/src/queue.rs\<close> (\<open>MetaQueue\<close>, the common core of \<open>Queue\<close>,
  \<open>RelocatableQueue\<close> and \<open>FixedSizeQueue\<close>), used for the history of a publisher and inside the
  slot map. A cell of the memory is a \<open>MaybeUninit<T>\<close>: \<open>None\<close> is an uninitialised cell, and
  \<open>assume_init\<close> on it, undefined behaviour in the code, is the panic of the model. The counter
  \<open>start\<close> counts pushes and does not overflow in any realistic run: it is a \<open>nat\<close>.
\<close>

section \<open>State and operations\<close>

record 'a meta_queue =
  mq_data :: "'a option list"
  mq_start :: nat
  mq_len :: nat
  mq_capacity :: nat
  mq_is_initialized :: bool

definition mq_new :: "nat \<Rightarrow> 'a meta_queue" where
  "mq_new capacity = \<lparr>mq_data = replicate capacity None, mq_start = 0, mq_len = 0, mq_capacity = capacity,
     mq_is_initialized = True\<rparr>"

definition mq_new_uninit :: "nat \<Rightarrow> 'a meta_queue" where
  "mq_new_uninit capacity = \<lparr>mq_data = [], mq_start = 0, mq_len = 0, mq_capacity = capacity,
     mq_is_initialized = False\<rparr>"

text \<open>\<open>el\<close> is the layout of the element type.\<close>

definition mq_init ::
  "layout \<Rightarrow> (layout \<Rightarrow> AllocationError + nat) \<Rightarrow> 'a meta_queue \<Rightarrow> (AllocationError + 'a meta_queue) option" where
  "mq_init el allocate q = do {
     _ \<leftarrow> panic_unless (\<not> mq_is_initialized q);
     Some (case allocate \<lparr>lsize = lsize el * mq_capacity q, lalign = lalign el\<rparr> of
         Inl e \<Rightarrow> Inl e
       | Inr _ \<Rightarrow> Inr (q\<lparr>mq_data := replicate (mq_capacity q) None, mq_is_initialized := True\<rparr>)) }"

definition mq_memory_size :: "layout \<Rightarrow> nat \<Rightarrow> nat" where
  "mq_memory_size el capacity = unaligned_mem_size (lsize el) (lalign el) capacity"

definition mq_verify_init :: "bool \<Rightarrow> 'a meta_queue \<Rightarrow> unit option" where
  "mq_verify_init dbg q = debug_assert dbg (mq_is_initialized q)"

definition mq_is_empty :: "'a meta_queue \<Rightarrow> bool" where
  "mq_is_empty q \<longleftrightarrow> mq_len q = 0"

definition mq_is_full :: "'a meta_queue \<Rightarrow> bool" where
  "mq_is_full q \<longleftrightarrow> mq_len q = mq_capacity q"

text \<open>\<open>a % self.capacity\<close> panics for a queue without capacity.\<close>

definition mq_slot :: "'a meta_queue \<Rightarrow> nat \<Rightarrow> nat option" where
  "mq_slot q i = do { _ \<leftarrow> panic_unless (mq_capacity q \<noteq> 0); Some (i mod mq_capacity q) }"

text \<open>Reading a cell and assuming that it is initialised.\<close>

definition mq_cell :: "'a meta_queue \<Rightarrow> nat \<Rightarrow> 'a option" where
  "mq_cell q i = do { c \<leftarrow> slice_get (mq_data q) i; c }"

definition mq_get_unchecked :: "bool \<Rightarrow> 'a meta_queue \<Rightarrow> nat \<Rightarrow> 'a option" where
  "mq_get_unchecked dbg q index = do {
     oldest \<leftarrow> usize_sub dbg (mq_start q) (mq_len q);
     i \<leftarrow> mq_slot q (oldest + index);
     mq_cell q i }"

definition mq_get :: "bool \<Rightarrow> 'a meta_queue \<Rightarrow> nat \<Rightarrow> 'a option" where
  "mq_get dbg q index = do { _ \<leftarrow> panic_unless (index < mq_len q); mq_get_unchecked dbg q index }"

definition mq_peek :: "bool \<Rightarrow> 'a meta_queue \<Rightarrow> 'a option option" where
  "mq_peek dbg q = do {
     _ \<leftarrow> mq_verify_init dbg q;
     if mq_is_empty q then Some None
     else do {
       oldest \<leftarrow> usize_sub dbg (mq_start q) (mq_len q);
       index \<leftarrow> mq_slot q oldest;
       v \<leftarrow> mq_cell q index;
       Some (Some v) } }"

definition mq_pop :: "bool \<Rightarrow> 'a meta_queue \<Rightarrow> ('a option \<times> 'a meta_queue) option" where
  "mq_pop dbg q = do {
     _ \<leftarrow> mq_verify_init dbg q;
     if mq_is_empty q then Some (None, q)
     else do {
       oldest \<leftarrow> usize_sub dbg (mq_start q) (mq_len q);
       index \<leftarrow> mq_slot q oldest;
       v \<leftarrow> mq_cell q index;
       Some (Some v, q\<lparr>mq_len := mq_len q - 1, mq_data := (mq_data q)[index := None]\<rparr>) } }"

definition mq_unchecked_push :: "'a meta_queue \<Rightarrow> 'a \<Rightarrow> 'a meta_queue option" where
  "mq_unchecked_push q value = do {
     index \<leftarrow> mq_slot q (mq_start q);
     d \<leftarrow> slice_set (mq_data q) index (Some value);
     Some (q\<lparr>mq_data := d, mq_start := mq_start q + 1, mq_len := mq_len q + 1\<rparr>) }"

definition mq_push :: "bool \<Rightarrow> 'a meta_queue \<Rightarrow> 'a \<Rightarrow> (bool \<times> 'a meta_queue) option" where
  "mq_push dbg q value = do {
     _ \<leftarrow> mq_verify_init dbg q;
     if mq_len q = mq_capacity q then Some (False, q)
     else do { q' \<leftarrow> mq_unchecked_push q value; Some (True, q') } }"

definition mq_push_with_overflow :: "bool \<Rightarrow> 'a meta_queue \<Rightarrow> 'a \<Rightarrow> ('a option \<times> 'a meta_queue) option" where
  "mq_push_with_overflow dbg q value = do {
     _ \<leftarrow> mq_verify_init dbg q;
     (overridden_value, q1) \<leftarrow> (if mq_len q = mq_capacity q then mq_pop dbg q else Some (None, q));
     q2 \<leftarrow> mq_unchecked_push q1 value;
     Some (overridden_value, q2) }"

lemma mq_pop_shrinks: "mq_pop dbg q = Some (Some v, q') \<Longrightarrow> mq_len q' < mq_len q"
  by (auto simp: mq_pop_def mq_is_empty_def bind_eq_Some_conv split: if_splits)

text \<open>\<open>clear\<close> (also on drop): pop until the queue is empty.\<close>

function mq_clear :: "bool \<Rightarrow> 'a meta_queue \<Rightarrow> 'a meta_queue option" where
  "mq_clear dbg q = (case mq_pop dbg q of
      None \<Rightarrow> None
    | Some (None, q') \<Rightarrow> Some q'
    | Some (Some _, q') \<Rightarrow> mq_clear dbg q')"
  by pat_completeness auto
termination
  by (relation "measure (\<lambda>(dbg, q). mq_len q)") (auto dest: mq_pop_shrinks)

declare mq_clear.simps [simp del]

section \<open>Invariant and refinement to a list\<close>

definition mq_window :: "'a meta_queue \<Rightarrow> 'a option list" where
  "mq_window q = ring_window (mq_data q) (mq_capacity q) (mq_start q - mq_len q) (mq_start q)"

definition mq_content :: "'a meta_queue \<Rightarrow> 'a list" where
  "mq_content q = map the (mq_window q)"

definition mq_inv :: "'a meta_queue \<Rightarrow> bool" where
  "mq_inv q \<longleftrightarrow> mq_is_initialized q \<and> length (mq_data q) = mq_capacity q \<and> mq_len q \<le> mq_capacity q \<and>
     mq_len q \<le> mq_start q \<and> None \<notin> set (mq_window q)"

lemma mq_content_length [simp]: "mq_len q \<le> mq_start q \<Longrightarrow> length (mq_content q) = mq_len q"
  by (simp add: mq_content_def mq_window_def)

lemma mq_window_content: "mq_inv q \<Longrightarrow> mq_window q = map Some (mq_content q)"
  unfolding mq_content_def mq_inv_def by (intro map_Some_the [symmetric]) simp

lemma mq_new_inv [simp]: "mq_inv (mq_new n)" "mq_content (mq_new n) = []" "mq_capacity (mq_new n) = n"
  by (simp_all add: mq_new_def mq_inv_def mq_window_def mq_content_def)

lemma mq_init_new:
  "allocate \<lparr>lsize = lsize el * n, lalign = lalign el\<rparr> = Inr p \<Longrightarrow>
   mq_init el allocate (mq_new_uninit n) = Some (Inr (mq_new n))"
  by (simp add: mq_init_def mq_new_uninit_def mq_new_def)

text \<open>The oldest element, the one \<open>pop\<close> and \<open>peek\<close> look at.\<close>

lemma mq_oldest:
  assumes inv: "mq_inv q" and content: "mq_content q = v # vs"
  shows "usize_sub dbg (mq_start q) (mq_len q) = Some (mq_start q - mq_len q)"
    "mq_slot q (mq_start q - mq_len q) = Some ((mq_start q - mq_len q) mod mq_capacity q)"
    "mq_cell q ((mq_start q - mq_len q) mod mq_capacity q) = Some v" "\<not> mq_is_empty q"
    "ring_window (mq_data q) (mq_capacity q) (Suc (mq_start q - mq_len q)) (mq_start q) = map Some vs"
proof -
  let ?r = "mq_start q - mq_len q"
  from inv content have len: "0 < mq_len q" "mq_len q \<le> mq_start q"
    using mq_content_length [of q] by (auto simp: mq_inv_def)
  with inv have pos: "0 < mq_capacity q" by (simp add: mq_inv_def)
  from mq_window_content [OF inv] content have "mq_window q = Some v # map Some vs" by simp
  with len have "mq_data q ! (?r mod mq_capacity q) = Some v"
    "ring_window (mq_data q) (mq_capacity q) (Suc ?r) (mq_start q) = map Some vs"
    by (simp_all add: mq_window_def ring_window_Cons)
  with len pos inv show "mq_cell q (?r mod mq_capacity q) = Some v"
    "ring_window (mq_data q) (mq_capacity q) (Suc ?r) (mq_start q) = map Some vs"
    by (simp_all add: mq_cell_def mq_inv_def)
  show "usize_sub dbg (mq_start q) (mq_len q) = Some ?r" "mq_slot q ?r = Some (?r mod mq_capacity q)" "\<not> mq_is_empty q"
    using len pos by (simp_all add: mq_slot_def mq_is_empty_def)
qed

lemma mq_pop_empty:
  assumes "mq_inv q" "mq_content q = []"
  shows "mq_pop dbg q = Some (None, q)"
  using assms mq_content_length [of q] by (simp add: mq_pop_def mq_verify_init_def mq_is_empty_def mq_inv_def)

lemma mq_pop_cons:
  assumes inv: "mq_inv q" and content: "mq_content q = v # vs"
  obtains q' where "mq_pop dbg q = Some (Some v, q')" "mq_content q' = vs" "mq_inv q'" "mq_capacity q' = mq_capacity q"
proof -
  let ?r = "mq_start q - mq_len q"
  let ?i = "?r mod mq_capacity q"
  let ?q' = "q\<lparr>mq_len := mq_len q - 1, mq_data := (mq_data q)[?i := None]\<rparr>"
  note oldest = mq_oldest(1) [OF inv content, of dbg] mq_oldest(2-5) [OF inv content]
  from inv have len: "mq_len q \<le> mq_start q" "mq_len q \<le> mq_capacity q" by (simp_all add: mq_inv_def)
  from oldest(4) have pos: "0 < mq_len q" by (simp add: mq_is_empty_def)
  with len have suc: "mq_start q - (mq_len q - Suc 0) = Suc ?r" by simp
  have "ring_window ((mq_data q)[?i := None]) (mq_capacity q) (Suc ?r) (mq_start q) = map Some vs"
    using oldest(5) len pos by (subst ring_window_outside) simp_all
  then have w: "mq_window ?q' = map Some vs" unfolding mq_window_def by (simp add: suc)
  have "mq_pop dbg q = Some (Some v, ?q')"
    using inv oldest by (simp add: mq_pop_def mq_verify_init_def mq_inv_def)
  moreover have "mq_content ?q' = vs" unfolding mq_content_def w by (simp add: comp_def)
  moreover have "mq_inv ?q'" using inv w by (auto simp: mq_inv_def)
  ultimately show ?thesis by (intro that [of ?q']) simp_all
qed

lemma mq_unchecked_push_content:
  assumes inv: "mq_inv q" and room: "mq_len q < mq_capacity q"
  obtains q' where "mq_unchecked_push q v = Some q'" "mq_content q' = mq_content q @ [v]" "mq_inv q'"
    "mq_capacity q' = mq_capacity q"
proof -
  let ?i = "mq_start q mod mq_capacity q"
  let ?q' = "q\<lparr>mq_data := (mq_data q)[?i := Some v], mq_start := mq_start q + 1, mq_len := mq_len q + 1\<rparr>"
  from inv have len: "mq_len q \<le> mq_start q" "length (mq_data q) = mq_capacity q" by (simp_all add: mq_inv_def)
  have w: "mq_window ?q' = mq_window q @ [Some v]"
    using len room by (simp add: mq_window_def ring_window_append)
  have "mq_unchecked_push q v = Some ?q'"
    using len room by (simp add: mq_unchecked_push_def mq_slot_def)
  moreover have "mq_content ?q' = mq_content q @ [v]" unfolding mq_content_def w by simp
  moreover have "mq_inv ?q'" using inv room w by (auto simp: mq_inv_def)
  ultimately show ?thesis by (intro that [of ?q']) simp_all
qed

lemma mq_push_full:
  "mq_inv q \<Longrightarrow> mq_len q = mq_capacity q \<Longrightarrow> mq_push dbg q v = Some (False, q)"
  by (simp add: mq_push_def mq_verify_init_def mq_inv_def)

lemma mq_push_room:
  assumes inv: "mq_inv q" and room: "mq_len q < mq_capacity q"
  obtains q' where "mq_push dbg q v = Some (True, q')" "mq_content q' = mq_content q @ [v]" "mq_inv q'"
    "mq_capacity q' = mq_capacity q"
proof (rule mq_unchecked_push_content [OF assms, of v])
  fix q' assume "mq_unchecked_push q v = Some q'" "mq_content q' = mq_content q @ [v]" "mq_inv q'"
    "mq_capacity q' = mq_capacity q"
  with assms show ?thesis by (intro that [of q']) (simp_all add: mq_push_def mq_verify_init_def mq_inv_def)
qed

lemma mq_push_with_overflow_cases:
  assumes inv: "mq_inv q" and pos: "0 < mq_capacity q"
  obtains r q' where "mq_push_with_overflow dbg q v = Some (r, q')" "mq_inv q'" "mq_capacity q' = mq_capacity q"
    "if mq_len q < mq_capacity q then r = None \<and> mq_content q' = mq_content q @ [v]
     else r = Some (hd (mq_content q @ [v])) \<and> mq_content q' = tl (mq_content q @ [v])"
proof (cases "mq_len q < mq_capacity q")
  case True
  show ?thesis
  proof (rule mq_unchecked_push_content [OF inv True, of v])
    fix q' assume "mq_unchecked_push q v = Some q'" "mq_content q' = mq_content q @ [v]" "mq_inv q'"
      "mq_capacity q' = mq_capacity q"
    with inv True show ?thesis
      by (intro that [of None q']) (simp_all add: mq_push_with_overflow_def mq_verify_init_def mq_inv_def)
  qed
next
  case False
  with inv have full: "mq_len q = mq_capacity q" by (simp add: mq_inv_def)
  with pos inv obtain x xs where content: "mq_content q = x # xs"
    using mq_content_length [of q] by (cases "mq_content q") (auto simp: mq_inv_def)
  obtain q1 where q1: "mq_pop dbg q = Some (Some x, q1)" "mq_content q1 = xs" "mq_inv q1" "mq_capacity q1 = mq_capacity q"
    by (rule mq_pop_cons [OF inv content])
  from inv q1 content full have less: "mq_len q1 < mq_capacity q1"
    using mq_content_length [of q] mq_content_length [of q1] by (simp add: mq_inv_def)
  show ?thesis
  proof (rule mq_unchecked_push_content [OF q1(3) less, of v])
    fix q' assume "mq_unchecked_push q1 v = Some q'" "mq_content q' = mq_content q1 @ [v]" "mq_inv q'"
      "mq_capacity q' = mq_capacity q1"
    with inv q1 content full show ?thesis
      by (intro that [of "Some x" q']) (simp_all add: mq_push_with_overflow_def mq_verify_init_def mq_inv_def)
  qed
qed

text \<open>
  The queue keeps the promises of both queue interfaces, the overflowing one if it has a
  capacity; under the invariant no operation panics, so that the results are read off with \<open>the\<close>.
\<close>

abbreviation mq_pop_total :: "'a meta_queue \<Rightarrow> 'a option \<times> 'a meta_queue" where
  "mq_pop_total q \<equiv> the (mq_pop True q)"

abbreviation mq_push_total :: "'a meta_queue \<Rightarrow> 'a \<Rightarrow> bool \<times> 'a meta_queue" where
  "mq_push_total q v \<equiv> the (mq_push True q v)"

abbreviation mq_push_overflow_total :: "'a meta_queue \<Rightarrow> 'a \<Rightarrow> 'a option \<times> 'a meta_queue" where
  "mq_push_overflow_total q v \<equiv> the (mq_push_with_overflow True q v)"

lemma mq_pop_inv:
  assumes "mq_inv q"
  shows "mq_inv (snd (mq_pop_total q))" "mq_capacity (snd (mq_pop_total q)) = mq_capacity q"
proof -
  have "mq_inv (snd (mq_pop_total q)) \<and> mq_capacity (snd (mq_pop_total q)) = mq_capacity q"
  proof (cases "mq_content q")
    case Nil
    with assms show ?thesis by (simp add: mq_pop_empty)
  next
    case (Cons v vs)
    show ?thesis by (rule mq_pop_cons [OF assms Cons, of True]) simp
  qed
  then show "mq_inv (snd (mq_pop_total q))" "mq_capacity (snd (mq_pop_total q)) = mq_capacity q" by blast+
qed

lemma mq_bounded_queue: "bounded_queue mq_pop_total mq_capacity mq_content mq_inv"
proof
  fix q :: "'a meta_queue"
  assume inv: "mq_inv q"
  then show "length (mq_content q) \<le> mq_capacity q" by (simp add: mq_inv_def)
  show "mq_pop_total q = (None, q)" if "mq_content q = []" using mq_pop_empty [OF inv that] by simp
  show "mq_inv (snd (mq_pop_total q))" "mq_capacity (snd (mq_pop_total q)) = mq_capacity q"
    using mq_pop_inv [OF inv] .
  show "fst (mq_pop_total q) = Some v" "mq_content (snd (mq_pop_total q)) = vs" if "mq_content q = v # vs" for v vs
    by (rule mq_pop_cons [OF inv that, of True], simp)+
qed

interpretation mq: rejecting_queue mq_pop_total mq_capacity mq_content mq_inv mq_push_total
proof (intro rejecting_queue.intro mq_bounded_queue rejecting_queue_axioms.intro)
  fix q :: "'a meta_queue" and v :: 'a
  assume inv: "mq_inv q"
  then have len: "length (mq_content q) = mq_len q" by (simp add: mq_inv_def)
  show "mq_push_total q v = (False, q)" if "length (mq_content q) = mq_capacity q"
    using mq_push_full [OF inv, of True v] that len by simp
  show "fst (mq_push_total q v)" "mq_content (snd (mq_push_total q v)) = mq_content q @ [v]"
    if "length (mq_content q) < mq_capacity q"
    by (rule mq_push_room [OF inv that [unfolded len], of True v], simp)+
  have "mq_inv (snd (mq_push_total q v)) \<and> mq_capacity (snd (mq_push_total q v)) = mq_capacity q"
  proof (cases "mq_len q < mq_capacity q")
    case True
    show ?thesis by (rule mq_push_room [OF inv True, of True v]) simp
  next
    case False
    with inv have "mq_len q = mq_capacity q" by (simp add: mq_inv_def)
    with mq_push_full [OF inv this, of True v] inv show ?thesis by simp
  qed
  then show "mq_inv (snd (mq_push_total q v))" "mq_capacity (snd (mq_push_total q v)) = mq_capacity q" by blast+
qed

interpretation mqo: overflowing_queue mq_pop_total mq_capacity mq_content "\<lambda>q. mq_inv q \<and> 0 < mq_capacity q" mq_push_overflow_total
proof (intro overflowing_queue.intro bounded_queue.intro overflowing_queue_axioms.intro)
  fix q :: "'a meta_queue" and v :: 'a
  assume inv: "mq_inv q \<and> 0 < mq_capacity q"
  then have len: "length (mq_content q) = mq_len q" by (simp add: mq_inv_def)
  obtain r q' where push: "mq_push_with_overflow True q v = Some (r, q')" "mq_inv q'" "mq_capacity q' = mq_capacity q"
    "if mq_len q < mq_capacity q then r = None \<and> mq_content q' = mq_content q @ [v]
     else r = Some (hd (mq_content q @ [v])) \<and> mq_content q' = tl (mq_content q @ [v])"
    by (rule mq_push_with_overflow_cases [of q True v]) (use inv in simp_all)
  then show "mq_inv (snd (mq_push_overflow_total q v)) \<and> 0 < mq_capacity (snd (mq_push_overflow_total q v))"
    "mq_capacity (snd (mq_push_overflow_total q v)) = mq_capacity q"
    using inv by simp_all
  show "fst (mq_push_overflow_total q v) = None \<and> mq_content (snd (mq_push_overflow_total q v)) = mq_content q @ [v]"
    if "length (mq_content q) < mq_capacity q" using push that len by simp
  show "fst (mq_push_overflow_total q v) = Some (hd (mq_content q @ [v])) \<and>
      mq_content (snd (mq_push_overflow_total q v)) = tl (mq_content q @ [v])"
    if "length (mq_content q) = mq_capacity q" using push that len by simp
next
  fix q :: "'a meta_queue"
  assume inv: "mq_inv q \<and> 0 < mq_capacity q"
  then have i: "mq_inv q" by simp
  show "length (mq_content q) \<le> mq_capacity q" using mq.content_bound [OF i] .
  show "mq_pop_total q = (None, q)" if "mq_content q = []" using mq.pop_empty [OF i that] .
  show "mq_inv (snd (mq_pop_total q)) \<and> 0 < mq_capacity (snd (mq_pop_total q))"
    using mq_pop_inv [OF i] inv by simp
  show "mq_capacity (snd (mq_pop_total q)) = mq_capacity q" using mq_pop_inv [OF i] by simp
  show "fst (mq_pop_total q) = Some v" "mq_content (snd (mq_pop_total q)) = vs" if "mq_content q = v # vs" for v vs
    using mq.pop_result [OF i that] mq.pop_content [OF i that] .
qed

lemma mq_get_content:
  assumes inv: "mq_inv q" and i: "i < mq_len q"
  shows "mq_get dbg q i = Some (mq_content q ! i)"
proof -
  let ?r = "mq_start q - mq_len q"
  from inv i have len: "mq_len q \<le> mq_start q" "0 < mq_capacity q" "length (mq_data q) = mq_capacity q"
    by (auto simp: mq_inv_def)
  have "mq_window q ! i = Some (mq_content q ! i)"
    unfolding mq_window_content [OF inv] using len i by simp
  moreover have "mq_window q ! i = mq_data q ! ((?r + i) mod mq_capacity q)"
    unfolding mq_window_def using len i by (intro ring_window_nth) simp
  ultimately show ?thesis
    using len i by (simp add: mq_get_def mq_get_unchecked_def mq_slot_def mq_cell_def)
qed

lemma mq_peek_content:
  assumes inv: "mq_inv q"
  shows "mq_peek dbg q = Some (case mq_content q of [] \<Rightarrow> None | v # _ \<Rightarrow> Some v)"
proof (cases "mq_content q")
  case Nil
  with inv mq_content_length [of q] show ?thesis
    by (simp add: mq_peek_def mq_verify_init_def mq_is_empty_def mq_inv_def)
next
  case (Cons v vs)
  with inv mq_oldest(1) [OF inv Cons, of dbg] mq_oldest(2-4) [OF inv Cons] show ?thesis
    by (simp add: mq_peek_def mq_verify_init_def mq_inv_def)
qed

lemma mq_clear_empty:
  assumes "mq_inv q"
  shows "\<exists>q'. mq_clear dbg q = Some q' \<and> mq_inv q' \<and> mq_content q' = [] \<and> mq_capacity q' = mq_capacity q"
  using assms
proof (induction "mq_content q" arbitrary: q)
  case Nil
  from mq_pop_empty [OF Nil.prems Nil.hyps [symmetric], of dbg] Nil show ?case by (subst mq_clear.simps) simp
next
  case (Cons v vs)
  obtain q' where q': "mq_pop dbg q = Some (Some v, q')" "mq_content q' = vs" "mq_inv q'" "mq_capacity q' = mq_capacity q"
    by (rule mq_pop_cons [OF Cons.prems Cons.hyps(2) [symmetric], of dbg])
  with Cons.hyps(1) [of q'] show ?case by (subst mq_clear.simps) simp
qed

section \<open>Properties\<close>

text \<open>
  C15: Over every sequence of \<open>push_with_overflow\<close> and \<open>pop\<close> on a queue with a capacity, what was
  pushed is what came out, by \<open>pop\<close> or as overflow, followed by what is still queued, in order;
  \<open>get\<close> and \<open>peek\<close> read the queued elements from the oldest on, \<open>clear\<close> ends and leaves the queue
  empty, and no operation reads an uninitialised cell.
\<close>

theorem meta_queue_conserves:
  assumes "0 < capacity" and "run_overflowing mq_push_overflow_total mq_pop_total (mq_new capacity) ops = (taken, q)"
  shows "pushed ops = taken @ mq_content q \<and> mq_len q = length (mq_content q) \<and> mq_len q \<le> capacity \<and>
    (\<forall>i < mq_len q. mq_get dbg q i = Some (mq_content q ! i)) \<and>
    mq_peek dbg q = Some (if mq_is_empty q then None else Some (hd (mq_content q))) \<and>
    (\<exists>q'. mq_clear dbg q = Some q' \<and> mq_is_empty q')"
proof -
  from mqo.run_conserves [OF _ assms(2)] assms(1)
  have run: "pushed ops = taken @ mq_content q" "length (mq_content q) \<le> capacity" "mq_inv q" by simp_all
  from run(3) have len: "length (mq_content q) = mq_len q" by (simp add: mq_inv_def)
  have "mq_len q' = 0" if "mq_inv q'" "mq_content q' = []" for q' :: "'a meta_queue"
    using that mq_content_length [of q'] by (simp add: mq_inv_def)
  with mq_clear_empty [OF run(3), of dbg] have "\<exists>q'. mq_clear dbg q = Some q' \<and> mq_is_empty q'"
    by (auto simp: mq_is_empty_def)
  moreover have "mq_peek dbg q = Some (if mq_is_empty q then None else Some (hd (mq_content q)))"
    using mq_peek_content [OF run(3), of dbg] len by (cases "mq_content q") (simp_all add: mq_is_empty_def)
  ultimately show ?thesis using run len mq_get_content [OF run(3)] by simp
qed

theorem meta_queue_conserves_witness:
  "case run_overflowing mq_push_overflow_total mq_pop_total (mq_new 2) [Push (7::nat), Push 8, Push 9] of
     (taken, q) \<Rightarrow> taken = [7] \<and> mq_content q = [8, 9] \<and> mq_get True q 0 = Some 8"
proof -
  obtain taken q where run: "run_overflowing mq_push_overflow_total mq_pop_total (mq_new 2) [Push (7::nat), Push 8, Push 9] = (taken, q)"
    by fastforce
  have taken: "taken = [7]"
    using run by (simp add: mq_new_def mq_push_with_overflow_def mq_pop_def mq_unchecked_push_def mq_slot_def mq_cell_def
        mq_verify_init_def mq_is_empty_def slice_get_def slice_set_def usize_sub_def numeral_2_eq_2)
  note q = meta_queue_conserves [OF _ run, of True]
  from q taken have content: "mq_content q = [8, 9]" by simp
  with q have "mq_get True q 0 = Some (mq_content q ! 0)" by simp
  with run taken content show ?thesis by simp
qed

end
