(* ===== verification/Slot_Map.thy ===== *)
theory Slot_Map
  imports Container_Queue "HOL-Library.Multiset"
begin

text \<open>
  The slot map of \<^verbatim>\<open>iceoryx2-bb/container/src/slotmap.rs\<close> (\<open>MetaSlotMap\<close>): values are stored under
  stable keys. \<open>idx_to_data\<close> sends a key to the index of its value (or \<open>INVALID\<close>), a doubly linked
  list threads the free keys, and a queue holds the free data indices. The vectors inside are
  filled once when the map is set up and only indexed afterwards: each is the list of its
  elements, and indexing past the end panics.

  The map is used for the connections of a receiver and for the segments of resizable shared
  memory.
\<close>

section \<open>State and operations\<close>

type_synonym SlotMapKey = nat

definition INVALID :: nat where
  "INVALID = usize_max"

record free_list_entry =
  fl_previous :: nat
  fl_next :: nat

record 'a slot_map =
  sm_idx_to_data :: "nat list"
  sm_idx_to_data_free_list :: "free_list_entry list"
  sm_data :: "'a option list"
  sm_data_next_free_index :: "nat meta_queue"
  sm_idx_to_data_free_list_head :: nat
  sm_is_initialized :: bool
  sm_len :: nat

definition sm_capacity :: "'a slot_map \<Rightarrow> nat" where
  "sm_capacity m = length (sm_idx_to_data m)"

definition sm_is_empty :: "'a slot_map \<Rightarrow> bool" where
  "sm_is_empty m \<longleftrightarrow> sm_len m = 0"

definition sm_is_full :: "'a slot_map \<Rightarrow> bool" where
  "sm_is_full m \<longleftrightarrow> sm_len m = sm_capacity m"

definition sm_verify_init :: "bool \<Rightarrow> 'a slot_map \<Rightarrow> unit option" where
  "sm_verify_init dbg m = debug_assert dbg (sm_is_initialized m)"

text \<open>One round of the loop of \<open>initialize_data_structures\<close>.\<close>

definition sm_initialize_entry :: "bool \<Rightarrow> nat \<Rightarrow> 'a slot_map \<Rightarrow> nat \<Rightarrow> 'a slot_map option" where
  "sm_initialize_entry dbg capacity m n = do {
     (_, q) \<leftarrow> mq_push dbg (sm_data_next_free_index m) n;
     let previous = (if n = 0 then INVALID else n - 1);
     let next = (if n < capacity - 1 then n + 1 else INVALID);
     Some (m\<lparr>sm_idx_to_data := sm_idx_to_data m @ [INVALID],
             sm_data := sm_data m @ [None],
             sm_data_next_free_index := q,
             sm_idx_to_data_free_list := sm_idx_to_data_free_list m @ [\<lparr>fl_previous = previous, fl_next = next\<rparr>]\<rparr>) }"

definition sm_new :: "bool \<Rightarrow> nat \<Rightarrow> 'a slot_map option" where
  "sm_new dbg capacity =
     fold (\<lambda>n r. do { m \<leftarrow> r; sm_initialize_entry dbg capacity m n }) [0..<capacity]
       (Some \<lparr>sm_idx_to_data = [], sm_idx_to_data_free_list = [], sm_data = [], sm_data_next_free_index = mq_new capacity,
              sm_idx_to_data_free_list_head = 0, sm_is_initialized = True, sm_len = 0\<rparr>)"

text \<open>The first key in use from \<open>start\<close> on, with its value.\<close>

fun sm_next_available_key :: "'a slot_map \<Rightarrow> nat list \<Rightarrow> (SlotMapKey \<times> 'a) option option" where
  "sm_next_available_key m [] = Some None"
| "sm_next_available_key m (n # ns) = do {
     data_idx \<leftarrow> slice_get (sm_idx_to_data m) n;
     if data_idx \<noteq> INVALID
     then do { d \<leftarrow> slice_get (sm_data m) data_idx; v \<leftarrow> d; Some (Some (n, v)) }
     else sm_next_available_key m ns }"

definition sm_next_available_key_after :: "'a slot_map \<Rightarrow> SlotMapKey \<Rightarrow> (SlotMapKey \<times> 'a) option option" where
  "sm_next_available_key_after m start = sm_next_available_key m [start..<length (sm_idx_to_data m)]"

lemma sm_next_available_key_mem:
  "sm_next_available_key m ns = Some (Some (k, v)) \<Longrightarrow> k \<in> set ns"
  by (induction ns) (auto simp: bind_eq_Some_conv split: if_splits)

text \<open>All entries from \<open>key\<close> on, in the order of the iterator.\<close>

function sm_iter_from :: "'a slot_map \<Rightarrow> SlotMapKey \<Rightarrow> (SlotMapKey \<times> 'a) list option" where
  "sm_iter_from m key = do {
     r \<leftarrow> sm_next_available_key_after m key;
     case r of
       None \<Rightarrow> Some []
     | Some (next_key, v) \<Rightarrow> do { rest \<leftarrow> sm_iter_from m (next_key + 1); Some ((next_key, v) # rest) } }"
  by pat_completeness auto
termination
  by (relation "measure (\<lambda>(m, key). length (sm_idx_to_data m) - key)")
    (auto simp: sm_next_available_key_after_def dest!: sm_next_available_key_mem)

declare sm_iter_from.simps [simp del]

definition sm_iter :: "bool \<Rightarrow> 'a slot_map \<Rightarrow> (SlotMapKey \<times> 'a) list option" where
  "sm_iter dbg m = do { _ \<leftarrow> sm_verify_init dbg m; sm_iter_from m 0 }"

definition sm_contains :: "bool \<Rightarrow> 'a slot_map \<Rightarrow> SlotMapKey \<Rightarrow> bool option" where
  "sm_contains dbg m key = do {
     _ \<leftarrow> sm_verify_init dbg m;
     i \<leftarrow> slice_get (sm_idx_to_data m) key;
     Some (i \<noteq> INVALID) }"

definition sm_get :: "bool \<Rightarrow> 'a slot_map \<Rightarrow> SlotMapKey \<Rightarrow> 'a option option" where
  "sm_get dbg m key = do {
     _ \<leftarrow> sm_verify_init dbg m;
     n \<leftarrow> slice_get (sm_idx_to_data m) key;
     if n = INVALID then Some None
     else do { d \<leftarrow> slice_get (sm_data m) n; v \<leftarrow> d; Some (Some v) } }"

text \<open>\<open>get_mut\<close> with what the caller does to the value.\<close>

definition sm_get_mut :: "bool \<Rightarrow> 'a slot_map \<Rightarrow> SlotMapKey \<Rightarrow> ('a \<Rightarrow> 'a) \<Rightarrow> (bool \<times> 'a slot_map) option" where
  "sm_get_mut dbg m key f = do {
     _ \<leftarrow> sm_verify_init dbg m;
     n \<leftarrow> slice_get (sm_idx_to_data m) key;
     if n = INVALID then Some (False, m)
     else do {
       d \<leftarrow> slice_get (sm_data m) n;
       v \<leftarrow> d;
       Some (True, m\<lparr>sm_data := (sm_data m)[n := Some (f v)]\<rparr>) } }"

definition set_fl_previous :: "free_list_entry list \<Rightarrow> nat \<Rightarrow> nat \<Rightarrow> free_list_entry list option" where
  "set_fl_previous fl i p = do { e \<leftarrow> slice_get fl i; Some (fl[i := e\<lparr>fl_previous := p\<rparr>]) }"

definition set_fl_next :: "free_list_entry list \<Rightarrow> nat \<Rightarrow> nat \<Rightarrow> free_list_entry list option" where
  "set_fl_next fl i n = do { e \<leftarrow> slice_get fl i; Some (fl[i := e\<lparr>fl_next := n\<rparr>]) }"

definition sm_acquire_next_free_index :: "'a slot_map \<Rightarrow> (nat option \<times> 'a slot_map) option" where
  "sm_acquire_next_free_index m =
     (if sm_idx_to_data_free_list_head m = INVALID then Some (None, m)
      else do {
        let free_idx = sm_idx_to_data_free_list_head m;
        e \<leftarrow> slice_get (sm_idx_to_data_free_list m) free_idx;
        let next = fl_next e;
        fl \<leftarrow> (if next \<noteq> INVALID then set_fl_previous (sm_idx_to_data_free_list m) next INVALID
               else Some (sm_idx_to_data_free_list m));
        Some (Some free_idx, m\<lparr>sm_idx_to_data_free_list := fl, sm_idx_to_data_free_list_head := next\<rparr>) })"

definition sm_claim_index :: "'a slot_map \<Rightarrow> nat \<Rightarrow> 'a slot_map option" where
  "sm_claim_index m idx =
     (if idx \<ge> sm_capacity m then Some m
      else do {
        let fl0 = sm_idx_to_data_free_list m;
        entry \<leftarrow> slice_get fl0 idx;
        fl1 \<leftarrow> (if fl_previous entry \<noteq> INVALID then set_fl_next fl0 (fl_previous entry) (fl_next entry) else Some fl0);
        fl2 \<leftarrow> (if fl_next entry \<noteq> INVALID then set_fl_previous fl1 (fl_next entry) (fl_previous entry) else Some fl1);
        fl3 \<leftarrow> set_fl_next fl2 idx INVALID;
        fl4 \<leftarrow> set_fl_previous fl3 idx INVALID;
        Some (m\<lparr>sm_idx_to_data_free_list := fl4\<rparr>) })"

definition sm_release_free_index :: "'a slot_map \<Rightarrow> nat \<Rightarrow> 'a slot_map option" where
  "sm_release_free_index m idx = do {
     let head = sm_idx_to_data_free_list_head m;
     fl1 \<leftarrow> (if head \<noteq> INVALID then set_fl_previous (sm_idx_to_data_free_list m) head idx
             else Some (sm_idx_to_data_free_list m));
     fl2 \<leftarrow> slice_set fl1 idx \<lparr>fl_previous = INVALID, fl_next = head\<rparr>;
     Some (m\<lparr>sm_idx_to_data_free_list := fl2, sm_idx_to_data_free_list_head := idx\<rparr>) }"

definition sm_store_value :: "bool \<Rightarrow> 'a slot_map \<Rightarrow> SlotMapKey \<Rightarrow> 'a \<Rightarrow> (bool \<times> 'a slot_map) option" where
  "sm_store_value dbg m key value = do {
     _ \<leftarrow> sm_verify_init dbg m;
     if key > sm_capacity m then Some (False, m)
     else do {
       data_idx \<leftarrow> slice_get (sm_idx_to_data m) key;
       if data_idx \<noteq> INVALID
       then do {
         d \<leftarrow> slice_set (sm_data m) data_idx (Some value);
         Some (True, m\<lparr>sm_data := d\<rparr>) }
       else do {
         (r, q) \<leftarrow> mq_pop dbg (sm_data_next_free_index m);
         n \<leftarrow> r;
         i \<leftarrow> slice_set (sm_idx_to_data m) key n;
         d \<leftarrow> slice_set (sm_data m) n (Some value);
         Some (True, m\<lparr>sm_data_next_free_index := q, sm_idx_to_data := i, sm_data := d, sm_len := sm_len m + 1\<rparr>) } } }"

definition sm_insert :: "bool \<Rightarrow> 'a slot_map \<Rightarrow> 'a \<Rightarrow> (SlotMapKey option \<times> 'a slot_map) option" where
  "sm_insert dbg m value = do {
     _ \<leftarrow> sm_verify_init dbg m;
     (r, m1) \<leftarrow> sm_acquire_next_free_index m;
     case r of
       None \<Rightarrow> Some (None, m1)
     | Some key \<Rightarrow> do { (_, m2) \<leftarrow> sm_store_value dbg m1 key value; Some (Some key, m2) } }"

definition sm_insert_at :: "bool \<Rightarrow> 'a slot_map \<Rightarrow> SlotMapKey \<Rightarrow> 'a \<Rightarrow> (bool \<times> 'a slot_map) option" where
  "sm_insert_at dbg m key value = do {
     _ \<leftarrow> sm_verify_init dbg m;
     m1 \<leftarrow> sm_claim_index m key;
     sm_store_value dbg m1 key value }"

definition sm_remove :: "bool \<Rightarrow> 'a slot_map \<Rightarrow> SlotMapKey \<Rightarrow> (bool \<times> 'a slot_map) option" where
  "sm_remove dbg m key = do {
     _ \<leftarrow> sm_verify_init dbg m;
     if key > length (sm_idx_to_data m) then Some (False, m)
     else do {
       data_idx \<leftarrow> slice_get (sm_idx_to_data m) key;
       if data_idx \<noteq> INVALID
       then do {
         d \<leftarrow> slice_set (sm_data m) data_idx None;
         (push_result, q) \<leftarrow> mq_push dbg (sm_data_next_free_index m) data_idx;
         _ \<leftarrow> debug_assert dbg push_result;
         m1 \<leftarrow> sm_release_free_index (m\<lparr>sm_data := d, sm_data_next_free_index := q\<rparr>) key;
         i \<leftarrow> slice_set (sm_idx_to_data m1) key INVALID;
         Some (True, m1\<lparr>sm_idx_to_data := i, sm_len := sm_len m1 - 1\<rparr>) }
       else Some (False, m) } }"

definition sm_next_free_key :: "bool \<Rightarrow> 'a slot_map \<Rightarrow> SlotMapKey option option" where
  "sm_next_free_key dbg m = do {
     _ \<leftarrow> sm_verify_init dbg m;
     if sm_idx_to_data_free_list_head m = INVALID then Some None
     else Some (Some (sm_idx_to_data_free_list_head m)) }"

section \<open>Values: the map behind the keys\<close>

text \<open>
  The part of the invariant about keys, data indices and values: the data indices of the keys in
  use together with the queued free ones are each index once.
\<close>

abbreviation used_indices :: "nat list \<Rightarrow> nat multiset" where
  "used_indices idx \<equiv> filter_mset (\<lambda>i. i \<noteq> INVALID) (mset idx)"

definition sm_inv :: "'a slot_map \<Rightarrow> bool" where
  "sm_inv m \<longleftrightarrow> sm_is_initialized m \<and> length (sm_data m) = sm_capacity m \<and>
     length (sm_idx_to_data_free_list m) = sm_capacity m \<and> sm_capacity m < INVALID \<and>
     mq_inv (sm_data_next_free_index m) \<and> mq_capacity (sm_data_next_free_index m) = sm_capacity m \<and>
     used_indices (sm_idx_to_data m) + mset (mq_content (sm_data_next_free_index m)) = mset [0..<sm_capacity m] \<and>
     (\<forall>i \<in># used_indices (sm_idx_to_data m). sm_data m ! i \<noteq> None) \<and>
     sm_len m = size (used_indices (sm_idx_to_data m))"

definition sm_map :: "'a slot_map \<Rightarrow> SlotMapKey \<Rightarrow> 'a option" where
  "sm_map m k =
     (if k < sm_capacity m \<and> sm_idx_to_data m ! k \<noteq> INVALID then sm_data m ! (sm_idx_to_data m ! k) else None)"

lemma sm_invD:
  assumes "sm_inv m"
  shows "sm_is_initialized m" "length (sm_data m) = sm_capacity m" "length (sm_idx_to_data_free_list m) = sm_capacity m"
    "sm_capacity m < INVALID" "mq_inv (sm_data_next_free_index m)" "mq_capacity (sm_data_next_free_index m) = sm_capacity m"
    "used_indices (sm_idx_to_data m) + mset (mq_content (sm_data_next_free_index m)) = mset [0..<sm_capacity m]"
    "sm_len m = size (used_indices (sm_idx_to_data m))"
  using assms by (simp_all add: sm_inv_def)

lemma used_index_mem:
  assumes "k < length idx" "idx ! k \<noteq> INVALID"
  shows "idx ! k \<in># used_indices idx"
  using assms by simp

lemma used_index_less:
  assumes "sm_inv m" "i \<in># used_indices (sm_idx_to_data m)"
  shows "i < sm_capacity m"
proof -
  from assms(2) have "i \<in># used_indices (sm_idx_to_data m) + mset (mq_content (sm_data_next_free_index m))" by simp
  then show ?thesis unfolding sm_invD(7) [OF assms(1)] by simp
qed

lemma free_index_less:
  assumes "sm_inv m" "i \<in> set (mq_content (sm_data_next_free_index m))"
  shows "i < sm_capacity m" "i \<notin># used_indices (sm_idx_to_data m)"
proof -
  let ?M = "used_indices (sm_idx_to_data m)" and ?Q = "mset (mq_content (sm_data_next_free_index m))"
  from assms(2) have "i \<in># ?M + ?Q" by simp
  then show "i < sm_capacity m" unfolding sm_invD(7) [OF assms(1)] by simp
  have "count (?M + ?Q) i \<le> 1" unfolding sm_invD(7) [OF assms(1)] by (simp add: count_mset_set')
  moreover have "0 < count ?Q i" using assms(2) by simp
  ultimately show "i \<notin># ?M" by (simp only: count_union not_in_iff)
qed

text \<open>Different keys in use have different data indices.\<close>

lemma distinct_filter_nth_eq:
  assumes "distinct (filter P xs)" "i < length xs" "j < length xs" "P (xs ! i)" "xs ! i = xs ! j"
  shows "i = j"
  using assms
proof (induction xs arbitrary: i j)
  case (Cons x xs)
  then show ?case by (cases i; cases j) (auto split: if_splits)
qed simp

lemma used_keys_inj:
  assumes "sm_inv m" "k < sm_capacity m" "k' < sm_capacity m" "sm_idx_to_data m ! k \<noteq> INVALID"
    "sm_idx_to_data m ! k = sm_idx_to_data m ! k'"
  shows "k = k'"
proof (rule distinct_filter_nth_eq [of "\<lambda>i. i \<noteq> INVALID" "sm_idx_to_data m"])
  have "mset (filter (\<lambda>i. i \<noteq> INVALID) (sm_idx_to_data m) @ mq_content (sm_data_next_free_index m)) = mset [0..<sm_capacity m]"
    using sm_invD(7) [OF assms(1)] by simp
  then have "distinct (filter (\<lambda>i. i \<noteq> INVALID) (sm_idx_to_data m) @ mq_content (sm_data_next_free_index m))"
    using distinct_upt mset_eq_imp_distinct_iff by blast
  then show "distinct (filter (\<lambda>i. i \<noteq> INVALID) (sm_idx_to_data m))" by simp
qed (use assms in \<open>simp_all add: sm_capacity_def\<close>)

lemma used_indices_store:
  assumes "k < length idx" "idx ! k = INVALID" "n \<noteq> INVALID"
  shows "used_indices (idx[k := n]) = add_mset n (used_indices idx)"
  using assms by (simp add: mset_update)

lemma used_indices_clear:
  assumes "k < length idx" "idx ! k \<noteq> INVALID"
  shows "used_indices (idx[k := INVALID]) = used_indices idx - {#idx ! k#}"
  using assms by (simp add: mset_update)

text \<open>Lookups read the map.\<close>

lemma sm_data_used:
  assumes "sm_inv m" "k < sm_capacity m" "sm_idx_to_data m ! k \<noteq> INVALID"
  obtains v where "slice_get (sm_data m) (sm_idx_to_data m ! k) = Some (Some v)" "sm_map m k = Some v"
    "sm_idx_to_data m ! k < sm_capacity m"
proof -
  have u: "sm_idx_to_data m ! k \<in># used_indices (sm_idx_to_data m)"
    using assms by (intro used_index_mem) (simp_all add: sm_capacity_def)
  with used_index_less [OF assms(1)] have less: "sm_idx_to_data m ! k < sm_capacity m" by blast
  from u assms(1) have "sm_data m ! (sm_idx_to_data m ! k) \<noteq> None" unfolding sm_inv_def by blast
  then obtain v where "sm_data m ! (sm_idx_to_data m ! k) = Some v" by auto
  with less assms show ?thesis by (intro that [of v]) (simp_all add: sm_map_def sm_invD(2))
qed

lemma sm_get_map:
  assumes "sm_inv m" "k < sm_capacity m"
  shows "sm_get dbg m k = Some (sm_map m k)"
proof (cases "sm_idx_to_data m ! k = INVALID")
  case True
  with assms show ?thesis by (simp add: sm_get_def sm_map_def sm_verify_init_def sm_inv_def sm_capacity_def)
next
  case False
  from sm_data_used [OF assms False] obtain v where "slice_get (sm_data m) (sm_idx_to_data m ! k) = Some (Some v)"
    "sm_map m k = Some v" .
  with assms False show ?thesis by (simp add: sm_get_def sm_verify_init_def sm_inv_def sm_capacity_def)
qed

lemma sm_map_None_iff:
  assumes "sm_inv m" "k < sm_capacity m"
  shows "sm_map m k = None \<longleftrightarrow> sm_idx_to_data m ! k = INVALID"
proof (cases "sm_idx_to_data m ! k = INVALID")
  case False
  from sm_data_used [OF assms False] obtain v where "sm_map m k = Some v" .
  with False show ?thesis by simp
qed (simp add: sm_map_def)

lemma sm_contains_map:
  assumes "sm_inv m" "k < sm_capacity m"
  shows "sm_contains dbg m k = Some (sm_map m k \<noteq> None)"
  using assms sm_map_None_iff [OF assms]
  by (simp add: sm_contains_def sm_verify_init_def sm_inv_def sm_capacity_def)

text \<open>The number of values is the number of keys in use; a free key means a free data index.\<close>

lemma dom_sm_map: "sm_inv m \<Longrightarrow> dom (sm_map m) = {k. k < sm_capacity m \<and> sm_idx_to_data m ! k \<noteq> INVALID}"
proof (intro set_eqI)
  fix k assume "sm_inv m"
  then show "k \<in> dom (sm_map m) \<longleftrightarrow> k \<in> {k. k < sm_capacity m \<and> sm_idx_to_data m ! k \<noteq> INVALID}"
    using sm_map_None_iff [of m k] by (cases "k < sm_capacity m") (auto simp: domIff sm_map_def)
qed

lemma size_used_indices: "size (used_indices idx) = length (filter (\<lambda>i. i \<noteq> INVALID) idx)"
  by (metis mset_filter size_mset)

lemma sm_len_card: "sm_inv m \<Longrightarrow> sm_len m = card (dom (sm_map m))"
  by (simp add: sm_invD(8) size_used_indices dom_sm_map length_filter_conv_card sm_capacity_def)

lemma sm_free_available:
  assumes "sm_inv m" "k < sm_capacity m" "sm_idx_to_data m ! k = INVALID"
  obtains n ns where "mq_content (sm_data_next_free_index m) = n # ns"
proof (cases "mq_content (sm_data_next_free_index m)")
  case Nil
  with sm_invD(7) [OF assms(1)] have "size (used_indices (sm_idx_to_data m)) = sm_capacity m"
    by (metis add.right_neutral diff_zero length_upt mset.simps(1) size_mset)
  moreover have "length (filter (\<lambda>i. i \<noteq> INVALID) (sm_idx_to_data m)) < length (sm_idx_to_data m)"
    using assms nth_mem [of k "sm_idx_to_data m"] by (intro length_filter_less [of INVALID]) (simp_all add: sm_capacity_def)
  ultimately show ?thesis by (simp add: sm_capacity_def size_used_indices)
qed (use that in blast)

text \<open>Changing the value of a key in use.\<close>

lemma sm_map_overwrite:
  fixes m :: "'a slot_map" and v :: 'a
  assumes inv: "sm_inv m" and k: "k < sm_capacity m" "sm_idx_to_data m ! k \<noteq> INVALID"
  defines "m' \<equiv> m\<lparr>sm_data := (sm_data m)[sm_idx_to_data m ! k := Some v]\<rparr>"
  shows "sm_inv m'" "sm_map m' = (sm_map m)(k \<mapsto> v)"
proof -
  have less: "sm_idx_to_data m ! k < sm_capacity m"
    by (rule sm_data_used [OF inv k])
  show "sm_inv m'"
    using inv less by (auto simp: sm_inv_def m'_def sm_capacity_def nth_list_update)
  show "sm_map m' = (sm_map m)(k \<mapsto> v)"
  proof
    fix j show "sm_map m' j = ((sm_map m)(k \<mapsto> v)) j"
      using used_keys_inj [OF inv k(1) _ k(2), of j] less k sm_invD(2) [OF inv]
      by (auto simp: sm_map_def m'_def sm_capacity_def nth_list_update)
  qed
qed

text \<open>Giving a free key a value.\<close>

lemma sm_map_store:
  fixes m :: "'a slot_map" and v :: 'a
  assumes inv: "sm_inv m" and k: "k < sm_capacity m" "sm_idx_to_data m ! k = INVALID"
    and q: "mq_content (sm_data_next_free_index m) = n # mq_content q" "mq_inv q" "mq_capacity q = sm_capacity m"
  defines "m' \<equiv> m\<lparr>sm_data_next_free_index := q, sm_idx_to_data := (sm_idx_to_data m)[k := n],
      sm_data := (sm_data m)[n := Some v], sm_len := sm_len m + 1\<rparr>"
  shows "sm_inv m'" "sm_map m' = (sm_map m)(k \<mapsto> v)"
proof -
  note D = sm_invD [OF inv]
  have n: "n < sm_capacity m" "n \<notin># used_indices (sm_idx_to_data m)"
    using free_index_less [OF inv, of n] q(1) by simp_all
  then have n': "n \<noteq> INVALID" using D(4) by simp
  have used: "used_indices ((sm_idx_to_data m)[k := n]) = add_mset n (used_indices (sm_idx_to_data m))"
    using k n' by (intro used_indices_store) (simp_all add: sm_capacity_def)
  have vals: "(sm_data m)[n := Some v] ! i \<noteq> None" if "i \<in># used_indices ((sm_idx_to_data m)[k := n])" for i
    using that inv n(1) D(2) unfolding used sm_inv_def by (cases "i = n") auto
  show "sm_inv m'"
    unfolding sm_inv_def
  proof (intro conjI)
    show "used_indices (sm_idx_to_data m') + mset (mq_content (sm_data_next_free_index m')) = mset [0..<sm_capacity m']"
      using D(7) q(1) used by (simp add: m'_def sm_capacity_def)
    show "\<forall>i \<in># used_indices (sm_idx_to_data m'). sm_data m' ! i \<noteq> None"
      using vals by (simp add: m'_def)
    show "sm_len m' = size (used_indices (sm_idx_to_data m'))" using D(8) used by (simp add: m'_def)
  qed (use D q in \<open>simp_all add: m'_def sm_capacity_def\<close>)
  show "sm_map m' = (sm_map m)(k \<mapsto> v)"
  proof
    fix j
    have "sm_idx_to_data m ! j \<noteq> n" if "j < sm_capacity m" "sm_idx_to_data m ! j \<noteq> INVALID"
      using used_index_mem [of j "sm_idx_to_data m"] that n(2) by (auto simp: sm_capacity_def)
    then show "sm_map m' j = ((sm_map m)(k \<mapsto> v)) j"
      using n(1) n' k D(2) by (auto simp: sm_map_def m'_def sm_capacity_def nth_list_update)
  qed
qed

lemma sm_store_value_map:
  assumes inv: "sm_inv m" and k: "k < sm_capacity m"
  obtains m' where "sm_store_value dbg m k v = Some (True, m')" "sm_inv m'" "sm_map m' = (sm_map m)(k \<mapsto> v)"
    "sm_capacity m' = sm_capacity m" "sm_idx_to_data_free_list m' = sm_idx_to_data_free_list m"
    "sm_idx_to_data_free_list_head m' = sm_idx_to_data_free_list_head m"
proof (cases "sm_idx_to_data m ! k = INVALID")
  case False
  have "sm_idx_to_data m ! k < sm_capacity m" by (rule sm_data_used [OF inv k False])
  with False k sm_map_overwrite [OF inv k False, of v] sm_invD(1,2) [OF inv] show ?thesis
    by (intro that [of "m\<lparr>sm_data := (sm_data m)[sm_idx_to_data m ! k := Some v]\<rparr>"])
      (simp_all add: sm_store_value_def sm_verify_init_def sm_capacity_def)
next
  case True
  obtain n ns where ns: "mq_content (sm_data_next_free_index m) = n # ns" by (rule sm_free_available [OF inv k True])
  obtain q where q: "mq_pop dbg (sm_data_next_free_index m) = Some (Some n, q)" "mq_content q = ns" "mq_inv q"
    "mq_capacity q = sm_capacity m"
    by (rule mq_pop_cons [OF sm_invD(5) [OF inv] ns, of dbg]) (use sm_invD(6) [OF inv] in simp)
  have "n < sm_capacity m" using free_index_less(1) [OF inv, of n] ns by simp
  with True k q ns sm_map_store [OF inv k True, of n q v] sm_invD(1,2) [OF inv] show ?thesis
    by (intro that [of "m\<lparr>sm_data_next_free_index := q, sm_idx_to_data := (sm_idx_to_data m)[k := n],
          sm_data := (sm_data m)[n := Some v], sm_len := sm_len m + 1\<rparr>"])
      (simp_all add: sm_store_value_def sm_verify_init_def sm_capacity_def)
qed

text \<open>The links of the free list do not matter for the values.\<close>

lemma sm_inv_links [simp]:
  "length fl = length (sm_idx_to_data_free_list m) \<Longrightarrow>
   sm_inv (m\<lparr>sm_idx_to_data_free_list := fl, sm_idx_to_data_free_list_head := h\<rparr>) = sm_inv m"
  "length fl = length (sm_idx_to_data_free_list m) \<Longrightarrow> sm_inv (m\<lparr>sm_idx_to_data_free_list := fl\<rparr>) = sm_inv m"
  by (simp_all add: sm_inv_def sm_capacity_def)

lemma sm_map_links [simp]:
  "sm_map (m\<lparr>sm_idx_to_data_free_list := fl, sm_idx_to_data_free_list_head := h\<rparr>) = sm_map m"
  "sm_map (m\<lparr>sm_idx_to_data_free_list := fl\<rparr>) = sm_map m"
  by (simp_all add: sm_map_def sm_capacity_def fun_eq_iff)

lemma sm_capacity_links [simp]:
  "sm_capacity (m\<lparr>sm_idx_to_data_free_list := fl, sm_idx_to_data_free_list_head := h\<rparr>) = sm_capacity m"
  "sm_capacity (m\<lparr>sm_idx_to_data_free_list := fl\<rparr>) = sm_capacity m"
  by (simp_all add: sm_capacity_def)

text \<open>Taking a value out, the links aside.\<close>

lemma sm_map_remove:
  assumes inv: "sm_inv m" and k: "k < sm_capacity m" "sm_idx_to_data m ! k \<noteq> INVALID"
    and q: "mq_content q = mq_content (sm_data_next_free_index m) @ [sm_idx_to_data m ! k]" "mq_inv q"
      "mq_capacity q = sm_capacity m"
  defines "m' \<equiv> m\<lparr>sm_data := (sm_data m)[sm_idx_to_data m ! k := None], sm_data_next_free_index := q,
      sm_idx_to_data := (sm_idx_to_data m)[k := INVALID], sm_len := sm_len m - 1\<rparr>"
  shows "sm_inv m'" "sm_map m' = (sm_map m)(k := None)"
proof -
  note D = sm_invD [OF inv]
  let ?i = "sm_idx_to_data m ! k" and ?M = "used_indices (sm_idx_to_data m)"
  have i: "?i \<in># ?M" using k by (intro used_index_mem) (simp_all add: sm_capacity_def)
  have used: "used_indices ((sm_idx_to_data m)[k := INVALID]) = ?M - {#?i#}"
    using k by (intro used_indices_clear) (simp_all add: sm_capacity_def)
  have "count (?M + mset (mq_content (sm_data_next_free_index m))) ?i \<le> 1"
    unfolding D(7) by (simp add: count_mset_set')
  then have once: "?i \<notin># ?M - {#?i#}" by (simp add: not_in_iff)
  show "sm_inv m'"
    unfolding sm_inv_def
  proof (intro conjI)
    have "?M - {#?i#} + {#?i#} = ?M" using i by simp
    then show "used_indices (sm_idx_to_data m') + mset (mq_content (sm_data_next_free_index m')) = mset [0..<sm_capacity m']"
      using D(7) q(1) used by (simp add: m'_def sm_capacity_def) (metis add_mset_add_single union_assoc union_commute)
    show "\<forall>j \<in># used_indices (sm_idx_to_data m'). sm_data m' ! j \<noteq> None"
    proof
      fix j assume "j \<in># used_indices (sm_idx_to_data m')"
      then have j: "j \<in># ?M - {#?i#}" using used by (simp add: m'_def)
      with once have "j \<noteq> ?i" by auto
      with in_diffD [OF j] inv show "sm_data m' ! j \<noteq> None" by (simp add: m'_def sm_inv_def)
    qed
    show "sm_len m' = size (used_indices (sm_idx_to_data m'))"
      using D(8) used i by (simp add: m'_def size_Diff_singleton)
  qed (use D q in \<open>simp_all add: m'_def sm_capacity_def\<close>)
  show "sm_map m' = (sm_map m)(k := None)"
  proof
    fix j show "sm_map m' j = ((sm_map m)(k := None)) j"
      using used_keys_inj [OF inv k(1) _ k(2), of j] k D(2) used_index_less [OF inv i]
      by (auto simp: sm_map_def m'_def sm_capacity_def nth_list_update)
  qed
qed

section \<open>Keys: the free list\<close>

text \<open>All links lead to keys or nowhere.\<close>

definition link_ok :: "nat \<Rightarrow> nat \<Rightarrow> bool" where
  "link_ok cap i \<longleftrightarrow> i = INVALID \<or> i < cap"

definition sm_links :: "'a slot_map \<Rightarrow> bool" where
  "sm_links m \<longleftrightarrow> link_ok (sm_capacity m) (sm_idx_to_data_free_list_head m) \<and>
     (\<forall>e \<in> set (sm_idx_to_data_free_list m). link_ok (sm_capacity m) (fl_previous e) \<and> link_ok (sm_capacity m) (fl_next e))"

abbreviation links_ok :: "nat \<Rightarrow> free_list_entry list \<Rightarrow> bool" where
  "links_ok cap fl \<equiv> \<forall>e \<in> set fl. link_ok cap (fl_previous e) \<and> link_ok cap (fl_next e)"

lemma links_ok_update:
  "links_ok cap fl \<Longrightarrow> link_ok cap (fl_previous e) \<Longrightarrow> link_ok cap (fl_next e) \<Longrightarrow> links_ok cap (fl[i := e])"
  by (auto dest!: set_update_subset_insert [THEN subsetD])

lemma set_fl_previous_links:
  assumes "links_ok cap fl" "link_ok cap p" "i < length fl"
  obtains fl' where "set_fl_previous fl i p = Some fl'" "links_ok cap fl'" "length fl' = length fl"
proof (rule that)
  show "set_fl_previous fl i p = Some (fl[i := (fl ! i)\<lparr>fl_previous := p\<rparr>])" using assms(3) by (simp add: set_fl_previous_def)
  show "links_ok cap (fl[i := (fl ! i)\<lparr>fl_previous := p\<rparr>])" using assms by (intro links_ok_update) simp_all
qed simp

lemma set_fl_next_links:
  assumes "links_ok cap fl" "link_ok cap p" "i < length fl"
  obtains fl' where "set_fl_next fl i p = Some fl'" "links_ok cap fl'" "length fl' = length fl"
proof (rule that)
  show "set_fl_next fl i p = Some (fl[i := (fl ! i)\<lparr>fl_next := p\<rparr>])" using assms(3) by (simp add: set_fl_next_def)
  show "links_ok cap (fl[i := (fl ! i)\<lparr>fl_next := p\<rparr>])" using assms by (intro links_ok_update) simp_all
qed simp

text \<open>The free keys in the order in which the links lead to them.\<close>

fun free_chain :: "free_list_entry list \<Rightarrow> nat \<Rightarrow> nat list \<Rightarrow> bool" where
  "free_chain fl i [] \<longleftrightarrow> i = INVALID"
| "free_chain fl i (f # fs) \<longleftrightarrow> i = f \<and> f < length fl \<and> free_chain fl (fl_next (fl ! f)) fs"

definition sm_free :: "'a slot_map \<Rightarrow> nat list \<Rightarrow> bool" where
  "sm_free m fs \<longleftrightarrow> distinct fs \<and> free_chain (sm_idx_to_data_free_list m) (sm_idx_to_data_free_list_head m) fs \<and>
     set fs = {k. k < sm_capacity m \<and> sm_idx_to_data m ! k = INVALID}"

lemma free_chain_cong:
  "\<forall>f \<in> set fs. fl_next (fl' ! f) = fl_next (fl ! f) \<Longrightarrow> length fl' = length fl \<Longrightarrow> free_chain fl' i fs = free_chain fl i fs"
  by (induction fs arbitrary: i) auto

lemma set_fl_previous_next:
  assumes "i < length fl"
  obtains fl' where "set_fl_previous fl i p = Some fl'" "length fl' = length fl" "\<forall>j. fl_next (fl' ! j) = fl_next (fl ! j)"
proof (rule that)
  show "set_fl_previous fl i p = Some (fl[i := (fl ! i)\<lparr>fl_previous := p\<rparr>])" using assms by (simp add: set_fl_previous_def)
  show "\<forall>j. fl_next (fl[i := (fl ! i)\<lparr>fl_previous := p\<rparr>] ! j) = fl_next (fl ! j)"
    using assms by (simp add: nth_list_update)
qed simp

lemma sm_free_head:
  assumes "sm_inv m" "sm_free m fs"
  shows "sm_idx_to_data_free_list_head m = (case fs of [] \<Rightarrow> INVALID | f # _ \<Rightarrow> f)"
    "\<forall>f \<in> set fs. f < sm_capacity m \<and> f \<noteq> INVALID"
  using assms by (cases fs; auto simp: sm_free_def sm_inv_def)+

lemma sm_free_dom: "sm_inv m \<Longrightarrow> sm_free m fs \<Longrightarrow> set fs = {k. k < sm_capacity m \<and> sm_map m k = None}"
  using sm_map_None_iff [of m] by (auto simp: sm_free_def)

lemma sm_acquire_next_free_index_cases:
  assumes inv: "sm_inv m" and free: "sm_free m (f # fs)"
  obtains fl where "sm_acquire_next_free_index m = Some (Some f,
      m\<lparr>sm_idx_to_data_free_list := fl, sm_idx_to_data_free_list_head := (case fs of [] \<Rightarrow> INVALID | g # _ \<Rightarrow> g)\<rparr>)"
    "length fl = length (sm_idx_to_data_free_list m)"
    "free_chain fl (case fs of [] \<Rightarrow> INVALID | g # _ \<Rightarrow> g) fs"
    "sm_links m \<longrightarrow> links_ok (sm_capacity m) fl \<and> link_ok (sm_capacity m) (case fs of [] \<Rightarrow> INVALID | g # _ \<Rightarrow> g)"
proof -
  let ?fl = "sm_idx_to_data_free_list m"
  note D = sm_invD [OF inv] and H = sm_free_head [OF inv free]
  from free have chain: "free_chain ?fl (fl_next (?fl ! f)) fs" and f: "f < length ?fl" "f \<noteq> INVALID"
    using H D(3) by (auto simp: sm_free_def)
  show ?thesis
  proof (cases fs)
    case Nil
    with chain f H D show ?thesis
      by (intro that [of ?fl]) (simp_all add: sm_acquire_next_free_index_def sm_links_def link_ok_def)
  next
    case (Cons g gs)
    with chain H D(3) have nx: "fl_next (?fl ! f) = g" "g \<noteq> INVALID" "g < length ?fl" by auto
    let ?fl' = "?fl[g := (?fl ! g)\<lparr>fl_previous := INVALID\<rparr>]"
    have "\<forall>j. fl_next (?fl' ! j) = fl_next (?fl ! j)" using nx(3) by (simp add: nth_list_update)
    with chain nx(1) have "free_chain ?fl' g fs" using free_chain_cong [of fs ?fl' ?fl g] by simp
    moreover have "links_ok (sm_capacity m) ?fl'" if "sm_links m"
      using that nx(3) by (intro links_ok_update) (simp_all add: sm_links_def link_ok_def)
    ultimately show ?thesis using nx f H D Cons
      by (intro that [of ?fl']) (simp_all add: sm_acquire_next_free_index_def set_fl_previous_def link_ok_def)
  qed
qed

lemma sm_insert_full:
  assumes "sm_inv m" "sm_free m []"
  shows "sm_insert dbg m v = Some (None, m)"
  using assms sm_free_head [OF assms]
  by (simp add: sm_insert_def sm_acquire_next_free_index_def sm_verify_init_def sm_invD(1))

lemma sm_insert_free:
  assumes inv: "sm_inv m" and free: "sm_free m (f # fs)"
  obtains m' where "sm_insert dbg m v = Some (Some f, m')" "sm_inv m'" "sm_free m' fs"
    "sm_map m' = (sm_map m)(f \<mapsto> v)" "sm_capacity m' = sm_capacity m" "sm_links m \<longrightarrow> sm_links m'"
proof -
  obtain fl h where acq: "sm_acquire_next_free_index m = Some (Some f,
      m\<lparr>sm_idx_to_data_free_list := fl, sm_idx_to_data_free_list_head := h\<rparr>)"
    "length fl = length (sm_idx_to_data_free_list m)" "free_chain fl h fs"
    "sm_links m \<longrightarrow> links_ok (sm_capacity m) fl \<and> link_ok (sm_capacity m) h"
    by (rule sm_acquire_next_free_index_cases [OF inv free])
  let ?m1 = "m\<lparr>sm_idx_to_data_free_list := fl, sm_idx_to_data_free_list_head := h\<rparr>"
  have f: "f < sm_capacity m" "sm_idx_to_data m ! f = INVALID" "f \<notin> set fs"
    using free by (auto simp: sm_free_def)
  have inv1: "sm_inv ?m1" using inv acq(2) by simp
  have "f < sm_capacity ?m1" using f(1) by simp
  with inv1 obtain m' where m': "sm_store_value dbg ?m1 f v = Some (True, m')" "sm_inv m'"
    "sm_map m' = (sm_map ?m1)(f \<mapsto> v)" "sm_capacity m' = sm_capacity ?m1"
    "sm_idx_to_data_free_list m' = fl" "sm_idx_to_data_free_list_head m' = h"
    by (rule sm_store_value_map [of ?m1 f dbg v]) simp_all
  have "set (f # fs) = {k. k < sm_capacity m \<and> sm_map m k = None}" using sm_free_dom [OF inv free] .
  then have "set fs = {k. k < sm_capacity m' \<and> sm_map m' k = None}" using f(3) m'(3,4) by auto
  then have "set fs = {k. k < sm_capacity m' \<and> sm_idx_to_data m' ! k = INVALID}"
    using sm_map_None_iff [OF m'(2)] by auto
  with m'(4-6) acq(3) free have "sm_free m' fs" by (simp add: sm_free_def)
  moreover have "sm_insert dbg m v = Some (Some f, m')"
    using acq(1) m'(1) sm_invD(1) [OF inv] by (simp add: sm_insert_def sm_verify_init_def)
  moreover have "sm_links m \<longrightarrow> sm_links m'"
    using acq(4) m'(4) unfolding sm_links_def [of m'] m'(5,6) sm_capacity_links by simp
  ultimately show ?thesis using m'(2-4) by (intro that [of m']) simp_all
qed

lemma sm_remove_unused:
  assumes "sm_inv m" "k < sm_capacity m" "sm_map m k = None"
  shows "sm_remove dbg m k = Some (False, m)"
  using assms sm_map_None_iff [OF assms(1,2)]
  by (simp add: sm_remove_def sm_verify_init_def sm_invD(1) sm_capacity_def)

text \<open>
  Removing works on the values whatever the state of the free list; if the list is intact, it is
  afterwards.
\<close>

lemma sm_remove_used:
  assumes inv: "sm_inv m" and k: "k < sm_capacity m" "sm_map m k \<noteq> None"
    and head: "sm_idx_to_data_free_list_head m = INVALID \<or> sm_idx_to_data_free_list_head m < sm_capacity m"
  obtains m' where "sm_remove dbg m k = Some (True, m')" "sm_inv m'" "sm_map m' = (sm_map m)(k := None)"
    "sm_capacity m' = sm_capacity m" "sm_idx_to_data_free_list_head m' = k"
    "\<forall>fs. sm_free m fs \<longrightarrow> sm_free m' (k # fs)" "sm_links m \<longrightarrow> sm_links m'"
proof -
  note D = sm_invD [OF inv]
  let ?i = "sm_idx_to_data m ! k" and ?fl = "sm_idx_to_data_free_list m" and ?h = "sm_idx_to_data_free_list_head m"
  from k sm_map_None_iff [OF inv] have used: "?i \<noteq> INVALID" by simp
  have i: "?i < sm_capacity m" by (rule sm_data_used [OF inv k(1) used])
  have "length (mq_content (sm_data_next_free_index m)) < sm_capacity m"
  proof -
    have "size (used_indices (sm_idx_to_data m)) + length (mq_content (sm_data_next_free_index m)) = sm_capacity m"
      using arg_cong [where f = size, OF D(7)] by simp
    moreover have "?i \<in># used_indices (sm_idx_to_data m)" using used k by (intro used_index_mem) (simp_all add: sm_capacity_def)
    then have "0 < size (used_indices (sm_idx_to_data m))" by (metis empty_iff gr0I set_mset_empty size_eq_0_iff_empty)
    ultimately show ?thesis by simp
  qed
  moreover have "length (mq_content (sm_data_next_free_index m)) = mq_len (sm_data_next_free_index m)"
    using D(5) by (simp add: mq_inv_def)
  ultimately have room: "mq_len (sm_data_next_free_index m) < mq_capacity (sm_data_next_free_index m)" using D(6) by simp
  obtain q where q: "mq_push dbg (sm_data_next_free_index m) ?i = Some (True, q)"
    "mq_content q = mq_content (sm_data_next_free_index m) @ [?i]" "mq_inv q" "mq_capacity q = sm_capacity m"
    by (rule mq_push_room [OF D(5) room, of dbg ?i]) (use D(6) in simp)
  obtain fl1 where fl1: "(if ?h \<noteq> INVALID then set_fl_previous ?fl ?h k else Some ?fl) = Some fl1"
    "length fl1 = length ?fl" "\<forall>j. fl_next (fl1 ! j) = fl_next (?fl ! j)" "sm_links m \<longrightarrow> links_ok (sm_capacity m) fl1"
  proof (cases "?h = INVALID")
    case False
    then have h: "?h < length ?fl" using head D(3) by simp
    let ?fl' = "?fl[?h := (?fl ! ?h)\<lparr>fl_previous := k\<rparr>]"
    have "links_ok (sm_capacity m) ?fl'" if "sm_links m"
      using that h k(1) by (intro links_ok_update) (simp_all add: sm_links_def link_ok_def)
    with False h show ?thesis by (intro that [of ?fl']) (simp_all add: set_fl_previous_def nth_list_update)
  qed (use that in \<open>auto simp: sm_links_def\<close>)
  let ?e = "\<lparr>fl_previous = INVALID, fl_next = ?h\<rparr>"
  let ?v = "m\<lparr>sm_data := (sm_data m)[?i := None], sm_data_next_free_index := q,
      sm_idx_to_data := (sm_idx_to_data m)[k := INVALID], sm_len := sm_len m - 1\<rparr>"
  let ?m' = "?v\<lparr>sm_idx_to_data_free_list := fl1[k := ?e], sm_idx_to_data_free_list_head := k\<rparr>"
  note v = sm_map_remove [OF inv k(1) used q(2-4)]
  have "sm_remove dbg m k = Some (True, ?m')"
    using k used i D(1-3) q(1) fl1(1,2)
    by (cases "?h = INVALID") (simp_all add: sm_remove_def sm_verify_init_def sm_release_free_index_def sm_capacity_def)
  moreover have "sm_inv ?m'" "sm_map ?m' = (sm_map m)(k := None)"
    using v fl1(2) by (simp_all only: sm_inv_links sm_map_links length_list_update) simp_all
  moreover have "sm_free ?m' (k # fs)" if free: "sm_free m fs" for fs
  proof -
    from free k used have "k \<notin> set fs" by (auto simp: sm_free_def)
    then have "\<forall>f \<in> set fs. fl_next (fl1[k := ?e] ! f) = fl_next (?fl ! f)" using fl1(3) by (metis nth_list_update_neq)
    from free_chain_cong [OF this] fl1(2) free have "free_chain (fl1[k := ?e]) ?h fs" by (simp add: sm_free_def)
    then show ?thesis
      using free \<open>k \<notin> set fs\<close> k(1) fl1(2) D(3) by (auto simp: sm_free_def sm_capacity_def nth_list_update split: if_splits)
  qed
  moreover have "sm_links ?m'" if "sm_links m"
  proof -
    have "links_ok (sm_capacity m) (fl1[k := ?e])"
      using that fl1(4) by (intro links_ok_update) (simp_all add: sm_links_def link_ok_def)
    with k(1) show ?thesis by (simp add: sm_links_def link_ok_def sm_capacity_def)
  qed
  ultimately show ?thesis by (intro that [of ?m']) (simp_all add: sm_capacity_def)
qed

text \<open>A fresh map: all keys free, in ascending order.\<close>

definition fresh_entry :: "nat \<Rightarrow> nat \<Rightarrow> free_list_entry" where
  "fresh_entry capacity n = \<lparr>fl_previous = (if n = 0 then INVALID else n - 1),
     fl_next = (if n < capacity - 1 then n + 1 else INVALID)\<rparr>"

definition fresh_prefix :: "nat \<Rightarrow> nat \<Rightarrow> nat meta_queue \<Rightarrow> 'a slot_map" where
  "fresh_prefix capacity n q =
     \<lparr>sm_idx_to_data = replicate n INVALID, sm_idx_to_data_free_list = map (fresh_entry capacity) [0..<n],
      sm_data = replicate n None, sm_data_next_free_index = q, sm_idx_to_data_free_list_head = 0,
      sm_is_initialized = True, sm_len = 0\<rparr>"

lemma sm_initialize_prefix:
  assumes "n \<le> capacity"
  shows "\<exists>q. fold (\<lambda>n r. do { m \<leftarrow> r; sm_initialize_entry dbg capacity m n }) [0..<n]
      (Some (fresh_prefix capacity 0 (mq_new capacity) :: 'a slot_map)) = Some (fresh_prefix capacity n q) \<and>
    mq_inv q \<and> mq_content q = [0..<n] \<and> mq_capacity q = capacity"
  using assms
proof (induction n)
  case (Suc n)
  then have "n \<le> capacity" by simp
  from Suc.IH [OF this] obtain q where q: "fold (\<lambda>n r. do { m \<leftarrow> r; sm_initialize_entry dbg capacity m n }) [0..<n]
      (Some (fresh_prefix capacity 0 (mq_new capacity) :: 'a slot_map)) = Some (fresh_prefix capacity n q)"
    "mq_inv q" "mq_content q = [0..<n]" "mq_capacity q = capacity" by blast
  have "mq_len q < mq_capacity q" using mq_content_length [of q] q(2-4) Suc.prems by (simp add: mq_inv_def)
  then obtain q' where q': "mq_push dbg q n = Some (True, q')" "mq_content q' = mq_content q @ [n]" "mq_inv q'"
    "mq_capacity q' = mq_capacity q"
    by (rule mq_push_room [OF q(2), where dbg = dbg and v = n])
  from q'(1) have "sm_initialize_entry dbg capacity (fresh_prefix capacity n q) n = Some (fresh_prefix capacity (Suc n) q')"
    by (simp add: sm_initialize_entry_def fresh_prefix_def fresh_entry_def replicate_append_same)
  with q q' show ?case by (intro exI [of _ q']) simp
qed (intro exI [of _ "mq_new capacity"], simp)

lemma fresh_chain:
  assumes "i < capacity"
  shows "free_chain (map (fresh_entry capacity) [0..<capacity]) i [i..<capacity]"
  using assms
proof (induction "capacity - i" arbitrary: i)
  case (Suc d)
  have cons: "[i..<capacity] = i # [Suc i..<capacity]" using Suc.prems by (rule upt_conv_Cons)
  show ?case
  proof (cases "Suc i < capacity")
    case True
    then have "free_chain (map (fresh_entry capacity) [0..<capacity]) (Suc i) [Suc i..<capacity]"
      using Suc.hyps by (intro Suc.hyps(1)) simp_all
    with True show ?thesis unfolding cons by (simp add: fresh_entry_def)
  next
    case False
    with Suc.prems show ?thesis unfolding cons by (auto simp: fresh_entry_def)
  qed
qed simp

lemma sm_new_fresh:
  assumes "0 < capacity" "capacity < INVALID"
  obtains m :: "'a slot_map" where "sm_new dbg capacity = Some m" "sm_inv m" "sm_free m [0..<capacity]" "sm_map m = Map.empty"
    "sm_capacity m = capacity" "sm_links m"
proof -
  from sm_initialize_prefix [of capacity capacity dbg] obtain q where
    q: "sm_new dbg capacity = Some (fresh_prefix capacity capacity q :: 'a slot_map)"
    "mq_inv q" "mq_content q = [0..<capacity]" "mq_capacity q = capacity"
    unfolding sm_new_def fresh_prefix_def by auto
  have cap: "sm_capacity (fresh_prefix capacity capacity q :: 'a slot_map) = capacity" by (simp add: sm_capacity_def fresh_prefix_def)
  have used: "used_indices (replicate capacity INVALID) = {#}" by simp
  have "sm_inv (fresh_prefix capacity capacity q :: 'a slot_map)"
    unfolding sm_inv_def cap using assms q(2-4) used by (simp add: fresh_prefix_def)
  moreover have "sm_map (fresh_prefix capacity capacity q :: 'a slot_map) k = None" for k
    by (cases "k < capacity") (simp_all add: sm_map_def fresh_prefix_def sm_capacity_def)
  moreover have "sm_free (fresh_prefix capacity capacity q :: 'a slot_map) [0..<capacity]"
    unfolding sm_free_def cap using fresh_chain [OF assms(1)] by (auto simp: fresh_prefix_def)
  moreover have "sm_links (fresh_prefix capacity capacity q :: 'a slot_map)"
    using assms(1) by (auto simp: sm_links_def link_ok_def fresh_prefix_def fresh_entry_def sm_capacity_def)
  ultimately show ?thesis using q(1) cap by (intro that [of "fresh_prefix capacity capacity q"]) auto
qed

section \<open>Programs over a slot map\<close>

datatype 'a sm_op = SInsert 'a | SRemove SlotMapKey | SGet SlotMapKey

datatype 'a sm_res = SKey "SlotMapKey option" | SFlag bool | SValue "'a option"

fun slot_step :: "bool \<Rightarrow> 'a slot_map \<Rightarrow> 'a sm_op \<Rightarrow> ('a sm_res \<times> 'a slot_map) option" where
  "slot_step dbg m (SInsert v) = map_option (apfst SKey) (sm_insert dbg m v)"
| "slot_step dbg m (SRemove k) = map_option (apfst SFlag) (sm_remove dbg m k)"
| "slot_step dbg m (SGet k) = map_option (\<lambda>r. (SValue r, m)) (sm_get dbg m k)"

text \<open>
  The same program on a finite map with at most \<open>cap\<close> keys below \<open>cap\<close>; which free key an
  insertion takes is left open.
\<close>

fun map_step :: "nat \<Rightarrow> (nat \<rightharpoonup> 'a) \<Rightarrow> 'a sm_op \<Rightarrow> 'a sm_res \<Rightarrow> (nat \<rightharpoonup> 'a) \<Rightarrow> bool" where
  "map_step cap M (SInsert v) r M' \<longleftrightarrow>
     (r = SKey None \<and> card (dom M) = cap \<and> M' = M) \<or> (\<exists>k < cap. r = SKey (Some k) \<and> k \<notin> dom M \<and> M' = M(k \<mapsto> v))"
| "map_step cap M (SRemove k) r M' \<longleftrightarrow> r = SFlag (k \<in> dom M) \<and> M' = M(k := None)"
| "map_step cap M (SGet k) r M' \<longleftrightarrow> r = SValue (M k) \<and> M' = M"

fun map_run :: "nat \<Rightarrow> (nat \<rightharpoonup> 'a) \<Rightarrow> 'a sm_op list \<Rightarrow> 'a sm_res list \<Rightarrow> (nat \<rightharpoonup> 'a) \<Rightarrow> bool" where
  "map_run cap M [] rs M' \<longleftrightarrow> rs = [] \<and> M' = M"
| "map_run cap M (op # ops) rs M' \<longleftrightarrow>
     (\<exists>r rs' M1. rs = r # rs' \<and> map_step cap M op r M1 \<and> map_run cap M1 ops rs' M')"

fun sm_op_valid :: "nat \<Rightarrow> 'a sm_op \<Rightarrow> bool" where
  "sm_op_valid cap (SInsert v) \<longleftrightarrow> True"
| "sm_op_valid cap (SRemove k) \<longleftrightarrow> k < cap"
| "sm_op_valid cap (SGet k) \<longleftrightarrow> k < cap"

lemma slot_step_refines:
  assumes inv: "sm_inv m" and free: "sm_free m fs" and valid: "sm_op_valid (sm_capacity m) op"
  obtains r m' fs' where "slot_step dbg m op = Some (r, m')" "map_step (sm_capacity m) (sm_map m) op r (sm_map m')"
    "sm_inv m'" "sm_free m' fs'" "sm_capacity m' = sm_capacity m"
proof (cases op)
  case (SInsert v)
  show ?thesis
  proof (cases fs)
    case Nil
    have "k \<in> dom (sm_map m) \<longleftrightarrow> k < sm_capacity m" for k
    proof (cases "k < sm_capacity m")
      case True
      with Nil sm_free_dom [OF inv free] have "sm_map m k \<noteq> None" by auto
      with True show ?thesis by blast
    qed (simp add: domIff sm_map_def)
    then have "dom (sm_map m) = {..<sm_capacity m}" by (intro set_eqI) (simp only: lessThan_iff)
    with sm_insert_full [OF inv free [unfolded Nil], of dbg v] inv free SInsert show ?thesis
      by (intro that [of "SKey None" m fs]) simp_all
  next
    case (Cons f gs)
    obtain m' where m': "sm_insert dbg m v = Some (Some f, m')" "sm_inv m'" "sm_free m' gs"
      "sm_map m' = (sm_map m)(f \<mapsto> v)" "sm_capacity m' = sm_capacity m"
      by (rule sm_insert_free [OF inv free [unfolded Cons], of dbg v])
    have "f \<in> {k. k < sm_capacity m \<and> sm_map m k = None}"
      using Cons unfolding sm_free_dom [OF inv free, symmetric] by simp
    then have "f < sm_capacity m" "f \<notin> dom (sm_map m)" by (simp_all add: domIff)
    with m' SInsert show ?thesis by (intro that [of "SKey (Some f)" m' gs]) simp_all
  qed
next
  case (SRemove k)
  with valid have k: "k < sm_capacity m" by simp
  show ?thesis
  proof (cases "sm_map m k = None")
    case True
    then have "(sm_map m)(k := None) = sm_map m" by auto
    with sm_remove_unused [OF inv k True, of dbg] inv free SRemove True show ?thesis
      by (intro that [of "SFlag False" m fs]) (simp_all add: domIff)
  next
    case False
    have head: "sm_idx_to_data_free_list_head m = INVALID \<or> sm_idx_to_data_free_list_head m < sm_capacity m"
      using sm_free_head [OF inv free] by (cases fs) simp_all
    obtain m' where "sm_remove dbg m k = Some (True, m')" "sm_inv m'" "sm_map m' = (sm_map m)(k := None)"
      "sm_capacity m' = sm_capacity m" "sm_free m' (k # fs)"
      by (rule sm_remove_used [OF inv k False head, of dbg]) (use free in blast)
    with SRemove False show ?thesis by (intro that [of "SFlag True" m' "k # fs"]) (auto simp: domIff)
  qed
next
  case (SGet k)
  with valid sm_get_map [OF inv, of k dbg] inv free show ?thesis
    by (intro that [of "SValue (sm_map m k)" m fs]) simp_all
qed

lemma slot_run_refines:
  assumes "sm_inv m" "sm_free m fs" "list_all (sm_op_valid (sm_capacity m)) ops"
  shows "\<exists>rs m'. run_steps (slot_step dbg) m ops = Some (rs, m') \<and>
    map_run (sm_capacity m) (sm_map m) ops rs (sm_map m') \<and> sm_inv m'"
  using assms
proof (induction ops arbitrary: m fs)
  case (Cons op ops)
  have valid: "sm_op_valid (sm_capacity m) op" "list_all (sm_op_valid (sm_capacity m)) ops" using Cons.prems(3) by simp_all
  obtain r m1 fs1 where m1: "slot_step dbg m op = Some (r, m1)" "map_step (sm_capacity m) (sm_map m) op r (sm_map m1)"
    "sm_inv m1" "sm_free m1 fs1" "sm_capacity m1 = sm_capacity m"
    by (rule slot_step_refines [OF Cons.prems(1,2) valid(1), of dbg])
  with Cons.IH [OF m1(3,4)] valid(2) obtain rs m' where "run_steps (slot_step dbg) m1 ops = Some (rs, m')"
    "map_run (sm_capacity m) (sm_map m1) ops rs (sm_map m')" "sm_inv m'" by auto
  with m1 show ?case by auto
qed simp

section \<open>Properties\<close>

text \<open>
  C13: Every program of \<open>insert\<close>, \<open>remove\<close> and \<open>get\<close> on a fresh slot map behaves like the same program
  on a finite map: an insertion returns a key that is not in use, and fails only if all keys are;
  values stay under their keys until they are removed; \<open>len\<close> counts the keys in use; nothing panics.
\<close>

theorem slot_map_refines_map:
  assumes "0 < capacity" "capacity < INVALID" "list_all (sm_op_valid capacity) ops"
  shows "\<exists>m rs m'. sm_new dbg capacity = Some m \<and> run_steps (slot_step dbg) m ops = Some (rs, m') \<and>
    map_run capacity Map.empty ops rs (sm_map m') \<and> sm_len m' = card (dom (sm_map m'))"
proof (rule sm_new_fresh [OF assms(1,2), of dbg])
  fix m :: "'a slot_map"
  assume m: "sm_new dbg capacity = Some m" "sm_inv m" "sm_free m [0..<capacity]" "sm_map m = Map.empty"
    "sm_capacity m = capacity"
  with slot_run_refines [OF m(2,3), of ops dbg] assms(3) sm_len_card show ?thesis by auto
qed

theorem slot_map_refines_map_witness:
  "\<exists>m rs m'. sm_new True 2 = Some m \<and>
     run_steps (slot_step True) m [SInsert ''a'', SInsert ''b'', SInsert ''c'', SRemove 0, SGet 1] = Some (rs, m') \<and>
     map_run 2 Map.empty [SInsert ''a'', SInsert ''b'', SInsert ''c'', SRemove 0, SGet 1] rs (sm_map m')"
  using slot_map_refines_map [of 2 "[SInsert ''a'', SInsert ''b'', SInsert ''c'', SRemove 0, SGet 1]" True]
  by (auto simp: INVALID_def simp del: run_steps.simps map_run.simps)

section \<open>Insertion at a given key\<close>

lemma sm_claim_index_links:
  assumes inv: "sm_inv m" and links: "sm_links m"
  obtains fl where "sm_claim_index m k = Some (m\<lparr>sm_idx_to_data_free_list := fl\<rparr>)" "links_ok (sm_capacity m) fl"
    "length fl = length (sm_idx_to_data_free_list m)"
proof (cases "k < sm_capacity m")
  case False
  with links show ?thesis by (intro that [of "sm_idx_to_data_free_list m"]) (simp_all add: sm_claim_index_def sm_links_def)
next
  case True
  let ?cap = "sm_capacity m" and ?fl = "sm_idx_to_data_free_list m"
  let ?e = "?fl ! k"
  have len: "length ?fl = ?cap" using sm_invD(3) [OF inv] .
  with True links have fl0: "links_ok ?cap ?fl" "link_ok ?cap (fl_previous ?e)" "link_ok ?cap (fl_next ?e)"
    by (simp_all add: sm_links_def)
  have inval: "link_ok ?cap INVALID" by (simp add: link_ok_def)
  obtain fl1 where fl1: "(if fl_previous ?e \<noteq> INVALID then set_fl_next ?fl (fl_previous ?e) (fl_next ?e) else Some ?fl) = Some fl1"
    "links_ok ?cap fl1" "length fl1 = length ?fl"
  proof (cases "fl_previous ?e = INVALID")
    case False
    with fl0(2) len have "fl_previous ?e < length ?fl" by (simp add: link_ok_def)
    from set_fl_next_links [OF fl0(1,3) this] False that show ?thesis by auto
  qed (use that fl0 in auto)
  obtain fl2 where fl2: "(if fl_next ?e \<noteq> INVALID then set_fl_previous fl1 (fl_next ?e) (fl_previous ?e) else Some fl1) = Some fl2"
    "links_ok ?cap fl2" "length fl2 = length ?fl"
  proof (cases "fl_next ?e = INVALID")
    case False
    with fl0(3) len fl1(3) have "fl_next ?e < length fl1" by (simp add: link_ok_def)
    from set_fl_previous_links [OF fl1(2) fl0(2) this] False fl1(3) that show ?thesis by auto
  qed (use that fl1 in auto)
  obtain fl3 where fl3: "set_fl_next fl2 k INVALID = Some fl3" "links_ok ?cap fl3" "length fl3 = length fl2"
    by (rule set_fl_next_links [OF fl2(2) inval, of k]) (use fl2(3) len True in simp)
  obtain fl4 where fl4: "set_fl_previous fl3 k INVALID = Some fl4" "links_ok ?cap fl4" "length fl4 = length fl3"
    by (rule set_fl_previous_links [OF fl3(2) inval, of k]) (use fl2(3) fl3(3) len True in simp)
  have "sm_claim_index m k = Some (m\<lparr>sm_idx_to_data_free_list := fl4\<rparr>)"
    using True len fl1(1) fl2(1) fl3(1) fl4(1) by (simp add: sm_claim_index_def Let_def split del: if_split)
  with fl2 fl3 fl4 show ?thesis by (intro that [of fl4]) simp_all
qed

lemma sm_insert_at_map:
  assumes inv: "sm_inv m" and links: "sm_links m" and k: "k < sm_capacity m"
  obtains m' where "sm_insert_at dbg m k v = Some (True, m')" "sm_inv m'" "sm_links m'"
    "sm_map m' = (sm_map m)(k \<mapsto> v)" "sm_capacity m' = sm_capacity m"
proof -
  obtain fl where fl: "sm_claim_index m k = Some (m\<lparr>sm_idx_to_data_free_list := fl\<rparr>)" "links_ok (sm_capacity m) fl"
    "length fl = length (sm_idx_to_data_free_list m)"
    by (rule sm_claim_index_links [OF inv links])
  let ?m1 = "m\<lparr>sm_idx_to_data_free_list := fl\<rparr>"
  have "sm_inv ?m1" "k < sm_capacity ?m1" using inv fl(3) k by simp_all
  then obtain m' where m': "sm_store_value dbg ?m1 k v = Some (True, m')" "sm_inv m'"
    "sm_map m' = (sm_map ?m1)(k \<mapsto> v)" "sm_capacity m' = sm_capacity ?m1"
    "sm_idx_to_data_free_list m' = sm_idx_to_data_free_list ?m1"
    "sm_idx_to_data_free_list_head m' = sm_idx_to_data_free_list_head ?m1"
    by (rule sm_store_value_map [of ?m1 k dbg v])
  with fl links sm_invD(1) [OF inv] show ?thesis
    by (intro that [of m']) (simp_all add: sm_insert_at_def sm_verify_init_def sm_links_def)
qed

lemma list_of_2: "[0..<2] = [0, 1]" "replicate 2 x = [x, x]"
  by (simp_all add: numeral_2_eq_2)


section \<open>Use with given keys\<close>

text \<open>
  A map whose links are sound, whichever way its keys were taken: lookups, changes in place,
  removals and insertions at a given key are those of a finite map and never panic.
\<close>

definition sm_ok :: "'a slot_map \<Rightarrow> bool" where
  "sm_ok m \<longleftrightarrow> sm_inv m \<and> sm_links m"

lemma sm_ok_get: "sm_ok m \<Longrightarrow> k < sm_capacity m \<Longrightarrow> sm_get dbg m k = Some (sm_map m k)"
  by (simp add: sm_ok_def sm_get_map)

lemma sm_ok_get_mut:
  assumes ok: "sm_ok m" and v: "sm_map m k = Some v"
  obtains m' where "sm_get_mut dbg m k f = Some (True, m')" "sm_ok m'" "sm_map m' = (sm_map m)(k \<mapsto> f v)"
    "sm_capacity m' = sm_capacity m"
proof -
  from ok have inv: "sm_inv m" and links: "sm_links m" by (simp_all add: sm_ok_def)
  from v have k: "k < sm_capacity m" "sm_idx_to_data m ! k \<noteq> INVALID" by (auto simp: sm_map_def split: if_split_asm)
  let ?m = "m\<lparr>sm_data := (sm_data m)[sm_idx_to_data m ! k := Some (f v)]\<rparr>"
  obtain w where w: "slice_get (sm_data m) (sm_idx_to_data m ! k) = Some (Some w)" "sm_map m k = Some w"
    by (rule sm_data_used [OF inv k])
  with v k sm_invD(1) [OF inv] have "sm_get_mut dbg m k f = Some (True, ?m)"
    by (simp add: sm_get_mut_def sm_verify_init_def sm_capacity_def)
  moreover have "sm_ok ?m" "sm_map ?m = (sm_map m)(k \<mapsto> f v)"
    using sm_map_overwrite [OF inv k, of "f v"] links by (simp_all add: sm_ok_def sm_links_def sm_capacity_def)
  ultimately show ?thesis by (intro that [of ?m]) (simp_all add: sm_capacity_def)
qed

lemma sm_ok_remove:
  assumes ok: "sm_ok m" and v: "sm_map m k = Some v"
  obtains m' where "sm_remove dbg m k = Some (True, m')" "sm_ok m'" "sm_map m' = (sm_map m)(k := None)"
    "sm_capacity m' = sm_capacity m"
proof -
  from ok have inv: "sm_inv m" and links: "sm_links m" by (simp_all add: sm_ok_def)
  from v have k: "k < sm_capacity m" by (auto simp: sm_map_def split: if_split_asm)
  from v have u: "sm_map m k \<noteq> None" by simp
  from links have head: "sm_idx_to_data_free_list_head m = INVALID \<or> sm_idx_to_data_free_list_head m < sm_capacity m"
    by (simp add: sm_links_def link_ok_def)
  obtain m' where "sm_remove dbg m k = Some (True, m')" "sm_inv m'" "sm_map m' = (sm_map m)(k := None)"
    "sm_capacity m' = sm_capacity m" "sm_links m \<longrightarrow> sm_links m'"
    by (rule sm_remove_used [OF inv k u head])
  with links that show ?thesis by (simp add: sm_ok_def)
qed

lemma sm_ok_insert_at:
  assumes "sm_ok m" "k < sm_capacity m"
  obtains m' where "sm_insert_at dbg m k v = Some (True, m')" "sm_ok m'" "sm_map m' = (sm_map m)(k \<mapsto> v)"
    "sm_capacity m' = sm_capacity m"
proof -
  from assms obtain m' where "sm_insert_at dbg m k v = Some (True, m')" "sm_inv m'" "sm_links m'"
    "sm_map m' = (sm_map m)(k \<mapsto> v)" "sm_capacity m' = sm_capacity m"
    by (auto simp: sm_ok_def elim: sm_insert_at_map [where dbg = dbg and v = v])
  with that show ?thesis by (simp add: sm_ok_def)
qed

lemma sm_ok_new:
  assumes "0 < capacity" "capacity < INVALID"
  obtains m :: "'a slot_map" where "sm_new dbg capacity = Some m" "sm_ok m" "sm_map m = Map.empty" "sm_capacity m = capacity"
proof -
  obtain m :: "'a slot_map" where "sm_new dbg capacity = Some m" "sm_inv m" "sm_free m [0..<capacity]" "sm_map m = Map.empty"
    "sm_capacity m = capacity" "sm_links m"
    by (rule sm_new_fresh [OF assms])
  with that show ?thesis by (simp add: sm_ok_def)
qed

lemma sm_ok_first_insert:
  fixes m :: "'a slot_map"
  assumes "0 < capacity" "capacity < INVALID" "sm_new dbg capacity = Some m"
  obtains m' where "sm_insert dbg m v = Some (Some 0, m')" "sm_ok m'" "sm_map m' = [0 \<mapsto> v]" "sm_capacity m' = capacity"
proof -
  obtain n :: "'a slot_map" where n: "sm_new dbg capacity = Some n" "sm_inv n" "sm_free n [0..<capacity]" "sm_map n = Map.empty"
    "sm_capacity n = capacity" "sm_links n"
    by (rule sm_new_fresh [OF assms(1,2)])
  from n(3) assms(1) have "sm_free n (0 # [1..<capacity])" by (simp add: upt_conv_Cons)
  then obtain m' where "sm_insert dbg n v = Some (Some 0, m')" "sm_inv m'" "sm_map m' = (sm_map n)(0 \<mapsto> v)"
    "sm_capacity m' = sm_capacity n" "sm_links n \<longrightarrow> sm_links m'"
    by (rule sm_insert_free [OF n(2)])
  with n assms(3) that show ?thesis by (simp add: sm_ok_def)
qed

lemma sm_ok_dom: "sm_ok m \<Longrightarrow> sm_map m k = Some v \<Longrightarrow> k < sm_capacity m"
  by (auto simp: sm_map_def split: if_split_asm)

end
