(* ===== verification/Shared_Memory.thy ===== *)
theory Shared_Memory
  imports Zero_Copy_Setup
begin

text \<open>
  A shared memory with a pool allocator (\<^verbatim>\<open>iceoryx2-cal/src/shared_memory/common.rs\<close>, prefix \<open>shm\<close>):
  the payload and the management memory of its allocator lie in the supplementary memory of a
  dynamic storage. The dynamic storage is a parameter: \<open>create size\<close> is the error or the address
  of the storage together with the address of its supplementary memory of \<open>size\<close> bytes, and opening
  it gives the error or the address together with the stored allocator details. Names and
  ownership only select the storage and are part of the parameter.
\<close>

datatype SharedMemoryCreateError = ShmAlreadyExists | ShmSizeIsZero | ShmInsufficientPermissions | ShmInternalError

datatype SharedMemoryOpenError =
  ShmOpenDoesNotExist | ShmOpenInsufficientPermissions | ShmOpenSizeIsZero | ShmOpenSizeDoesNotFit |
  ShmOpenWrongAllocatorSelected | ShmOpenInitializationNotYetFinalized | ShmOpenVersionMismatch | ShmOpenInternalError

record allocator_details =
  ad_allocator_id :: u8
  ad_allocator :: "shm_pool_allocator option"
  ad_mgmt_size :: nat
  ad_payload_size :: nat
  ad_payload_start_offset :: nat

record shm_memory =
  shm_details :: allocator_details
  shm_payload_start_address :: nat

definition spa_unique_id :: u8 where
  "spa_unique_id = 0"

definition get_payload_start_address :: "nat \<Rightarrow> allocator_details \<Rightarrow> nat option" where
  "get_payload_start_address storage d = do {
     a \<leftarrow> ad_allocator d;
     Some (storage + ad_payload_start_offset d + spa_relative_start_address a) }"

definition shm_initialize ::
  "bool \<Rightarrow> nat \<Rightarrow> nat \<Rightarrow> layout \<Rightarrow> nat \<Rightarrow> allocator_details \<Rightarrow> bounded_bump_allocator \<Rightarrow>
   (bool \<times> allocator_details) option" where
  "shm_initialize dbg page_size size_of_payload allocator_config details_address details init_allocator =
     (case bba_allocate init_allocator \<lparr>lsize = size_of_payload, lalign = 1\<rparr> of
        (Inl _, _) \<Rightarrow> Some (False, details)
      | (Inr memory, init_allocator1) \<Rightarrow> do {
          start_offset \<leftarrow> usize_sub dbg (fst memory) details_address;
          a0 \<leftarrow> spa_new_uninit dbg page_size memory allocator_config;
          let details1 = details\<lparr>ad_payload_start_offset := start_offset, ad_allocator := Some a0\<rparr>;
          r \<leftarrow> spa_init (bba_source init_allocator1) a0;
          Some (case r of
              Inl _ \<Rightarrow> (False, details1)
            | Inr a \<Rightarrow> (True, details1\<lparr>ad_allocator := Some a\<rparr>)) })"

definition shm_create_error :: "DynamicStorageCreateError \<Rightarrow> SharedMemoryCreateError" where
  "shm_create_error e = (case e of
      StorageAlreadyExists \<Rightarrow> ShmAlreadyExists
    | StorageInsufficientPermissions \<Rightarrow> ShmInsufficientPermissions
    | StorageInitializationFailed \<Rightarrow> ShmInternalError
    | StorageCreateInternalError \<Rightarrow> ShmInternalError)"

text \<open>The storage reports a failed initializer as \<open>InitializationFailed\<close>.\<close>

definition shm_create ::
  "bool \<Rightarrow> nat \<Rightarrow> (nat \<Rightarrow> DynamicStorageCreateError + (nat \<times> nat)) \<Rightarrow> nat \<Rightarrow> layout \<Rightarrow>
   (SharedMemoryCreateError + shm_memory) option" where
  "shm_create dbg page_size create size_of_payload allocator_config =
     (if size_of_payload = 0 then Some (Inl ShmSizeIsZero)
      else do {
        allocator_mgmt_size \<leftarrow> spa_management_size size_of_payload allocator_config;
        let details = \<lparr>ad_allocator_id = spa_unique_id, ad_allocator = None, ad_mgmt_size = allocator_mgmt_size,
          ad_payload_size = size_of_payload, ad_payload_start_offset = 0\<rparr>;
        let supplementary_size = size_of_payload + allocator_mgmt_size;
        case create supplementary_size of
          Inl e \<Rightarrow> Some (Inl (shm_create_error e))
        | Inr (storage, supplementary_start) \<Rightarrow> do {
            (initialized, details1) \<leftarrow> shm_initialize dbg page_size size_of_payload allocator_config storage details
              (bba_new supplementary_start supplementary_size);
            if initialized
            then do {
              start \<leftarrow> get_payload_start_address storage details1;
              Some (Inr \<lparr>shm_details = details1, shm_payload_start_address = start\<rparr>) }
            else Some (Inl (shm_create_error StorageInitializationFailed)) } })"

definition shm_open_error :: "DynamicStorageOpenError \<Rightarrow> SharedMemoryOpenError" where
  "shm_open_error e = (case e of
      StorageDoesNotExist \<Rightarrow> ShmOpenDoesNotExist
    | StorageInitializationNotYetFinalized \<Rightarrow> ShmOpenInitializationNotYetFinalized
    | StorageVersionMismatch \<Rightarrow> ShmOpenVersionMismatch
    | StorageOpenInternalError \<Rightarrow> ShmOpenInternalError)"

definition shm_open ::
  "DynamicStorageOpenError + (nat \<times> allocator_details) \<Rightarrow> nat \<Rightarrow> (SharedMemoryOpenError + shm_memory) option" where
  "shm_open opened required_size = (case opened of
      Inl e \<Rightarrow> Some (Inl (shm_open_error e))
    | Inr (storage, details) \<Rightarrow>
        (if ad_allocator_id details \<noteq> spa_unique_id then Some (Inl ShmOpenWrongAllocatorSelected)
         else if ad_payload_size details < required_size then Some (Inl ShmOpenSizeDoesNotFit)
         else do {
           start \<leftarrow> get_payload_start_address storage details;
           Some (Inr \<lparr>shm_details = details, shm_payload_start_address = start\<rparr>) }))"

definition shm_size :: "shm_memory \<Rightarrow> nat" where
  "shm_size m = ad_payload_size (shm_details m)"

definition shm_allocator :: "shm_memory \<Rightarrow> shm_pool_allocator option" where
  "shm_allocator m = ad_allocator (shm_details m)"

definition shm_with_allocator :: "shm_memory \<Rightarrow> shm_pool_allocator \<Rightarrow> shm_memory" where
  "shm_with_allocator m a = m\<lparr>shm_details := (shm_details m)\<lparr>ad_allocator := Some a\<rparr>\<rparr>"

definition shm_max_alignment :: "shm_memory \<Rightarrow> nat option" where
  "shm_max_alignment m = map_option spa_max_alignment (shm_allocator m)"

definition shm_bucket_size :: "shm_memory \<Rightarrow> nat option" where
  "shm_bucket_size m = map_option (\<lambda>a. pa_bucket_size (spa_allocator a)) (shm_allocator m)"

record ShmPointer =
  sp_offset :: PointerOffset
  sp_data_ptr :: nat

definition shm_allocate ::
  "bool \<Rightarrow> shm_memory \<Rightarrow> layout \<Rightarrow> ((ShmAllocationError + ShmPointer) \<times> shm_memory) option" where
  "shm_allocate dbg m l = do {
     a \<leftarrow> shm_allocator m;
     (r, a1) \<leftarrow> spa_allocate dbg a l;
     Some (case r of
         Inl e \<Rightarrow> Inl e
       | Inr offset \<Rightarrow> Inr \<lparr>sp_offset = offset, sp_data_ptr = po_offset offset + shm_payload_start_address m\<rparr>,
       shm_with_allocator m a1) }"

definition shm_deallocate_bucket :: "bool \<Rightarrow> shm_memory \<Rightarrow> PointerOffset \<Rightarrow> shm_memory option" where
  "shm_deallocate_bucket dbg m offset = do {
     a \<leftarrow> shm_allocator m;
     a1 \<leftarrow> spa_deallocate_bucket dbg a offset;
     Some (shm_with_allocator m a1) }"

section \<open>Creation\<close>

text \<open>The memory of a shared memory whose allocator is set up.\<close>

definition shm_inv :: "shm_memory \<Rightarrow> bool" where
  "shm_inv m \<longleftrightarrow> (\<exists>a. shm_allocator m = Some a \<and> spa_inv a)"

abbreviation shm_pool :: "shm_memory \<Rightarrow> shm_pool_allocator" where
  "shm_pool m \<equiv> the (shm_allocator m)"

lemma shm_pool_setup:
  assumes c: "0 < lsize c" "0 < lalign c" "lalign c \<le> page_size"
    and fit: "align start (lalign c) \<le> start + payload"
    and n: "n = (start + payload - align start (lalign c)) div align (lsize c) (lalign c)" "n < 2 ^ 24 - 1"
    and mgmt: "\<And>k. k \<le> n \<Longrightarrow> \<exists>q. mgmt \<lparr>lsize = 4 * (k + 1), lalign = 4\<rparr> = Inr q"
  obtains a0 a where "spa_new_uninit dbg page_size (start, payload) c = Some a0" "spa_init mgmt a0 = Some (Inr a)"
    "pool_inv (spa_allocator a)" "spa_number_of_buckets a = n" "spa_free a = spa_offsets a"
    "pa_start (spa_allocator a) = align start (lalign c)" "pa_size (spa_allocator a) = payload"
    "pa_bucket_size (spa_allocator a) = lsize c" "spa_max_alignment a = lalign c"
    "spa_number_of_used_buckets a = 0" "spa_base_address a = start"
    "uis_borrowed_indices (pa_buckets (spa_allocator a)) = 0"
proof -
  have bs: "0 < align (lsize c) (lalign c)" using align_ge [OF c(2), of "lsize c"] c(1) by linarith
  have calc: "pool_calc_number_of_buckets dbg c start payload = Some n"
    using fit bs n(1) by (simp add: pool_calc_number_of_buckets_def Let_def)
  obtain b0 where b0: "uis_new_uninit dbg n = Some b0" "uis_capacity b0 = of_nat n" "\<not> uis_is_memory_initialized b0"
    using n(2) by (auto simp: uis_new_uninit_def)
  have cap: "unat (uis_capacity b0 + 1) = n + 1"
    using n(2) by (simp add: b0(2) unat_word_ariths unat_of_nat_small)
  obtain q where "mgmt \<lparr>lsize = 4 * (n + 1), lalign = 4\<rparr> = Inr q" using mgmt [of n] by auto
  then obtain b where b: "uis_init mgmt b0 = Some (Inr b)" using b0(3) cap by (auto simp: uis_init_def)
  let ?raw = "\<lparr>pa_buckets = b0, pa_bucket_size = lsize c, pa_bucket_alignment = lalign c,
    pa_start = align start (lalign c), pa_size = payload, pa_is_memory_initialized = False\<rparr>"
  let ?p = "?raw\<lparr>pa_buckets := b, pa_is_memory_initialized := True\<rparr>"
  have p: "pool_new_uninit dbg c start payload = Some ?raw" "pool_init mgmt ?raw = Some (Inr ?p)"
    by (simp add: pool_new_uninit_def calc b0(1)) (simp add: pool_init_def b)
  note pool = pool_new_inv [OF p calc n(2) c(2) fit]
  let ?a = "\<lparr>spa_allocator = ?p, spa_base_address = start, spa_max_supported_alignment_by_memory = page_size,
    spa_number_of_used_buckets = 0\<rparr>"
  have "spa_new_uninit dbg page_size (start, payload) c = Some (?a\<lparr>spa_allocator := ?raw\<rparr>)"
    "spa_init mgmt (?a\<lparr>spa_allocator := ?raw\<rparr>) = Some (Inr ?a)"
    using p c(3) by (simp_all add: spa_new_uninit_def spa_init_def spa_max_alignment_def)
  moreover have "spa_free ?a = spa_offsets ?a"
    using uis_new_inv [OF b0(1) b n(2)] word_less_image [of n, where 'a = 32] n(2)
    by (simp add: spa_free_def spa_offsets_def uis_free_def uis_indices_def)
  moreover have "uis_borrowed_indices b = 0" using uis_new_inv [OF b0(1) b n(2)] by simp
  ultimately show ?thesis
    using pool(1,2) by (intro that [of "?a\<lparr>spa_allocator := ?raw\<rparr>" ?a]) (simp_all add: spa_number_of_buckets_def spa_max_alignment_def)
qed

lemma shm_create_fresh:
  assumes c: "0 < lsize c" "0 < lalign c" "lalign c \<le> page_size"
    and storage: "create (payload + the (spa_management_size payload c)) = Inr (base, start)" "base \<le> start"
    and fit: "align start (lalign c) \<le> start + payload" "0 < payload" "payload < 2 ^ 56"
    and n: "n = (start + payload - align start (lalign c)) div align (lsize c) (lalign c)" "n < 2 ^ 24 - 1"
  obtains m where "shm_create dbg page_size create payload c = Some (Inr m)" "shm_inv m"
    "shm_payload_start_address m = align start (lalign c)" "shm_size m = payload"
    "spa_number_of_buckets (shm_pool m) = n" "spa_free (shm_pool m) = spa_offsets (shm_pool m)"
    "pa_bucket_size (spa_allocator (shm_pool m)) = lsize c" "spa_max_alignment (shm_pool m) = lalign c"
    "spa_number_of_used_buckets (shm_pool m) = 0"
proof -
  let ?k = "payload div lsize c"
  have mgmt: "spa_management_size payload c = Some (uis_memory_size ?k)"
    using c(1) by (simp add: spa_management_size_def pool_memory_size_def)
  let ?b = "bba_new start (payload + uis_memory_size ?k)" and ?l = "\<lparr>lsize = payload, lalign = 1\<rparr>"
  let ?b1 = "?b\<lparr>bba_current_position := payload\<rparr>"
  have payload: "bba_allocate ?b ?l = (Inr (start, payload), ?b1)"
    using fit(2) by (simp add: bba_allocate_def bba_new_def align_def)
  have bs: "0 < align (lsize c) (lalign c)" using align_ge [OF c(2), of "lsize c"] c(1) by linarith
  have "pool_calc_number_of_buckets dbg c start payload = Some n"
    using fit bs n(1) by (simp add: pool_calc_number_of_buckets_def Let_def)
  note nk = pool_buckets_fit(1) [OF this c(2) fit(1)]
  have "\<exists>q. bba_source ?b1 \<lparr>lsize = 4 * (k + 1), lalign = 4\<rparr> = Inr q" if "k \<le> n" for k
    by (rule bba_fits [of "\<lparr>lsize = 4 * (k + 1), lalign = 4\<rparr>" ?b1])
      (use that nk in \<open>auto simp: bba_new_def uis_memory_size_def\<close>)
  then obtain a0 a where a: "spa_new_uninit dbg page_size (start, payload) c = Some a0"
    "spa_init (bba_source ?b1) a0 = Some (Inr a)"
    "pool_inv (spa_allocator a)" "spa_number_of_buckets a = n" "spa_free a = spa_offsets a"
    "pa_start (spa_allocator a) = align start (lalign c)" "pa_size (spa_allocator a) = payload"
    "pa_bucket_size (spa_allocator a) = lsize c" "spa_max_alignment a = lalign c"
    "spa_number_of_used_buckets a = 0" "spa_base_address a = start"
    "uis_borrowed_indices (pa_buckets (spa_allocator a)) = 0"
    by (rule shm_pool_setup [OF c fit(1) n, of "bba_source ?b1" dbg])
  let ?d = "\<lparr>ad_allocator_id = spa_unique_id, ad_allocator = Some a, ad_mgmt_size = uis_memory_size ?k,
    ad_payload_size = payload, ad_payload_start_offset = start - base\<rparr>"
  let ?m = "\<lparr>shm_details = ?d, shm_payload_start_address = align start (lalign c)\<rparr>"
  have "align start (lalign c) \<ge> start" using align_ge [OF c(2)] .
  then have addr: "get_payload_start_address base ?d = Some (align start (lalign c))"
    using storage(2) a(6,11) by (simp add: get_payload_start_address_def spa_relative_start_address_def)
  have init: "shm_initialize dbg page_size payload c base (?d\<lparr>ad_allocator := None, ad_payload_start_offset := 0\<rparr>) ?b = Some (True, ?d)"
    using payload a(1,2) storage(2) by (simp add: shm_initialize_def)
  have "shm_create dbg page_size create payload c = Some (Inr ?m)"
    using fit(2) mgmt storage(1) init addr by (simp add: shm_create_def Let_def)
  with a fit(3) show ?thesis by (intro that [of ?m]) (simp_all add: shm_inv_def shm_allocator_def spa_inv_def shm_size_def)
qed

section \<open>Allocation\<close>

abbreviation shm_offsets :: "shm_memory \<Rightarrow> PointerOffset set" where
  "shm_offsets m \<equiv> spa_offsets (shm_pool m)"

abbreviation shm_free :: "shm_memory \<Rightarrow> PointerOffset set" where
  "shm_free m \<equiv> spa_free (shm_pool m)"

lemma shm_with_allocator_simps [simp]:
  "shm_allocator (shm_with_allocator m a) = Some a"
  "shm_payload_start_address (shm_with_allocator m a) = shm_payload_start_address m"
  "shm_size (shm_with_allocator m a) = shm_size m"
  "shm_inv (shm_with_allocator m a) \<longleftrightarrow> spa_inv a"
  by (simp_all add: shm_allocator_def shm_with_allocator_def shm_size_def shm_inv_def)

lemma shm_invD: "shm_inv m \<Longrightarrow> shm_allocator m = Some (shm_pool m) \<and> spa_inv (shm_pool m)"
  by (auto simp: shm_inv_def)

lemma shm_free_subset: "shm_inv m \<Longrightarrow> shm_free m \<subseteq> shm_offsets m"
  using spa.free_subset shm_invD by blast

text \<open>What allocations and deallocations never change.\<close>

definition shm_same :: "shm_memory \<Rightarrow> shm_memory \<Rightarrow> bool" where
  "shm_same m m' \<longleftrightarrow> shm_offsets m' = shm_offsets m \<and> shm_bucket_size m' = shm_bucket_size m
     \<and> shm_max_alignment m' = shm_max_alignment m \<and> shm_payload_start_address m' = shm_payload_start_address m
     \<and> spa_number_of_buckets (shm_pool m') = spa_number_of_buckets (shm_pool m)"

lemma pool_allocate_layout:
  "pool_allocate dbg p l = Some (r, p') \<Longrightarrow>
   pa_bucket_size p' = pa_bucket_size p \<and> pa_bucket_alignment p' = pa_bucket_alignment p"
  by (auto simp: pool_allocate_def split: Option.bind_split_asm if_split_asm sum.split_asm)

lemma spa_allocate_layout:
  "spa_allocate dbg p l = Some (r, p') \<Longrightarrow>
   pa_bucket_size (spa_allocator p') = pa_bucket_size (spa_allocator p) \<and> spa_max_alignment p' = spa_max_alignment p"
  by (auto simp: spa_allocate_def spa_max_alignment_def dest!: pool_allocate_layout
      split: Option.bind_split_asm if_split_asm sum.split_asm)

lemma spa_deallocate_layout:
  "spa_deallocate_bucket dbg p a = Some p' \<Longrightarrow>
   pa_bucket_size (spa_allocator p') = pa_bucket_size (spa_allocator p) \<and> spa_max_alignment p' = spa_max_alignment p"
  by (auto simp: spa_deallocate_bucket_def pool_deallocate_bucket_def bind_eq_Some_conv spa_max_alignment_def)

lemma shm_allocate_cases:
  assumes inv: "shm_inv m" and l: "lsize l \<le> the (shm_bucket_size m)" "lalign l \<le> the (shm_max_alignment m)"
  obtains
    (exhausted) m' where "shm_allocate dbg m l = Some (Inl (AllocationErrorOf OutOfMemory), m')" "m' = m" "shm_free m = {}"
  | (allocated) p m' where "shm_allocate dbg m l = Some (Inr p, m')" "sp_offset p \<in> shm_free m"
      "sp_data_ptr p = po_offset (sp_offset p) + shm_payload_start_address m"
      "shm_free m' = shm_free m - {sp_offset p}" "shm_inv m'" "shm_same m m'"
proof -
  from inv obtain a where a: "shm_allocator m = Some a" "spa_inv a" by (auto simp: shm_inv_def)
  then have same: "shm_with_allocator m a = m" by (simp add: shm_with_allocator_def shm_allocator_def)
  from a l have l': "lsize l \<le> pa_bucket_size (spa_allocator a)" "lalign l \<le> spa_max_alignment a"
    by (simp_all add: shm_bucket_size_def shm_max_alignment_def)
  from a(2) l' show ?thesis
  proof (cases rule: spa_allocate_cases [where dbg = dbg])
    case exhausted
    with a(1) same show ?thesis by (intro that(1) [of m]) (simp_all add: shm_allocate_def spa_free_def)
  next
    case (allocated i p')
    from spa_allocate_layout [OF allocated(1)] a(1) allocated(4,6)
    have "shm_same m (shm_with_allocator m p')"
      by (simp add: shm_same_def shm_bucket_size_def shm_max_alignment_def)
    with allocated a(1) show ?thesis
      by (intro that(2) [of "\<lparr>sp_offset = spa_offset a i, sp_data_ptr = po_offset (spa_offset a i) + shm_payload_start_address m\<rparr>"
          "shm_with_allocator m p'"]) (simp_all add: shm_allocate_def spa_free_def)
  qed
qed

lemma shm_allocate_refused:
  assumes inv: "shm_inv m" and l: "the (shm_bucket_size m) < lsize l \<or> the (shm_max_alignment m) < lalign l"
  obtains e where "shm_allocate dbg m l = Some (Inl e, m)" "e = ExceedsMaxSupportedAlignment \<or> e = AllocationErrorOf SizeTooLarge"
proof -
  from inv obtain a where a: "shm_allocator m = Some a" "spa_inv a" by (auto simp: shm_inv_def)
  then have same: "shm_with_allocator m a = m" by (simp add: shm_with_allocator_def shm_allocator_def)
  have "pa_is_memory_initialized (spa_allocator a)" using a(2) by (simp add: spa_inv_def pool_inv_def)
  with a l same show ?thesis
    by (intro that [of "if spa_max_alignment a < lalign l then ExceedsMaxSupportedAlignment else AllocationErrorOf SizeTooLarge"])
      (auto simp: shm_allocate_def spa_allocate_def pool_allocate_def shm_bucket_size_def shm_max_alignment_def)
qed

lemma shm_deallocate_cases:
  assumes inv: "shm_inv m" and p: "p \<in> shm_offsets m - shm_free m"
  obtains m' where "shm_deallocate_bucket dbg m p = Some m'" "shm_free m' = insert p (shm_free m)" "shm_inv m'" "shm_same m m'"
proof -
  from inv obtain a where a: "shm_allocator m = Some a" "spa_inv a" by (auto simp: shm_inv_def)
  obtain a' where a': "spa_deallocate_bucket dbg a p = Some a'" "spa_free a' = insert p (spa_free a)"
    "spa_offsets a' = spa_offsets a" "spa_inv a'" "spa_number_of_buckets a' = spa_number_of_buckets a"
    by (rule spa_deallocate_cases [OF a(2), of p dbg]) (use p a(1) in simp_all)
  have "shm_same m (shm_with_allocator m a')"
    using spa_deallocate_layout [OF a'(1)] a' a(1)
    by (simp add: shm_same_def shm_bucket_size_def shm_max_alignment_def)
  with a(1) a' show ?thesis by (intro that [of "shm_with_allocator m a'"]) (simp_all add: shm_deallocate_bucket_def)
qed

text \<open>
  Creation with a storage that grants what it is asked for returns in every case, and a created
  memory is empty.
\<close>

lemma shm_create_total:
  assumes c: "0 < lsize c" "0 < lalign c" "lalign c \<le> payload \<or> payload = 0"
    and storage: "\<And>sz base start. create sz = Inr (base, start) \<Longrightarrow> base \<le> start"
    and small: "\<And>sz a. create sz = Inr a \<Longrightarrow> sz < 2 ^ 56 \<and> sz div lsize c < 2 ^ 24 - 1"
  obtains
    (failed) e where "shm_create dbg page_size create payload c = Some (Inl e)"
  | (created) m where "shm_create dbg page_size create payload c = Some (Inr m)" "shm_inv m" "shm_free m = shm_offsets m"
      "shm_bucket_size m = Some (lsize c)" "shm_max_alignment m = Some (lalign c)"
proof (cases "payload = 0")
  case True
  then show ?thesis by (intro failed) (simp add: shm_create_def)
next
  case pos: False
  let ?mg = "uis_memory_size (payload div lsize c)"
  have mgmt: "spa_management_size payload c = Some ?mg"
    using c(1) by (simp add: spa_management_size_def pool_memory_size_def)
  show ?thesis
  proof (cases "create (payload + ?mg)")
    case (Inl e)
    with pos mgmt show ?thesis by (intro failed) (simp add: shm_create_def Let_def)
  next
    case (Inr a)
    obtain base start where a: "a = (base, start)" by (cases a)
    from small [OF Inr] have sz: "payload < 2 ^ 56" "payload div lsize c < 2 ^ 24 - 1"
      using div_le_mono [of payload "payload + ?mg" "lsize c"] by auto
    have fit: "align start (lalign c) \<le> start + payload" using align_le [OF c(2), of start] c pos by linarith
    define n where "n = (start + payload - align start (lalign c)) div align (lsize c) (lalign c)"
    have bs: "0 < align (lsize c) (lalign c)" using align_ge [OF c(2), of "lsize c"] c(1) by linarith
    have calc: "pool_calc_number_of_buckets dbg c start payload = Some n"
      using fit bs by (simp add: pool_calc_number_of_buckets_def Let_def n_def)
    have n: "n < 2 ^ 24 - 1" using pool_buckets_fit(1) [OF calc c(2) fit] sz(2) by linarith
    show ?thesis
    proof (cases "lalign c \<le> page_size")
      case True
      obtain m where "shm_create dbg page_size create payload c = Some (Inr m)" "shm_inv m"
        "spa_free (shm_pool m) = spa_offsets (shm_pool m)"
        "pa_bucket_size (spa_allocator (shm_pool m)) = lsize c" "spa_max_alignment (shm_pool m) = lalign c"
        by (rule shm_create_fresh [OF c(1,2) True _ _ fit _ sz(1) n_def n, where create = create and dbg = dbg])
          (use Inr a mgmt storage pos in auto)
      then show ?thesis by (intro created [of m]) (auto simp: shm_bucket_size_def shm_max_alignment_def shm_inv_def)
    next
      case False
      let ?b = "bba_new start (payload + ?mg)"
      have payload: "bba_allocate ?b \<lparr>lsize = payload, lalign = 1\<rparr> = (Inr (start, payload), ?b\<lparr>bba_current_position := payload\<rparr>)"
        using pos by (simp add: bba_allocate_def bba_new_def align_def)
      obtain a0 where a0: "spa_new_uninit dbg page_size (start, payload) c = Some a0" "spa_max_alignment a0 = lalign c"
        "spa_max_supported_alignment_by_memory a0 = page_size"
        using calc n by (auto simp: spa_new_uninit_def pool_new_uninit_def uis_new_uninit_def spa_max_alignment_def)
      with False have "spa_init g a0 = Some (Inl MaxSupportedMemoryAlignmentInsufficient)" for g
        by (simp add: spa_init_def)
      with pos mgmt Inr a payload a0(1) storage [of "payload + ?mg" base start] show ?thesis
        by (intro failed) (simp add: shm_create_def Let_def shm_initialize_def)
    qed
  qed
qed

end
