(* ===== verification/Resizable_Memory.thy ===== *)
theory Resizable_Memory
  imports Shared_Memory Slot_Map
begin

text \<open>
  The resizable shared memory (\<^verbatim>\<open>iceoryx2-cal/src/resizable_shared_memory/dynamic.rs\<close>) with the pool
  allocator: the owner (prefix \<open>dm\<close>) allocates from its current segment and creates a larger one when
  that does not fit, the view of another process (prefix \<open>dv\<close>) maps segments on demand. A segment
  other than the current one lives as long as it has chunks. The storage that
  holds segment \<open>k\<close> is the parameter \<open>create k\<close>, opening segment \<open>k\<close> the parameter \<open>open_segment k\<close>.
\<close>

definition MAX_NUMBER_OF_REALLOCATIONS :: nat where
  "MAX_NUMBER_OF_REALLOCATIONS = unat max_segment_id + 1"

definition INVALID_KEY :: nat where
  "INVALID_KEY = usize_max"

datatype ResizableShmAllocationError =
  ShmAllocationErrorOf ShmAllocationError | MaxReallocationsReached | SharedMemoryCreateErrorOf SharedMemoryCreateError

section \<open>Segments with their number of chunks\<close>

record shm_entry =
  se_shm :: shm_memory
  se_chunk_count :: u64

datatype ShmEntryState = Empty | NonEmpty

definition se_new :: "shm_memory \<Rightarrow> shm_entry" where
  "se_new shm = \<lparr>se_shm = shm, se_chunk_count = 0\<rparr>"

definition se_register_offset :: "shm_entry \<Rightarrow> shm_entry" where
  "se_register_offset e = e\<lparr>se_chunk_count := se_chunk_count e + 1\<rparr>"

definition se_unregister_offset :: "shm_entry \<Rightarrow> ShmEntryState \<times> shm_entry" where
  "se_unregister_offset e =
     (if se_chunk_count e = 1 then Empty else NonEmpty, e\<lparr>se_chunk_count := se_chunk_count e - 1\<rparr>)"

section \<open>The owner\<close>

record dynamic_memory_builder =
  dmb_allocation_strategy :: AllocationStrategy
  dmb_max_number_of_chunks_hint :: u64
  dmb_max_chunk_size_hint :: u64
  dmb_max_chunk_alignment_hint :: u64

definition dmb_new :: dynamic_memory_builder where
  "dmb_new = \<lparr>dmb_allocation_strategy = Static, dmb_max_number_of_chunks_hint = 1, dmb_max_chunk_size_hint = 1,
     dmb_max_chunk_alignment_hint = 1\<rparr>"

definition dmb_set_max_chunk_layout_hint :: "layout \<Rightarrow> dynamic_memory_builder \<Rightarrow> dynamic_memory_builder" where
  "dmb_set_max_chunk_layout_hint l b =
     b\<lparr>dmb_max_chunk_size_hint := of_nat (lsize l), dmb_max_chunk_alignment_hint := of_nat (lalign l)\<rparr>"

definition dmb_set_max_number_of_chunks_hint :: "nat \<Rightarrow> dynamic_memory_builder \<Rightarrow> dynamic_memory_builder" where
  "dmb_set_max_number_of_chunks_hint n b = b\<lparr>dmb_max_number_of_chunks_hint := of_nat n\<rparr>"

definition dmb_set_allocation_strategy :: "AllocationStrategy \<Rightarrow> dynamic_memory_builder \<Rightarrow> dynamic_memory_builder" where
  "dmb_set_allocation_strategy s b = b\<lparr>dmb_allocation_strategy := s\<rparr>"

record dynamic_memory =
  dm_allocation_strategy :: AllocationStrategy
  dm_allocator_config_hint :: layout
  dm_shared_memory_map :: "shm_entry slot_map"
  dm_current_idx :: SlotMapKey

text \<open>The management segment only marks that the memory exists; \<open>create_mgmt\<close> is its storage.\<close>

definition dm_create ::
  "bool \<Rightarrow> nat \<Rightarrow> (nat \<Rightarrow> DynamicStorageCreateError + (nat \<times> nat)) \<Rightarrow>
   (SegmentId \<Rightarrow> nat \<Rightarrow> DynamicStorageCreateError + (nat \<times> nat)) \<Rightarrow> dynamic_memory_builder \<Rightarrow>
   (SharedMemoryCreateError + dynamic_memory) option" where
  "dm_create dbg page_size create_mgmt create b = do {
     let mgmt_hint = spa_initial_setup_hint \<lparr>lsize = 1, lalign = 1\<rparr> 1;
     mgmt_segment \<leftarrow> shm_create dbg page_size create_mgmt (hint_payload_size mgmt_hint) (hint_bucket_layout mgmt_hint);
     case mgmt_segment of
       Inl e \<Rightarrow> Some (Inl e)
     | Inr _ \<Rightarrow> do {
         let hint = spa_initial_setup_hint
           \<lparr>lsize = unat (dmb_max_chunk_size_hint b), lalign = unat (dmb_max_chunk_alignment_hint b)\<rparr>
           (unat (dmb_max_number_of_chunks_hint b));
         r \<leftarrow> shm_create dbg page_size (create 0) (hint_payload_size hint) (hint_bucket_layout hint);
         case r of
           Inl e \<Rightarrow> Some (Inl e)
         | Inr shm \<Rightarrow> do {
             m \<leftarrow> sm_new dbg MAX_NUMBER_OF_REALLOCATIONS;
             (key, m1) \<leftarrow> sm_insert dbg m (se_new shm);
             current_idx \<leftarrow> key;
             Some (Inr \<lparr>dm_allocation_strategy = dmb_allocation_strategy b, dm_allocator_config_hint = hint_bucket_layout hint,
               dm_shared_memory_map = m1, dm_current_idx = current_idx\<rparr>) } } }"

definition dm_create_resized_segment ::
  "bool \<Rightarrow> nat \<Rightarrow> (SegmentId \<Rightarrow> nat \<Rightarrow> DynamicStorageCreateError + (nat \<times> nat)) \<Rightarrow> dynamic_memory \<Rightarrow> shm_memory \<Rightarrow>
   layout \<Rightarrow> ((ResizableShmAllocationError + unit) \<times> dynamic_memory) option" where
  "dm_create_resized_segment dbg page_size create s shm l = do {
     a \<leftarrow> shm_allocator shm;
     let adjusted_segment_setup = spa_resize_hint a l (dm_allocation_strategy s);
     let new_number_of_reallocations = dm_current_idx s + 1;
     if new_number_of_reallocations < MAX_NUMBER_OF_REALLOCATIONS
     then do {
       let segment_id = new_number_of_reallocations;
       let s1 = s\<lparr>dm_allocator_config_hint := hint_bucket_layout adjusted_segment_setup\<rparr>;
       r \<leftarrow> shm_create dbg page_size (create (of_nat segment_id)) (hint_payload_size adjusted_segment_setup)
         (dm_allocator_config_hint s1);
       case r of
         Inl e \<Rightarrow> Some (Inl (SharedMemoryCreateErrorOf e), s1)
       | Inr new_shm \<Rightarrow> do {
           current \<leftarrow> sm_get dbg (dm_shared_memory_map s1) (dm_current_idx s1);
           segment \<leftarrow> current;
           m1 \<leftarrow> (if se_chunk_count segment = 0
                  then map_option snd (sm_remove dbg (dm_shared_memory_map s1) (dm_current_idx s1))
                  else Some (dm_shared_memory_map s1));
           (_, m2) \<leftarrow> sm_insert_at dbg m1 segment_id (se_new new_shm);
           Some (Inr (), s1\<lparr>dm_shared_memory_map := m2, dm_current_idx := segment_id\<rparr>) } }
     else Some (Inl MaxReallocationsReached, s) }"

definition dm_handle_reallocation ::
  "bool \<Rightarrow> nat \<Rightarrow> (SegmentId \<Rightarrow> nat \<Rightarrow> DynamicStorageCreateError + (nat \<times> nat)) \<Rightarrow> ShmAllocationError \<Rightarrow> dynamic_memory \<Rightarrow>
   layout \<Rightarrow> shm_memory \<Rightarrow> ((ResizableShmAllocationError + unit) \<times> dynamic_memory) option" where
  "dm_handle_reallocation dbg page_size create e s l shm =
     (if e = AllocationErrorOf OutOfMemory \<or> e = ExceedsMaxSupportedAlignment \<or> e = AllocationErrorOf SizeTooLarge
      then (if dm_allocation_strategy s = Static then Some (Inl (ShmAllocationErrorOf e), s)
            else dm_create_resized_segment dbg page_size create s shm l)
      else Some (Inl (ShmAllocationErrorOf e), s))"

lemma dm_handle_reallocation_next:
  "dm_handle_reallocation dbg page_size create e s l shm = Some (Inr u, s') \<Longrightarrow>
   dm_current_idx s' = dm_current_idx s + 1 \<and> dm_current_idx s' < MAX_NUMBER_OF_REALLOCATIONS"
  by (auto simp: dm_handle_reallocation_def dm_create_resized_segment_def Let_def
      split: if_split_asm Option.bind_split_asm sum.split_asm)

text \<open>
  The loop of \<open>allocate\<close>. The chunk counter and the allocator of the entry are changed in place.
\<close>

function dm_allocate ::
  "bool \<Rightarrow> nat \<Rightarrow> (SegmentId \<Rightarrow> nat \<Rightarrow> DynamicStorageCreateError + (nat \<times> nat)) \<Rightarrow> dynamic_memory \<Rightarrow> layout \<Rightarrow>
   ((ResizableShmAllocationError + ShmPointer) \<times> dynamic_memory) option" where
  "dm_allocate dbg page_size create s l = do {
     current \<leftarrow> sm_get dbg (dm_shared_memory_map s) (dm_current_idx s);
     entry \<leftarrow> current;
     (r, shm1) \<leftarrow> shm_allocate dbg (se_shm entry) l;
     case r of
       Inr p \<Rightarrow> do {
         (_, m1) \<leftarrow> sm_get_mut dbg (dm_shared_memory_map s) (dm_current_idx s)
           (\<lambda>e. se_register_offset (e\<lparr>se_shm := shm1\<rparr>));
         Some (Inr (p\<lparr>sp_offset := po_set_segment_id (sp_offset p) (of_nat (dm_current_idx s))\<rparr>),
               s\<lparr>dm_shared_memory_map := m1\<rparr>) }
     | Inl e \<Rightarrow> do {
         (_, m1) \<leftarrow> sm_get_mut dbg (dm_shared_memory_map s) (dm_current_idx s) (\<lambda>e. e\<lparr>se_shm := shm1\<rparr>);
         case dm_handle_reallocation dbg page_size create e (s\<lparr>dm_shared_memory_map := m1\<rparr>) l shm1 of
           None \<Rightarrow> None
         | Some (Inl err, s1) \<Rightarrow> Some (Inl err, s1)
         | Some (Inr _, s1) \<Rightarrow> dm_allocate dbg page_size create s1 l } }"
  by pat_completeness auto
termination
  by (relation "measure (\<lambda>(dbg, page_size, create, s, l). MAX_NUMBER_OF_REALLOCATIONS - dm_current_idx s)")
    (auto dest!: dm_handle_reallocation_next)

declare dm_allocate.simps [simp del]

definition dm_perform_deallocation ::
  "bool \<Rightarrow> dynamic_memory \<Rightarrow> PointerOffset \<Rightarrow> (shm_memory \<Rightarrow> shm_memory option) \<Rightarrow> dynamic_memory option" where
  "dm_perform_deallocation dbg s offset deallocation_call = do {
     let segment_id = unat (po_segment_id offset);
     found \<leftarrow> sm_get dbg (dm_shared_memory_map s) segment_id;
     entry \<leftarrow> found;
     shm1 \<leftarrow> deallocation_call (se_shm entry);
     let (state, entry1) = se_unregister_offset (entry\<lparr>se_shm := shm1\<rparr>);
     (_, m1) \<leftarrow> sm_get_mut dbg (dm_shared_memory_map s) segment_id (\<lambda>_. entry1);
     m2 \<leftarrow> (if state = Empty \<and> segment_id \<noteq> dm_current_idx s
            then map_option snd (sm_remove dbg m1 segment_id) else Some m1);
     Some (s\<lparr>dm_shared_memory_map := m2\<rparr>) }"

definition dm_deallocate_bucket :: "bool \<Rightarrow> dynamic_memory \<Rightarrow> PointerOffset \<Rightarrow> dynamic_memory option" where
  "dm_deallocate_bucket dbg s offset =
     dm_perform_deallocation dbg s offset (\<lambda>shm. shm_deallocate_bucket dbg shm offset)"

definition dm_bucket_size :: "bool \<Rightarrow> dynamic_memory \<Rightarrow> SegmentId \<Rightarrow> nat option" where
  "dm_bucket_size dbg s segment_id = do {
     found \<leftarrow> sm_get dbg (dm_shared_memory_map s) (unat segment_id);
     entry \<leftarrow> found;
     shm_bucket_size (se_shm entry) }"

definition dm_number_of_active_segments :: "dynamic_memory \<Rightarrow> nat" where
  "dm_number_of_active_segments s = sm_len (dm_shared_memory_map s)"

section \<open>The view\<close>

record dynamic_view =
  dv_shared_memory_map :: "shm_entry slot_map"
  dv_current_idx :: nat

definition dv_open :: "bool \<Rightarrow> SharedMemoryOpenError + shm_memory \<Rightarrow> (SharedMemoryOpenError + dynamic_view) option" where
  "dv_open dbg mgmt_segment = (case mgmt_segment of
      Inl e \<Rightarrow> Some (Inl e)
    | Inr _ \<Rightarrow> do {
        m \<leftarrow> sm_new dbg MAX_NUMBER_OF_REALLOCATIONS;
        Some (Inr \<lparr>dv_shared_memory_map = m, dv_current_idx = INVALID_KEY\<rparr>) })"

definition dv_release_old_unused_segments :: "bool \<Rightarrow> shm_entry slot_map \<Rightarrow> nat \<Rightarrow> shm_entry slot_map option" where
  "dv_release_old_unused_segments dbg m old_idx =
     (if old_idx = INVALID_KEY then Some m
      else do {
        found \<leftarrow> sm_get dbg m old_idx;
        case found of
          Some shm \<Rightarrow> if se_chunk_count shm = 0 then map_option snd (sm_remove dbg m old_idx) else Some m
        | None \<Rightarrow> Some m })"

definition dv_register_and_translate_offset ::
  "bool \<Rightarrow> (SegmentId \<Rightarrow> SharedMemoryOpenError + shm_memory) \<Rightarrow> dynamic_view \<Rightarrow> PointerOffset \<Rightarrow>
   ((SharedMemoryOpenError + nat) \<times> dynamic_view) option" where
  "dv_register_and_translate_offset dbg open_segment v p = do {
     let segment_id = po_segment_id p;
     let offset = po_offset p;
     let key = unat segment_id;
     found \<leftarrow> sm_get dbg (dv_shared_memory_map v) key;
     case found of
       None \<Rightarrow> (case open_segment segment_id of
           Inl e \<Rightarrow> Some (Inl e, v)
         | Inr shm \<Rightarrow> do {
             let payload_start_address = shm_payload_start_address shm;
             let entry = se_register_offset (se_new shm);
             (_, m1) \<leftarrow> sm_insert_at dbg (dv_shared_memory_map v) key entry;
             m2 \<leftarrow> dv_release_old_unused_segments dbg m1 (dv_current_idx v);
             Some (Inr (offset + payload_start_address), v\<lparr>dv_shared_memory_map := m2, dv_current_idx := key\<rparr>) })
     | Some entry \<Rightarrow> do {
         (_, m1) \<leftarrow> sm_get_mut dbg (dv_shared_memory_map v) key se_register_offset;
         Some (Inr (offset + shm_payload_start_address (se_shm entry)), v\<lparr>dv_shared_memory_map := m1\<rparr>) } }"

definition dv_unregister_offset :: "bool \<Rightarrow> dynamic_view \<Rightarrow> PointerOffset \<Rightarrow> dynamic_view option" where
  "dv_unregister_offset dbg v p = do {
     let key = unat (po_segment_id p);
     found \<leftarrow> sm_get dbg (dv_shared_memory_map v) key;
     case found of
       Some entry \<Rightarrow> do {
         let (state, entry1) = se_unregister_offset entry;
         (_, m1) \<leftarrow> sm_get_mut dbg (dv_shared_memory_map v) key (\<lambda>_. entry1);
         m2 \<leftarrow> (if state = Empty \<and> dv_current_idx v \<noteq> key then map_option snd (sm_remove dbg m1 key) else Some m1);
         Some (v\<lparr>dv_shared_memory_map := m2\<rparr>) }
     | None \<Rightarrow> Some v }"

definition dv_number_of_active_segments :: "dynamic_view \<Rightarrow> nat" where
  "dv_number_of_active_segments v = sm_len (dv_shared_memory_map v)"

section \<open>Chunks of the owner\<close>

text \<open>The offsets in use of one segment, and an entry whose counter counts them.\<close>

definition se_held :: "shm_entry \<Rightarrow> PointerOffset set" where
  "se_held e = shm_offsets (se_shm e) - shm_free (se_shm e)"

definition se_ok :: "nat \<Rightarrow> shm_entry \<Rightarrow> bool" where
  "se_ok s0 e \<longleftrightarrow> shm_inv (se_shm e) \<and> unat (se_chunk_count e) = card (se_held e) \<and>
     0 < s0 \<and> s0 \<le> the (shm_bucket_size (se_shm e)) \<and> 0 < the (shm_max_alignment (se_shm e)) \<and>
     the (shm_max_alignment (se_shm e)) dvd the (shm_bucket_size (se_shm e))"

lemma shm_offsets_finite [simp]: "finite (shm_offsets m)"
  by (simp add: spa_offsets_def)

lemma se_held_finite [simp]: "finite (se_held e)"
  by (simp add: se_held_def)

lemma se_held_card:
  assumes "shm_inv (se_shm e)"
  shows "card (se_held e) < 2 ^ 24"
proof -
  let ?a = "shm_pool (se_shm e)"
  from assms have a: "spa_inv ?a" using shm_invD by blast
  have "card (se_held e) \<le> card (spa_offsets ?a)" by (auto simp: se_held_def intro: card_mono)
  also have "\<dots> = spa_number_of_buckets ?a" by (rule spa_counts(1) [OF a])
  also have "\<dots> < 2 ^ 24"
    using a uis_capacity_small [of "pa_buckets (spa_allocator ?a)", OF _ order_refl]
    by (simp add: spa_number_of_buckets_def spa_inv_def pool_inv_def uis_unlocked_def word_less_nat_alt)
  finally show ?thesis .
qed

lemma se_ok_new:
  assumes "shm_inv m" "shm_free m = shm_offsets m" "0 < s0" "s0 \<le> the (shm_bucket_size m)"
    "0 < the (shm_max_alignment m)" "the (shm_max_alignment m) dvd the (shm_bucket_size m)"
  shows "se_ok s0 (se_new m)" "se_held (se_new m) = {}"
  using assms by (simp_all add: se_ok_def se_held_def se_new_def)

lemma se_count_zero: "se_ok s0 e \<Longrightarrow> se_chunk_count e = 0 \<longleftrightarrow> se_held e = {}"
  by (auto simp: se_ok_def unat_eq_0 [symmetric])

lemma se_register:
  assumes ok: "se_ok s0 e" and p: "p \<in> shm_free (se_shm e)"
    and m: "shm_free m = shm_free (se_shm e) - {p}" "shm_inv m" "shm_same (se_shm e) m"
  shows "se_ok s0 (se_register_offset (e\<lparr>se_shm := m\<rparr>))" "se_held (se_register_offset (e\<lparr>se_shm := m\<rparr>)) = insert p (se_held e)"
proof -
  let ?e = "se_register_offset (e\<lparr>se_shm := m\<rparr>)"
  from ok have inv: "shm_inv (se_shm e)" by (simp add: se_ok_def)
  from shm_free_subset [OF inv] p have "p \<in> shm_offsets (se_shm e)" by auto
  with p m show held: "se_held ?e = insert p (se_held e)"
    by (auto simp: se_held_def se_register_offset_def shm_same_def)
  from p have "p \<notin> se_held e" by (simp add: se_held_def)
  with held have card: "card (se_held ?e) = card (se_held e) + 1" by simp
  moreover have "unat (se_chunk_count e + 1) = unat (se_chunk_count e) + 1"
    using se_held_card [OF inv] ok by (simp add: se_ok_def unat_word_ariths)
  ultimately show "se_ok s0 ?e"
    using ok m by (simp add: se_ok_def se_register_offset_def shm_same_def)
qed

lemma se_unregister:
  assumes ok: "se_ok s0 e" and p: "p \<in> se_held e"
    and m: "shm_free m = insert p (shm_free (se_shm e))" "shm_inv m" "shm_same (se_shm e) m"
  obtains e' where "se_unregister_offset (e\<lparr>se_shm := m\<rparr>) = (if se_held e' = {} then Empty else NonEmpty, e')"
    "se_ok s0 e'" "se_held e' = se_held e - {p}" "se_shm e' = m"
proof -
  define e' where "e' = e\<lparr>se_shm := m, se_chunk_count := se_chunk_count e - 1\<rparr>"
  have held: "se_held e' = se_held e - {p}"
    using m by (auto simp: se_held_def e'_def shm_same_def)
  then have card: "card (se_held e') = card (se_held e) - 1" "0 < card (se_held e)"
    using p by (auto simp: card_gt_0_iff)
  from ok have count: "unat (se_chunk_count e) = card (se_held e)" by (simp add: se_ok_def)
  then have "unat (se_chunk_count e - 1) = card (se_held e')"
    using card by (subst unat_minus_one) auto
  with ok m have ok': "se_ok s0 e'" by (simp add: se_ok_def e'_def shm_same_def)
  have "se_chunk_count e = 1 \<longleftrightarrow> card (se_held e) = 1" using count by (simp add: word_unat_eq_iff)
  also have "\<dots> \<longleftrightarrow> card (se_held e') = 0" using card by linarith
  also have "\<dots> \<longleftrightarrow> se_held e' = {}" by (rule card_0_eq [OF se_held_finite])
  finally have "se_unregister_offset (e\<lparr>se_shm := m\<rparr>) = (if se_held e' = {} then Empty else NonEmpty, e')"
    by (simp add: se_unregister_offset_def e'_def)
  then show ?thesis using ok' held by (rule that) (simp add: e'_def)
qed

text \<open>
  The invariant of the owner: the current segment exists, every segment is sound, older segments
  have chunks in use, and no segment is newer than the current one. The chunks in use are pairs of
  a segment and an offset in it.
\<close>

abbreviation dm_segment :: "dynamic_memory \<Rightarrow> SlotMapKey \<Rightarrow> shm_entry option" where
  "dm_segment s \<equiv> sm_map (dm_shared_memory_map s)"

definition dm_inv :: "nat \<Rightarrow> dynamic_memory \<Rightarrow> bool" where
  "dm_inv s0 s \<longleftrightarrow> sm_ok (dm_shared_memory_map s) \<and>
     sm_capacity (dm_shared_memory_map s) = MAX_NUMBER_OF_REALLOCATIONS \<and> dm_segment s (dm_current_idx s) \<noteq> None \<and>
     (\<forall>k e. dm_segment s k = Some e \<longrightarrow> k \<le> dm_current_idx s \<and> se_ok s0 e \<and> (k \<noteq> dm_current_idx s \<longrightarrow> se_held e \<noteq> {}))"

definition dm_chunks :: "dynamic_memory \<Rightarrow> (SlotMapKey \<times> PointerOffset) set" where
  "dm_chunks s = {(k, p). \<exists>e. dm_segment s k = Some e \<and> p \<in> se_held e}"

lemma dm_invD:
  assumes "dm_inv s0 s"
  obtains e where "sm_ok (dm_shared_memory_map s)" "sm_capacity (dm_shared_memory_map s) = MAX_NUMBER_OF_REALLOCATIONS"
    "dm_segment s (dm_current_idx s) = Some e" "se_ok s0 e" "dm_current_idx s < MAX_NUMBER_OF_REALLOCATIONS"
    "sm_get dbg (dm_shared_memory_map s) (dm_current_idx s) = Some (Some e)"
proof -
  from assms obtain e where e: "sm_ok (dm_shared_memory_map s)" "sm_capacity (dm_shared_memory_map s) = MAX_NUMBER_OF_REALLOCATIONS"
    "dm_segment s (dm_current_idx s) = Some e" "se_ok s0 e" by (auto simp: dm_inv_def)
  from sm_ok_dom [OF e(1,3)] e(2) have "dm_current_idx s < MAX_NUMBER_OF_REALLOCATIONS" by simp
  with e sm_ok_get [OF e(1), of "dm_current_idx s" dbg] that show ?thesis by simp
qed

lemma dm_segment_ok: "dm_inv s0 s \<Longrightarrow> dm_segment s k = Some e \<Longrightarrow> se_ok s0 e \<and> k \<le> dm_current_idx s"
  by (simp add: dm_inv_def)

text \<open>Exchanging the entry of one segment.\<close>

lemma dm_exchange:
  assumes inv: "dm_inv s0 s" and k: "dm_segment s k = Some e" and e': "se_ok s0 e'" "se_held e' \<noteq> {} \<or> k = dm_current_idx s"
    and m: "sm_ok m" "sm_map m = (sm_map (dm_shared_memory_map s))(k \<mapsto> e')"
      "sm_capacity m = sm_capacity (dm_shared_memory_map s)"
  shows "dm_inv s0 (s\<lparr>dm_shared_memory_map := m\<rparr>)"
    "dm_chunks (s\<lparr>dm_shared_memory_map := m\<rparr>) = (dm_chunks s - {k} \<times> UNIV) \<union> {k} \<times> se_held e'"
proof -
  show "dm_inv s0 (s\<lparr>dm_shared_memory_map := m\<rparr>)" using inv k e' m by (auto simp: dm_inv_def)
  show "dm_chunks (s\<lparr>dm_shared_memory_map := m\<rparr>) = (dm_chunks s - {k} \<times> UNIV) \<union> {k} \<times> se_held e'"
    using m(2) by (auto simp: dm_chunks_def split: if_split_asm)
qed

lemma dm_chunks_segment: "dm_segment s k = Some e \<Longrightarrow> (k, p) \<in> dm_chunks s \<longleftrightarrow> p \<in> se_held e"
  by (simp add: dm_chunks_def)

section \<open>Growing\<close>

text \<open>What the development assumes of the storage: it grants what was asked for, within the sizes a pool supports.\<close>

definition storage_grants :: "nat \<Rightarrow> (SegmentId \<Rightarrow> nat \<Rightarrow> DynamicStorageCreateError + (nat \<times> nat)) \<Rightarrow> bool" where
  "storage_grants s0 create \<longleftrightarrow> (\<forall>k sz base start. create k sz = Inr (base, start) \<longrightarrow>
     base \<le> start \<and> sz < 2 ^ 56 \<and> sz div s0 < 2 ^ 24 - 1)"

lemma storage_grants_small:
  assumes "storage_grants s0 create" "create k sz = Inr a" "0 < s0" "s0 \<le> n"
  shows "sz < 2 ^ 56 \<and> sz div n < 2 ^ 24 - 1"
proof -
  have "create k sz = Inr (fst a, snd a)" using assms(2) by simp
  with assms(1) have "sz < 2 ^ 56" "sz div s0 < 2 ^ 24 - 1" unfolding storage_grants_def by blast+
  moreover have "sz div n \<le> sz div s0" using assms(3,4) by (rule div_le_mono2)
  ultimately show ?thesis by simp
qed

lemma dm_create_resized_segment_cases:
  assumes inv: "dm_inv s0 s" and e: "dm_segment s (dm_current_idx s) = Some e"
    and grants: "storage_grants s0 create" and strategy: "dm_allocation_strategy s \<noteq> Static"
  obtains
    (failed) err s' where "dm_create_resized_segment dbg page_size create s (se_shm e) l = Some (Inl err, s')"
      "dm_inv s0 s'" "dm_chunks s' = dm_chunks s" "dm_current_idx s' = dm_current_idx s"
      "dm_shared_memory_map s' = dm_shared_memory_map s" "dm_allocation_strategy s' = dm_allocation_strategy s"
  | (grown) s' e' where "dm_create_resized_segment dbg page_size create s (se_shm e) l = Some (Inr (), s')"
      "dm_inv s0 s'" "dm_chunks s' = dm_chunks s" "dm_current_idx s' = dm_current_idx s + 1"
      "dm_segment s' (dm_current_idx s') = Some e'" "se_held e' = {}"
      "lsize l \<le> the (shm_bucket_size (se_shm e'))" "lalign l \<le> the (shm_max_alignment (se_shm e'))"
      "dm_allocation_strategy s' = dm_allocation_strategy s"
proof -
  let ?n = "dm_current_idx s + 1" and ?m = "dm_shared_memory_map s"
  obtain e1 where ok: "sm_ok ?m" "sm_capacity ?m = MAX_NUMBER_OF_REALLOCATIONS"
    "dm_segment s (dm_current_idx s) = Some e1" "se_ok s0 e1" "sm_get dbg ?m (dm_current_idx s) = Some (Some e1)"
    by (rule dm_invD [OF inv])
  with e have eok: "se_ok s0 e" and get: "sm_get dbg ?m (dm_current_idx s) = Some (Some e)" by simp_all
  from eok obtain a where a: "shm_allocator (se_shm e) = Some a" "spa_inv a" by (auto simp: se_ok_def shm_inv_def)
  define h where "h = spa_resize_hint a l (dm_allocation_strategy s)"
  let ?c = "hint_bucket_layout h"
  have pos: "0 < pa_bucket_alignment (spa_allocator a)"
    and dvd: "pa_bucket_alignment (spa_allocator a) dvd pa_bucket_size (spa_allocator a)"
    and s0: "0 < s0" "s0 \<le> pa_bucket_size (spa_allocator a)"
    using eok a(1) by (simp_all add: se_ok_def shm_bucket_size_def shm_max_alignment_def spa_max_alignment_def)
  obtain k where k: "hint_payload_size h = lsize ?c * k" "lsize l \<le> lsize ?c" "lalign l \<le> lalign ?c"
    "pa_bucket_size (spa_allocator a) \<le> lsize ?c"
    using spa_resize_hint_fits [OF strategy pos h_def] by blast
  have c: "lalign ?c dvd lsize ?c" "0 < lalign ?c" using spa_resize_hint_aligned [OF pos dvd h_def] by simp_all
  from s0 k(4) have lsize: "0 < lsize ?c" "s0 \<le> lsize ?c" by simp_all
  have "lalign ?c \<le> lsize ?c" using c lsize by (intro dvd_imp_le) simp_all
  then have payload: "lalign ?c \<le> hint_payload_size h \<or> hint_payload_size h = 0"
    by (cases k) (simp_all add: k(1))
  note inv_hint = inv [unfolded dm_inv_def]
  let ?s1 = "s\<lparr>dm_allocator_config_hint := ?c\<rparr>"
  show ?thesis
  proof (cases "?n < MAX_NUMBER_OF_REALLOCATIONS")
    case False
    then show ?thesis using inv a(1) by (intro failed [of _ s]) (simp_all add: dm_create_resized_segment_def)
  next
    case n: True
    have st: "base \<le> start" if "create (of_nat ?n) sz = Inr (base, start)" for sz base start
      using grants that unfolding storage_grants_def by blast
    have sm: "sz < 2 ^ 56 \<and> sz div lsize ?c < 2 ^ 24 - 1" if "create (of_nat ?n) sz = Inr r" for sz r
      by (rule storage_grants_small [OF grants that s0(1) lsize(2)])
    show ?thesis
    proof (rule shm_create_total [OF lsize(1) c(2) payload st sm, where dbg = dbg and page_size = page_size])
      fix err assume "shm_create dbg page_size (create (of_nat ?n)) (hint_payload_size h) ?c = Some (Inl err)"
      then have "dm_create_resized_segment dbg page_size create s (se_shm e) l = Some (Inl (SharedMemoryCreateErrorOf err), ?s1)"
        using n a(1) by (simp add: dm_create_resized_segment_def Let_def h_def)
      moreover have "dm_inv s0 ?s1" "dm_chunks ?s1 = dm_chunks s" using inv by (simp_all add: dm_inv_def dm_chunks_def)
      ultimately show ?thesis by (rule failed) simp_all
    next
      fix m assume create: "shm_create dbg page_size (create (of_nat ?n)) (hint_payload_size h) ?c = Some (Inr m)"
        and m: "shm_inv m" "shm_free m = shm_offsets m" "shm_bucket_size m = Some (lsize ?c)" "shm_max_alignment m = Some (lalign ?c)"
      let ?f = "if se_chunk_count e = 0 then (sm_map ?m)(dm_current_idx s := None) else sm_map ?m"
      obtain m1 where m1: "(if se_chunk_count e = 0 then map_option snd (sm_remove dbg ?m (dm_current_idx s)) else Some ?m) = Some m1"
        "sm_ok m1" "sm_map m1 = ?f" "sm_capacity m1 = MAX_NUMBER_OF_REALLOCATIONS"
      proof (cases "se_chunk_count e = 0")
        case True
        obtain m1 where "sm_remove dbg ?m (dm_current_idx s) = Some (True, m1)" "sm_ok m1"
          "sm_map m1 = (sm_map ?m)(dm_current_idx s := None)" "sm_capacity m1 = sm_capacity ?m"
          by (rule sm_ok_remove [OF ok(1) e])
        with True ok(2) show ?thesis by (intro that [of m1]) simp_all
      qed (use ok that in simp)
      obtain m2 where m2: "sm_insert_at dbg m1 ?n (se_new m) = Some (True, m2)" "sm_ok m2"
        "sm_map m2 = (sm_map m1)(?n \<mapsto> se_new m)" "sm_capacity m2 = sm_capacity m1"
        by (rule sm_ok_insert_at [OF m1(2), of ?n dbg "se_new m"]) (use n m1(4) in simp)
      let ?s2 = "?s1\<lparr>dm_shared_memory_map := m2, dm_current_idx := ?n\<rparr>"
      have run: "dm_create_resized_segment dbg page_size create s (se_shm e) l = Some (Inr (), ?s2)"
        using n a(1) create get m1(1) m2(1)
        by (cases "se_chunk_count e = 0") (auto simp: dm_create_resized_segment_def Let_def h_def)
      have new: "se_ok s0 (se_new m)" "se_held (se_new m) = {}"
        using se_ok_new [OF m(1,2) s0(1)] m(3,4) lsize c by simp_all
      have zero: "se_chunk_count e = 0 \<longleftrightarrow> se_held e = {}" by (rule se_count_zero [OF eok])
      have old: "x \<le> dm_current_idx s" "se_ok s0 y" "se_held y \<noteq> {}" if "sm_map m1 x = Some y" for x y
        using that inv_hint e zero by (cases "x = dm_current_idx s"; auto simp: m1(3) split: if_split_asm)+
      from new m2 m1(4) old have inv2: "dm_inv s0 ?s2" by (fastforce simp: dm_inv_def)
      have fresh: "dm_segment s ?n = None" using dm_segment_ok [OF inv, of ?n] by (cases "dm_segment s ?n") auto
      have chunks: "dm_chunks ?s2 = dm_chunks s"
        using new(2) zero e fresh unfolding dm_chunks_def by (auto simp: m2(3) m1(3) split: if_split_asm)
      show ?thesis
        by (rule grown [OF run inv2 chunks, of "se_new m"]) (use m k new(2) m2(3) in \<open>simp_all add: se_new_def\<close>)
    qed
  qed
qed

lemma dm_handle_reallocation_cases:
  assumes inv: "dm_inv s0 s" and e: "dm_segment s (dm_current_idx s) = Some e" and grants: "storage_grants s0 create"
  obtains
    (failed) err' s' where "dm_handle_reallocation dbg page_size create err s l (se_shm e) = Some (Inl err', s')"
      "dm_inv s0 s'" "dm_chunks s' = dm_chunks s"
  | (grown) s' where "dm_handle_reallocation dbg page_size create err s l (se_shm e) = Some (Inr (), s')"
      "dm_inv s0 s'" "dm_chunks s' = dm_chunks s" "dm_current_idx s' = dm_current_idx s + 1"
proof (cases "(err = AllocationErrorOf OutOfMemory \<or> err = ExceedsMaxSupportedAlignment \<or> err = AllocationErrorOf SizeTooLarge)
    \<and> dm_allocation_strategy s \<noteq> Static")
  case True
  then have eq: "dm_handle_reallocation dbg page_size create err s l (se_shm e) =
      dm_create_resized_segment dbg page_size create s (se_shm e) l"
    by (auto simp: dm_handle_reallocation_def)
  from True have "dm_allocation_strategy s \<noteq> Static" by blast
  with inv e grants show ?thesis
    by (cases rule: dm_create_resized_segment_cases [where dbg = dbg and page_size = page_size and l = l])
      (use that eq in auto)
next
  case False
  then show ?thesis using inv by (intro failed [of _ s]) (auto simp: dm_handle_reallocation_def)
qed

lemma dm_allocate_cases:
  assumes "dm_inv s0 s" and grants: "storage_grants s0 create"
  obtains
    (failed) err s' where "dm_allocate dbg page_size create s l = Some (Inl err, s')" "dm_inv s0 s'" "dm_chunks s' = dm_chunks s"
  | (allocated) p k a s' where "dm_allocate dbg page_size create s l = Some (Inr p, s')" "dm_inv s0 s'"
      "sp_offset p = po_set_segment_id a (of_nat k)" "(k, a) \<notin> dm_chunks s" "dm_chunks s' = insert (k, a) (dm_chunks s)"
  using assms(1)
proof (induction "MAX_NUMBER_OF_REALLOCATIONS - dm_current_idx s" arbitrary: s thesis rule: less_induct)
  case less
  let ?m = "dm_shared_memory_map s"
  obtain e where ok: "sm_ok ?m" "sm_capacity ?m = MAX_NUMBER_OF_REALLOCATIONS" "dm_segment s (dm_current_idx s) = Some e"
    "se_ok s0 e" "dm_current_idx s < MAX_NUMBER_OF_REALLOCATIONS" "sm_get dbg ?m (dm_current_idx s) = Some (Some e)"
    by (rule dm_invD [OF less.prems(3)])
  from ok(4) have shm: "shm_inv (se_shm e)" by (simp add: se_ok_def)
  have retry: thesis if err: "shm_allocate dbg (se_shm e) l = Some (Inl err, se_shm e)" for err
  proof -
    obtain m1 where m1: "sm_get_mut dbg ?m (dm_current_idx s) (\<lambda>x. x\<lparr>se_shm := se_shm e\<rparr>) = Some (True, m1)" "sm_ok m1"
      "sm_map m1 = (sm_map ?m)(dm_current_idx s \<mapsto> e\<lparr>se_shm := se_shm e\<rparr>)" "sm_capacity m1 = sm_capacity ?m"
      by (rule sm_ok_get_mut [OF ok(1,3)])
    let ?s = "s\<lparr>dm_shared_memory_map := m1\<rparr>"
    have same: "sm_map m1 = sm_map ?m" using m1(3) ok(3) by (simp add: fun_eq_iff)
    have inv: "dm_inv s0 ?s" and seg: "dm_segment ?s (dm_current_idx ?s) = Some e" and chunks: "dm_chunks ?s = dm_chunks s"
      using less.prems(3) m1(2,4) ok(3) by (simp_all add: dm_inv_def dm_chunks_def same)
    have step: "dm_allocate dbg page_size create s l =
      (case dm_handle_reallocation dbg page_size create err ?s l (se_shm e) of
         None \<Rightarrow> None | Some (Inl err, s1) \<Rightarrow> Some (Inl err, s1) | Some (Inr _, s1) \<Rightarrow> dm_allocate dbg page_size create s1 l)"
      using ok(6) err m1(1) by (subst dm_allocate.simps) simp
    from inv seg grants show thesis
    proof (cases rule: dm_handle_reallocation_cases [where dbg = dbg and page_size = page_size and err = err and l = l])
      case (failed err' s')
      with step chunks show thesis by (intro less.prems(1) [of err' s']) simp_all
    next
      case (grown s')
      with ok(5) have smaller: "MAX_NUMBER_OF_REALLOCATIONS - dm_current_idx s' < MAX_NUMBER_OF_REALLOCATIONS - dm_current_idx s" by simp
      have eq: "dm_allocate dbg page_size create s l = dm_allocate dbg page_size create s' l" using step grown(1) by simp
      show thesis
        by (rule less.hyps [OF smaller]) (use grown(2,3) chunks eq less.prems(1,2) in auto)
    qed
  qed
  show thesis
  proof (cases "lsize l \<le> the (shm_bucket_size (se_shm e)) \<and> lalign l \<le> the (shm_max_alignment (se_shm e))")
    case False
    then have "the (shm_bucket_size (se_shm e)) < lsize l \<or> the (shm_max_alignment (se_shm e)) < lalign l" by auto
    then show thesis by (rule shm_allocate_refused [OF shm, where dbg = dbg]) (use retry in blast)
  next
    case True
    then have "lsize l \<le> the (shm_bucket_size (se_shm e))" "lalign l \<le> the (shm_max_alignment (se_shm e))" by simp_all
    with shm show thesis
    proof (cases rule: shm_allocate_cases [where dbg = dbg])
      case (exhausted m')
      with retry show thesis by blast
    next
      case (allocated p m')
      let ?e = "se_register_offset (e\<lparr>se_shm := m'\<rparr>)"
      note reg = se_register [OF ok(4) allocated(2,4,5,6)]
      obtain m1 where m1: "sm_get_mut dbg ?m (dm_current_idx s) (\<lambda>x. se_register_offset (x\<lparr>se_shm := m'\<rparr>)) = Some (True, m1)"
        "sm_ok m1" "sm_map m1 = (sm_map ?m)(dm_current_idx s \<mapsto> ?e)" "sm_capacity m1 = sm_capacity ?m"
        by (rule sm_ok_get_mut [OF ok(1,3)])
      note ex = dm_exchange [OF less.prems(3) ok(3) reg(1) _ m1(2-4)]
      have "sp_offset p \<notin> se_held e" using allocated(2) by (simp add: se_held_def)
      with dm_chunks_segment [OF ok(3)] have fresh: "(dm_current_idx s, sp_offset p) \<notin> dm_chunks s" by simp
      have "dm_chunks (s\<lparr>dm_shared_memory_map := m1\<rparr>) = insert (dm_current_idx s, sp_offset p) (dm_chunks s)"
        using ex(2) reg(2) dm_chunks_segment [OF ok(3)] by auto
      moreover have "dm_allocate dbg page_size create s l =
          Some (Inr (p\<lparr>sp_offset := po_set_segment_id (sp_offset p) (of_nat (dm_current_idx s))\<rparr>), s\<lparr>dm_shared_memory_map := m1\<rparr>)"
        using ok(6) allocated(1) m1(1) by (subst dm_allocate.simps) simp
      ultimately show thesis using ex(1) fresh
        by (intro less.prems(2) [of "p\<lparr>sp_offset := po_set_segment_id (sp_offset p) (of_nat (dm_current_idx s))\<rparr>"
            "s\<lparr>dm_shared_memory_map := m1\<rparr>" "sp_offset p" "dm_current_idx s"]) simp_all
    qed
  qed
qed

section \<open>Deallocation and creation\<close>

lemma shm_deallocate_segment [simp]:
  "shm_deallocate_bucket dbg m (po_set_segment_id a k) = shm_deallocate_bucket dbg m a"
  by (simp add: shm_deallocate_bucket_def spa_deallocate_bucket_def)

lemma MAX_256: "MAX_NUMBER_OF_REALLOCATIONS = 256"
  by (simp add: MAX_NUMBER_OF_REALLOCATIONS_def max_segment_id_def unsigned_minus_1_eq_mask mask_eq_exp_minus_1)

lemma dm_chunks_less: "dm_inv s0 s \<Longrightarrow> (k, a) \<in> dm_chunks s \<Longrightarrow> k < 256"
  by (auto simp: dm_chunks_def dm_inv_def MAX_256 dest: sm_ok_dom)

lemma dm_deallocate_cases:
  assumes inv: "dm_inv s0 s" and held: "(k, a) \<in> dm_chunks s"
  obtains s' where "dm_deallocate_bucket dbg s (po_set_segment_id a (of_nat k)) = Some s'" "dm_inv s0 s'"
    "dm_chunks s' = dm_chunks s - {(k, a)}"
proof -
  let ?m = "dm_shared_memory_map s"
  from inv have ok: "sm_ok ?m" "sm_capacity ?m = MAX_NUMBER_OF_REALLOCATIONS" by (simp_all add: dm_inv_def)
  from held obtain e where e: "dm_segment s k = Some e" "a \<in> se_held e" by (auto simp: dm_chunks_def)
  from dm_segment_ok [OF inv e(1)] have eok: "se_ok s0 e" by simp
  then have shm: "shm_inv (se_shm e)" by (simp add: se_ok_def)
  have k: "unat (of_nat k :: u8) = k" using dm_chunks_less [OF inv held] by (simp add: unat_of_nat_small)
  have get: "sm_get dbg ?m k = Some (Some e)" using sm_ok_get [OF ok(1) sm_ok_dom [OF ok(1) e(1)], of dbg] e(1) by simp
  obtain m where m: "shm_deallocate_bucket dbg (se_shm e) a = Some m" "shm_free m = insert a (shm_free (se_shm e))"
    "shm_inv m" "shm_same (se_shm e) m"
    by (rule shm_deallocate_cases [OF shm, of a dbg]) (use e(2) in \<open>simp_all add: se_held_def\<close>)
  obtain e' where e': "se_unregister_offset (e\<lparr>se_shm := m\<rparr>) = (if se_held e' = {} then Empty else NonEmpty, e')"
    "se_ok s0 e'" "se_held e' = se_held e - {a}"
    by (rule se_unregister [OF eok e(2) m(2-4)])
  obtain m1 where m1: "sm_get_mut dbg ?m k (\<lambda>_. e') = Some (True, m1)" "sm_ok m1" "sm_map m1 = (sm_map ?m)(k \<mapsto> e')"
    "sm_capacity m1 = sm_capacity ?m"
    by (rule sm_ok_get_mut [OF ok(1) e(1)])
  show ?thesis
  proof (cases "se_held e' = {} \<and> k \<noteq> dm_current_idx s")
    case True
    from m1(3) have "sm_map m1 k = Some e'" by simp
    then obtain m2 where m2: "sm_remove dbg m1 k = Some (True, m2)" "sm_ok m2" "sm_map m2 = (sm_map m1)(k := None)"
      "sm_capacity m2 = sm_capacity m1"
      by (rule sm_ok_remove [OF m1(2)])
    let ?s = "s\<lparr>dm_shared_memory_map := m2\<rparr>"
    have "dm_deallocate_bucket dbg s (po_set_segment_id a (of_nat k)) = Some ?s"
      using True k get m(1) e'(1) m1(1) m2(1) by (simp add: dm_deallocate_bucket_def dm_perform_deallocation_def)
    moreover have "dm_inv s0 ?s" using inv True m1(3,4) m2 by (simp add: dm_inv_def)
    moreover have "dm_chunks ?s = dm_chunks s - {(k, a)}"
      using True e e'(3) m1(3) m2(3) by (auto simp: dm_chunks_def split: if_split_asm)
    ultimately show ?thesis by (rule that)
  next
    case False
    let ?s = "s\<lparr>dm_shared_memory_map := m1\<rparr>"
    from False have live: "se_held e' \<noteq> {} \<or> k = dm_current_idx s" by blast
    note ex = dm_exchange [OF inv e(1) e'(2) live m1(2-4)]
    have "dm_deallocate_bucket dbg s (po_set_segment_id a (of_nat k)) = Some ?s"
      using False k get m(1) e'(1) m1(1) by (auto simp: dm_deallocate_bucket_def dm_perform_deallocation_def)
    moreover have "dm_chunks ?s = dm_chunks s - {(k, a)}"
      using ex(2) e'(3) dm_chunks_segment [OF e(1)] by auto
    ultimately show ?thesis using ex(1) by (intro that [of ?s])
  qed
qed

lemma dm_create_fresh:
  assumes create: "dm_create dbg page_size create_mgmt create b = Some (Inr s)"
    and l: "s0 = unat (dmb_max_chunk_size_hint b)" "0 < s0" "0 < dmb_max_chunk_alignment_hint b"
      "unat (dmb_max_chunk_alignment_hint b) dvd s0"
    and grants: "storage_grants s0 create"
  shows "dm_inv s0 s" "dm_chunks s = {}" "dm_current_idx s = 0" "dm_allocation_strategy s = dmb_allocation_strategy b"
proof -
  let ?c = "\<lparr>lsize = s0, lalign = unat (dmb_max_chunk_alignment_hint b)\<rparr>"
  let ?n = "s0 * unat (dmb_max_number_of_chunks_hint b)"
  from create obtain m sm key m1 where run: "shm_create dbg page_size (create 0) ?n ?c = Some (Inr m)"
    "sm_new dbg MAX_NUMBER_OF_REALLOCATIONS = Some sm" "sm_insert dbg sm (se_new m) = Some (Some key, m1)"
    and s: "s = \<lparr>dm_allocation_strategy = dmb_allocation_strategy b, dm_allocator_config_hint = ?c,
        dm_shared_memory_map = m1, dm_current_idx = key\<rparr>"
    by (auto simp: dm_create_def Let_def spa_initial_setup_hint_def l(1) split: Option.bind_split_asm sum.split_asm)
  have align: "0 < lalign ?c" using l(3) by (simp add: word_less_nat_alt)
  have payload: "lalign ?c \<le> ?n \<or> ?n = 0"
    using dvd_imp_le [OF l(4,2)] by (cases "unat (dmb_max_number_of_chunks_hint b)") auto
  have st: "base \<le> start" if "create 0 sz = Inr (base, start)" for sz base start
    using grants that unfolding storage_grants_def by blast
  have sm: "sz < 2 ^ 56 \<and> sz div lsize ?c < 2 ^ 24 - 1" if "create 0 sz = Inr r" for sz r
    using storage_grants_small [OF grants that l(2), of s0] by simp
  have new: "se_ok s0 (se_new m)" "se_held (se_new m) = {}"
  proof -
    from l(2) have "0 < lsize ?c" by simp
    then have "shm_inv m \<and> shm_free m = shm_offsets m \<and> shm_bucket_size m = Some s0 \<and> shm_max_alignment m = Some (lalign ?c)"
      by (rule shm_create_total [OF _ align payload st sm, where dbg = dbg and page_size = page_size]) (use run(1) in auto)
    with se_ok_new [of m s0] l(2,4) align show "se_ok s0 (se_new m)" "se_held (se_new m) = {}" by simp_all
  qed
  obtain m1' where "sm_insert dbg sm (se_new m) = Some (Some 0, m1')" "sm_ok m1'" "sm_map m1' = [0 \<mapsto> se_new m]"
    "sm_capacity m1' = MAX_NUMBER_OF_REALLOCATIONS"
    by (rule sm_ok_first_insert [OF _ _ run(2), of "se_new m"]) (simp_all add: MAX_256 INVALID_def)
  with run(3) have "sm_ok m1" "sm_map m1 = [0 \<mapsto> se_new m]" "sm_capacity m1 = MAX_NUMBER_OF_REALLOCATIONS" "key = 0" by simp_all
  with new show "dm_inv s0 s" "dm_chunks s = {}" "dm_current_idx s = 0" "dm_allocation_strategy s = dmb_allocation_strategy b"
    by (auto simp: dm_inv_def dm_chunks_def s split: if_split_asm)
qed

section \<open>Programs over the owner\<close>

datatype dm_op = DmAllocate layout | DmDeallocate nat

text \<open>A client that keeps the offsets it holds and frees the one at a given position.\<close>

fun dm_run ::
  "bool \<Rightarrow> nat \<Rightarrow> (SegmentId \<Rightarrow> nat \<Rightarrow> DynamicStorageCreateError + (nat \<times> nat)) \<Rightarrow> dynamic_memory \<Rightarrow> PointerOffset list \<Rightarrow>
   dm_op list \<Rightarrow> (dynamic_memory \<times> PointerOffset list) option" where
  "dm_run dbg page_size create s held [] = Some (s, held)"
| "dm_run dbg page_size create s held (DmAllocate l # ops) = do {
     (r, s1) \<leftarrow> dm_allocate dbg page_size create s l;
     dm_run dbg page_size create s1 (case r of Inl _ \<Rightarrow> held | Inr p \<Rightarrow> held @ [sp_offset p]) ops }"
| "dm_run dbg page_size create s held (DmDeallocate i # ops) =
     (if i < length held
      then do {
        s1 \<leftarrow> dm_deallocate_bucket dbg s (held ! i);
        dm_run dbg page_size create s1 (take i held @ drop (Suc i) held) ops }
      else dm_run dbg page_size create s held ops)"

abbreviation dm_offset :: "SlotMapKey \<times> PointerOffset \<Rightarrow> PointerOffset" where
  "dm_offset c \<equiv> po_set_segment_id (snd c) (of_nat (fst c))"

lemma dm_chunks_plain:
  assumes "dm_inv s0 s" "c \<in> dm_chunks s"
  shows "po_segment_id (snd c) = 0" "fst c < 256"
proof -
  from assms(2) obtain e where e: "dm_segment s (fst c) = Some e" "snd c \<in> shm_offsets (se_shm e)"
    by (auto simp: dm_chunks_def se_held_def)
  then show "po_segment_id (snd c) = 0" by (auto simp: spa_offsets_def spa_offset_def po_new_def)
  show "fst c < 256" using assms by (cases c) (auto intro: dm_chunks_less)
qed

lemma dm_offset_inj:
  assumes "dm_inv s0 s"
  shows "inj_on dm_offset (dm_chunks s)"
proof (rule inj_onI)
  fix c d assume c: "c \<in> dm_chunks s" "d \<in> dm_chunks s" and eq: "dm_offset c = dm_offset d"
  note plain = dm_chunks_plain [OF assms c(1)] dm_chunks_plain [OF assms c(2)]
  from arg_cong [where f = po_offset, OF eq] plain have "snd c = snd d" by (intro po_eqI) simp_all
  moreover have "unat (of_nat (fst c) :: u8) = unat (of_nat (fst d) :: u8)"
    using arg_cong [where f = po_segment_id, OF eq] by simp
  then have "fst c = fst d" using plain by (simp add: unat_of_nat_small)
  ultimately show "c = d" by (simp add: prod_eq_iff)
qed

lemma set_remove_nth:
  assumes "distinct xs" "i < length xs"
  shows "distinct (take i xs @ drop (Suc i) xs)" "set (take i xs @ drop (Suc i) xs) = set xs - {xs ! i}"
proof -
  from id_take_nth_drop [OF assms(2)] assms(1) have d: "distinct (take i xs @ xs ! i # drop (Suc i) xs)" by simp
  then show "distinct (take i xs @ drop (Suc i) xs)" by auto
  have "set xs = set (take i xs @ xs ! i # drop (Suc i) xs)" using id_take_nth_drop [OF assms(2)] by simp
  with d show "set (take i xs @ drop (Suc i) xs) = set xs - {xs ! i}" by auto
qed

lemma dm_run_held:
  assumes "dm_inv s0 s" "storage_grants s0 create" "distinct held" "set held = dm_offset ` dm_chunks s"
  shows "\<exists>s' held'. dm_run dbg page_size create s held ops = Some (s', held') \<and> dm_inv s0 s' \<and> distinct held'
    \<and> set held' = dm_offset ` dm_chunks s'"
  using assms
proof (induction ops arbitrary: s held)
  case (Cons op ops)
  note inv = Cons.prems(1) and grants = Cons.prems(2) and held = Cons.prems(3,4)
  show ?case
  proof (cases op)
    case (DmAllocate l)
    from inv grants show ?thesis
    proof (cases rule: dm_allocate_cases [where dbg = dbg and page_size = page_size and l = l])
      case (failed err s')
      with Cons.IH [OF failed(2) grants held(1)] held(2) DmAllocate show ?thesis by simp
    next
      case (allocated p k a s')
      have inj: "inj_on dm_offset (dm_chunks s')" by (rule dm_offset_inj [OF allocated(2)])
      have new: "sp_offset p = dm_offset (k, a)" using allocated(3) by simp
      have "sp_offset p \<notin> set held"
      proof
        assume "sp_offset p \<in> set held"
        then obtain c where "c \<in> dm_chunks s" "dm_offset c = dm_offset (k, a)" using held(2) new by auto
        with inj_onD [OF inj, of c "(k, a)"] allocated(4,5) show False by simp
      qed
      with held(1) have d: "distinct (held @ [sp_offset p])" by simp
      have "set (held @ [sp_offset p]) = dm_offset ` dm_chunks s'" using held(2) allocated(5) new by simp
      from Cons.IH [OF allocated(2) grants d this] allocated(1) DmAllocate show ?thesis by simp
    qed
  next
    case (DmDeallocate i)
    show ?thesis
    proof (cases "i < length held")
      case True
      then have "held ! i \<in> dm_offset ` dm_chunks s" using held(2) nth_mem by blast
      then obtain k a where ka: "(k, a) \<in> dm_chunks s" "held ! i = dm_offset (k, a)" by auto
      obtain s' where s': "dm_deallocate_bucket dbg s (po_set_segment_id a (of_nat k)) = Some s'" "dm_inv s0 s'"
        "dm_chunks s' = dm_chunks s - {(k, a)}"
        by (rule dm_deallocate_cases [OF inv ka(1)])
      have "dm_offset ` dm_chunks s' = dm_offset ` dm_chunks s - {held ! i}"
        using inj_on_image_set_diff [OF dm_offset_inj [OF inv], of "dm_chunks s" "{(k, a)}"] ka s'(3) by simp
      then have "set (take i held @ drop (Suc i) held) = dm_offset ` dm_chunks s'"
        using set_remove_nth(2) [OF held(1) True] held(2) by (simp only:)
      from Cons.IH [OF s'(2) grants set_remove_nth(1) [OF held(1) True] this] s'(1) ka(2) True DmDeallocate
      show ?thesis by simp
    next
      case False
      with Cons.IH [OF inv grants held] DmDeallocate show ?thesis by simp
    qed
  qed
qed simp

lemma dm_active_segments:
  assumes "dm_inv s0 s"
  shows "dm_number_of_active_segments s = card (insert (dm_current_idx s) (fst ` dm_chunks s))"
proof -
  have "dom (dm_segment s) = insert (dm_current_idx s) (fst ` dm_chunks s)"
    using assms by (fastforce simp: dm_inv_def dm_chunks_def image_iff)
  with assms show ?thesis
    by (simp add: dm_number_of_active_segments_def dm_inv_def sm_ok_def sm_len_card)
qed


text \<open>A storage that grants up to a megabyte at a fixed address, and a builder for two chunks of 64 bytes.\<close>

definition megabyte_storage :: "SegmentId \<Rightarrow> nat \<Rightarrow> DynamicStorageCreateError + (nat \<times> nat)" where
  "megabyte_storage k sz = (if sz < 2 ^ 20 then Inr (4096, 4096) else Inl StorageCreateInternalError)"

definition two_chunks :: dynamic_memory_builder where
  "two_chunks = dmb_set_allocation_strategy PowerOfTwo
     (dmb_set_max_number_of_chunks_hint 2 (dmb_set_max_chunk_layout_hint \<lparr>lsize = 64, lalign = 8\<rparr> dmb_new))"

lemma megabyte_storage_grants: "storage_grants 64 megabyte_storage"
  by (auto simp: storage_grants_def megabyte_storage_def split: if_split_asm)

lemma two_chunks_simps:
  "dmb_max_chunk_size_hint two_chunks = 64" "dmb_max_chunk_alignment_hint two_chunks = 8"
  "dmb_max_number_of_chunks_hint two_chunks = 2"
  by (simp_all add: two_chunks_def dmb_set_allocation_strategy_def dmb_set_max_number_of_chunks_hint_def
      dmb_set_max_chunk_layout_hint_def)

lemma two_chunks_create: "\<exists>s. dm_create True 4096 (megabyte_storage 0) megabyte_storage two_chunks = Some (Inr s)"
proof -
  have create: "\<exists>m. shm_create True 4096 (megabyte_storage 0) (lsize l * n) l = Some (Inr m)"
    if "l = \<lparr>lsize = 1, lalign = 1\<rparr> \<and> n = 1 \<or> l = \<lparr>lsize = 64, lalign = 8\<rparr> \<and> n = 2" for l n
    by (rule shm_create_fresh [of l 4096 "megabyte_storage 0" "lsize l * n" 4096 4096 n True])
      (use that in \<open>auto simp: megabyte_storage_def spa_management_size_def pool_memory_size_def uis_memory_size_def align_def\<close>)
  obtain m1 where m1: "shm_create True 4096 (megabyte_storage 0) 1 \<lparr>lsize = 1, lalign = 1\<rparr> = Some (Inr m1)"
    using create [of "\<lparr>lsize = 1, lalign = 1\<rparr>" 1] by auto
  obtain m2 where m2: "shm_create True 4096 (megabyte_storage 0) 128 \<lparr>lsize = 64, lalign = 8\<rparr> = Some (Inr m2)"
    using create [of "\<lparr>lsize = 64, lalign = 8\<rparr>" 2] by auto
  obtain sm :: "shm_entry slot_map" where sm: "sm_new True MAX_NUMBER_OF_REALLOCATIONS = Some sm"
    by (rule sm_ok_new [of MAX_NUMBER_OF_REALLOCATIONS True]) (simp_all add: MAX_256 INVALID_def)
  obtain sm1 where "sm_insert True sm (se_new m2) = Some (Some 0, sm1)"
    by (rule sm_ok_first_insert [OF _ _ sm, of "se_new m2"]) (simp_all add: MAX_256 INVALID_def)
  with m1 m2 sm show ?thesis by (simp add: dm_create_def spa_initial_setup_hint_def two_chunks_simps)
qed


end
