(* ===== verification/Message_Types.thy ===== *)
theory Message_Types
  imports Shared_Memory
begin

text \<open>
  The types of a message (\<^verbatim>\<open>iceoryx2/src/service/static_config/message_type_details.rs\<close>) and where the
  header, the user header and the payload lie inside a chunk (\<^verbatim>\<open>iceoryx2/src/port/details/chunk.rs\<close>).
  The name, the size and the alignment of a Rust type are given by the compiler.
\<close>

datatype TypeVariant = FixedSize | DynamicSize

record type_detail =
  td_variant :: TypeVariant
  td_type_name :: string
  td_size :: nat
  td_alignment :: nat

record message_type_details =
  mtd_header :: type_detail
  mtd_user_header :: type_detail
  mtd_payload :: type_detail

definition MAX_TYPE_NAME_LENGTH :: nat where
  "MAX_TYPE_NAME_LENGTH = 256"

text \<open>A name that does not fit into the fixed-size string is fatal.\<close>

definition td_new :: "string \<Rightarrow> layout \<Rightarrow> TypeVariant \<Rightarrow> type_detail option" where
  "td_new name l variant = do {
     _ \<leftarrow> panic_unless (length name \<le> MAX_TYPE_NAME_LENGTH);
     Some \<lparr>td_variant = variant, td_type_name = name, td_size = lsize l, td_alignment = lalign l\<rparr> }"

definition mtd_from ::
  "string \<times> layout \<Rightarrow> string \<times> layout \<Rightarrow> string \<times> layout \<Rightarrow> TypeVariant \<Rightarrow> message_type_details option" where
  "mtd_from h u p payload_variant = do {
     header \<leftarrow> td_new (fst h) (snd h) FixedSize;
     user_header \<leftarrow> td_new (fst u) (snd u) FixedSize;
     payload \<leftarrow> td_new (fst p) (snd p) payload_variant;
     Some \<lparr>mtd_header = header, mtd_user_header = user_header, mtd_payload = payload\<rparr> }"

definition user_header_ptr_from_header :: "message_type_details \<Rightarrow> nat \<Rightarrow> nat" where
  "user_header_ptr_from_header t header = align (header + td_size (mtd_header t)) (td_alignment (mtd_user_header t))"

definition payload_ptr_from_header :: "message_type_details \<Rightarrow> nat \<Rightarrow> nat" where
  "payload_ptr_from_header t header =
     align (user_header_ptr_from_header t header + td_size (mtd_user_header t)) (td_alignment (mtd_payload t))"

definition sample_layout :: "message_type_details \<Rightarrow> nat \<Rightarrow> layout" where
  "sample_layout t number_of_elements =
     \<lparr>lsize = align (td_size (mtd_header t) + td_size (mtd_user_header t) + td_alignment (mtd_user_header t) - 1
        + td_size (mtd_payload t) * number_of_elements + td_alignment (mtd_payload t) - 1) (td_alignment (mtd_header t)),
      lalign = td_alignment (mtd_header t)\<rparr>"

definition mtd_is_compatible_to :: "message_type_details \<Rightarrow> message_type_details \<Rightarrow> bool" where
  "mtd_is_compatible_to a b \<longleftrightarrow>
     mtd_header a = mtd_header b
     \<and> td_type_name (mtd_user_header a) = td_type_name (mtd_user_header b)
     \<and> td_variant (mtd_user_header a) = td_variant (mtd_user_header b)
     \<and> td_size (mtd_user_header a) = td_size (mtd_user_header b)
     \<and> td_alignment (mtd_user_header a) \<le> td_alignment (mtd_user_header b)
     \<and> td_type_name (mtd_payload a) = td_type_name (mtd_payload b)
     \<and> td_variant (mtd_payload a) = td_variant (mtd_payload b)
     \<and> td_size (mtd_payload a) = td_size (mtd_payload b)
     \<and> td_alignment (mtd_payload a) \<le> td_alignment (mtd_payload b)"

section \<open>Chunks\<close>

record chunk =
  chk_header :: nat
  chk_user_header :: nat
  chk_payload :: nat

definition chunk_new :: "message_type_details \<Rightarrow> nat \<Rightarrow> chunk" where
  "chunk_new t offset =
     \<lparr>chk_header = offset, chk_user_header = user_header_ptr_from_header t offset,
      chk_payload = payload_ptr_from_header t offset\<rparr>"

record chunk_mut =
  chm_offset :: PointerOffset
  chm_header :: nat
  chm_user_header :: nat
  chm_payload :: nat
  chm_size :: nat

definition chunk_mut_new :: "message_type_details \<Rightarrow> ShmPointer \<Rightarrow> nat \<Rightarrow> chunk_mut" where
  "chunk_mut_new t p sample_size =
     \<lparr>chm_offset = sp_offset p, chm_header = sp_data_ptr p,
      chm_user_header = user_header_ptr_from_header t (sp_data_ptr p),
      chm_payload = payload_ptr_from_header t (sp_data_ptr p), chm_size = sample_size\<rparr>"

section \<open>The parts of a chunk\<close>

definition mtd_ok :: "message_type_details \<Rightarrow> bool" where
  "mtd_ok t \<longleftrightarrow> 0 < td_alignment (mtd_header t) \<and> 0 < td_alignment (mtd_user_header t) \<and> 0 < td_alignment (mtd_payload t)"

lemma user_header_bounds:
  assumes "mtd_ok t"
  shows "header + td_size (mtd_header t) \<le> user_header_ptr_from_header t header"
    "user_header_ptr_from_header t header \<le> header + td_size (mtd_header t) + td_alignment (mtd_user_header t) - 1"
    "td_alignment (mtd_user_header t) dvd user_header_ptr_from_header t header"
  using assms align_ge align_le align_dvd by (simp_all add: mtd_ok_def user_header_ptr_from_header_def)

lemma payload_bounds:
  assumes "mtd_ok t"
  shows "user_header_ptr_from_header t header + td_size (mtd_user_header t) \<le> payload_ptr_from_header t header"
    "payload_ptr_from_header t header \<le>
       user_header_ptr_from_header t header + td_size (mtd_user_header t) + td_alignment (mtd_payload t) - 1"
    "td_alignment (mtd_payload t) dvd payload_ptr_from_header t header"
  using assms align_ge align_le align_dvd by (simp_all add: mtd_ok_def payload_ptr_from_header_def)

lemma sample_layout_ge:
  assumes "mtd_ok t"
  shows "td_size (mtd_header t) + td_size (mtd_user_header t) + td_alignment (mtd_user_header t) - 1
    + td_size (mtd_payload t) * n + td_alignment (mtd_payload t) - 1 \<le> lsize (sample_layout t n)"
    "lalign (sample_layout t n) dvd lsize (sample_layout t n)" "0 < lalign (sample_layout t n)"
  using assms align_ge align_dvd by (simp_all add: mtd_ok_def sample_layout_def)


abbreviation example_types :: message_type_details where
  "example_types \<equiv>
     \<lparr>mtd_header = \<lparr>td_variant = FixedSize, td_type_name = ''Header'', td_size = 40, td_alignment = 8\<rparr>,
      mtd_user_header = \<lparr>td_variant = FixedSize, td_type_name = ''()'', td_size = 0, td_alignment = 1\<rparr>,
      mtd_payload = \<lparr>td_variant = FixedSize, td_type_name = ''u64x2'', td_size = 16, td_alignment = 16\<rparr>\<rparr>"


end
