(* ===== verification/Data_Segment.thy ===== *)
theory Data_Segment
  imports Resizable_Memory Message_Types
begin

text \<open>
  The memory a sender port takes its chunks from (\<^verbatim>\<open>iceoryx2/src/port/details/data_segment.rs\<close>, prefix
  \<open>ds\<close>, and \<open>dsv\<close> for the view of a receiver) and the reference counters of its chunks
  (\<^verbatim>\<open>iceoryx2/src/port/details/segment_state.rs\<close>, prefix \<open>ss\<close>). The record \<open>environment\<close> collects what the ports
  take from the outside: whether debug assertions are compiled in, the page size, the sizes of the
  types in the shared memory of a connection, and the storage in which a segment is created.
\<close>

record environment =
  env_debug :: bool
  env_page_size :: nat
  env_channel_layout :: layout
  env_segment_details_layout :: layout
  env_create_segment :: "SegmentId \<Rightarrow> nat \<Rightarrow> DynamicStorageCreateError + (nat \<times> nat)"

section \<open>Data segments\<close>

datatype DataSegmentType = DynamicSegments | StaticSegment

definition new_from_allocation_strategy :: "AllocationStrategy \<Rightarrow> DataSegmentType" where
  "new_from_allocation_strategy v = (case v of Static \<Rightarrow> StaticSegment | _ \<Rightarrow> DynamicSegments)"

datatype data_segment = StaticMemory shm_memory | DynamicMemory dynamic_memory

definition ds_create_static_segment :: "environment \<Rightarrow> layout \<Rightarrow> nat \<Rightarrow> (SharedMemoryCreateError + data_segment) option" where
  "ds_create_static_segment env chunk_layout number_of_chunks = do {
     r \<leftarrow> shm_create (env_debug env) (env_page_size env) (env_create_segment env 0)
       (lsize chunk_layout * number_of_chunks + lalign chunk_layout - 1) chunk_layout;
     Some (case r of Inl e \<Rightarrow> Inl e | Inr memory \<Rightarrow> Inr (StaticMemory memory)) }"

definition ds_create_dynamic_segment ::
  "environment \<Rightarrow> (nat \<Rightarrow> DynamicStorageCreateError + (nat \<times> nat)) \<Rightarrow> layout \<Rightarrow> nat \<Rightarrow> AllocationStrategy \<Rightarrow>
   (SharedMemoryCreateError + data_segment) option" where
  "ds_create_dynamic_segment env create_mgmt chunk_layout number_of_chunks allocation_strategy = do {
     r \<leftarrow> dm_create (env_debug env) (env_page_size env) create_mgmt (env_create_segment env)
       (dmb_set_allocation_strategy allocation_strategy (dmb_set_max_chunk_layout_hint chunk_layout
         (dmb_set_max_number_of_chunks_hint number_of_chunks dmb_new)));
     Some (case r of Inl e \<Rightarrow> Inl e | Inr memory \<Rightarrow> Inr (DynamicMemory memory)) }"

definition ds_allocate ::
  "environment \<Rightarrow> data_segment \<Rightarrow> layout \<Rightarrow> ((ShmAllocationError + ShmPointer) \<times> data_segment) option" where
  "ds_allocate env d l = (case d of
      StaticMemory memory \<Rightarrow> do {
        (r, memory1) \<leftarrow> shm_allocate (env_debug env) memory l;
        Some (r, StaticMemory memory1) }
    | DynamicMemory memory \<Rightarrow> do {
        (r, memory1) \<leftarrow> dm_allocate (env_debug env) (env_page_size env) (env_create_segment env) memory l;
        Some (case r of
            Inr p \<Rightarrow> Inr p
          | Inl (ShmAllocationErrorOf e) \<Rightarrow> Inl e
          | Inl MaxReallocationsReached \<Rightarrow> Inl (AllocationErrorOf OutOfMemory)
          | Inl (SharedMemoryCreateErrorOf _) \<Rightarrow> Inl (AllocationErrorOf InternalError), DynamicMemory memory1) })"

definition ds_deallocate_bucket :: "environment \<Rightarrow> data_segment \<Rightarrow> PointerOffset \<Rightarrow> data_segment option" where
  "ds_deallocate_bucket env d offset = (case d of
      StaticMemory memory \<Rightarrow> map_option StaticMemory (shm_deallocate_bucket (env_debug env) memory offset)
    | DynamicMemory memory \<Rightarrow> map_option DynamicMemory (dm_deallocate_bucket (env_debug env) memory offset))"

definition ds_bucket_size :: "environment \<Rightarrow> data_segment \<Rightarrow> SegmentId \<Rightarrow> nat option" where
  "ds_bucket_size env d segment_id = (case d of
      StaticMemory memory \<Rightarrow> shm_bucket_size memory
    | DynamicMemory memory \<Rightarrow> dm_bucket_size (env_debug env) memory segment_id)"

definition ds_max_number_of_segments :: "DataSegmentType \<Rightarrow> u8" where
  "ds_max_number_of_segments t = (case t of
      StaticSegment \<Rightarrow> 1
    | DynamicSegments \<Rightarrow> of_nat (MAX_NUMBER_OF_REALLOCATIONS - 1))"

section \<open>The view of a receiver\<close>

datatype data_segment_view = StaticView shm_memory | DynamicView dynamic_view

definition dsv_open_static_segment ::
  "DynamicStorageOpenError + (nat \<times> allocator_details) \<Rightarrow> (SharedMemoryOpenError + data_segment_view) option" where
  "dsv_open_static_segment opened = do {
     r \<leftarrow> shm_open opened 0;
     Some (case r of Inl e \<Rightarrow> Inl e | Inr memory \<Rightarrow> Inr (StaticView memory)) }"

definition dsv_open_dynamic_segment ::
  "bool \<Rightarrow> SharedMemoryOpenError + shm_memory \<Rightarrow> (SharedMemoryOpenError + data_segment_view) option" where
  "dsv_open_dynamic_segment dbg mgmt_segment = do {
     r \<leftarrow> dv_open dbg mgmt_segment;
     Some (case r of Inl e \<Rightarrow> Inl e | Inr memory \<Rightarrow> Inr (DynamicView memory)) }"

definition dsv_register_and_translate_offset ::
  "bool \<Rightarrow> (SegmentId \<Rightarrow> SharedMemoryOpenError + shm_memory) \<Rightarrow> data_segment_view \<Rightarrow> PointerOffset \<Rightarrow>
   ((SharedMemoryOpenError + nat) \<times> data_segment_view) option" where
  "dsv_register_and_translate_offset dbg open_segment v offset = (case v of
      StaticView memory \<Rightarrow> Some (Inr (po_offset offset + shm_payload_start_address memory), v)
    | DynamicView memory \<Rightarrow> do {
        (r, memory1) \<leftarrow> dv_register_and_translate_offset dbg open_segment memory offset;
        Some (r, DynamicView memory1) })"

definition dsv_unregister_offset :: "bool \<Rightarrow> data_segment_view \<Rightarrow> PointerOffset \<Rightarrow> data_segment_view option" where
  "dsv_unregister_offset dbg v offset = (case v of
      StaticView memory \<Rightarrow> Some v
    | DynamicView memory \<Rightarrow> map_option DynamicView (dv_unregister_offset dbg memory offset))"

definition dsv_is_dynamic :: "data_segment_view \<Rightarrow> bool" where
  "dsv_is_dynamic v = (case v of DynamicView _ \<Rightarrow> True | StaticView _ \<Rightarrow> False)"

section \<open>Reference counters\<close>

record segment_state =
  ss_sample_reference_counter :: "u64 list"
  ss_payload_size :: nat

definition ss_new :: "nat \<Rightarrow> segment_state" where
  "ss_new number_of_samples = \<lparr>ss_sample_reference_counter = replicate number_of_samples 0, ss_payload_size = 0\<rparr>"

definition ss_set_payload_size :: "nat \<Rightarrow> segment_state \<Rightarrow> segment_state" where
  "ss_set_payload_size value s = s\<lparr>ss_payload_size := value\<rparr>"

text \<open>The remainder by a payload size of zero panics in debug builds, the quotient in all.\<close>

definition ss_sample_index :: "bool \<Rightarrow> segment_state \<Rightarrow> nat \<Rightarrow> nat option" where
  "ss_sample_index dbg s distance_to_chunk = do {
     _ \<leftarrow> panic_unless (ss_payload_size s \<noteq> 0);
     _ \<leftarrow> debug_assert dbg (distance_to_chunk mod ss_payload_size s = 0);
     Some (distance_to_chunk div ss_payload_size s) }"

text \<open>Both return the previous value of the counter.\<close>

definition ss_borrow_sample :: "bool \<Rightarrow> segment_state \<Rightarrow> nat \<Rightarrow> (u64 \<times> segment_state) option" where
  "ss_borrow_sample dbg s distance_to_chunk = do {
     i \<leftarrow> ss_sample_index dbg s distance_to_chunk;
     v \<leftarrow> slice_get (ss_sample_reference_counter s) i;
     Some (v, s\<lparr>ss_sample_reference_counter := (ss_sample_reference_counter s)[i := v + 1]\<rparr>) }"

definition ss_release_sample :: "bool \<Rightarrow> segment_state \<Rightarrow> nat \<Rightarrow> (u64 \<times> segment_state) option" where
  "ss_release_sample dbg s distance_to_chunk = do {
     i \<leftarrow> ss_sample_index dbg s distance_to_chunk;
     v \<leftarrow> slice_get (ss_sample_reference_counter s) i;
     Some (v, s\<lparr>ss_sample_reference_counter := (ss_sample_reference_counter s)[i := v - 1]\<rparr>) }"

end
