(* ===== verification/Port_Sender.thy ===== *)
theory Port_Sender
  imports Data_Segment Zero_Copy_Protocol
begin

text \<open>
  The sending side of a port (\<^verbatim>\<open>iceoryx2/src/port/details/sender.rs\<close>, prefix \<open>snd\<close>): it allocates chunks, counts the
  references to them, delivers them over its connections, takes returned chunks back and keeps its
  connections up to date.

  A connection is represented by the management data it shares with its receiver. Dropping the
  sender of a removed connection deregisters it in the storage of that connection
  (\<open>cleanup_shared_memory\<close> in \<open>Zero_Copy_Setup\<close>), which the port no longer sees.
\<close>

section \<open>Channel states\<close>

text \<open>\<^verbatim>\<open>iceoryx2/src/port/details/channel_management.rs\<close>; the compare-and-swap is one step.\<close>

definition INVALID_CHANNEL_STATE :: u64 where
  "INVALID_CHANNEL_STATE = - 1"

definition set_channel_state :: "bool \<Rightarrow> shared_management_data \<Rightarrow> ChannelId \<Rightarrow> u64 \<Rightarrow> (bool \<times> shared_management_data) option" where
  "set_channel_state dbg m channel_id state = do {
     c \<leftarrow> get_channel dbg m channel_id;
     Some (if ch_state c = INVALID_CHANNEL_STATE
       then (True, put_channel m channel_id (c\<lparr>ch_state := state\<rparr>)) else (False, m)) }"

definition invalidate_channel_state :: "bool \<Rightarrow> shared_management_data \<Rightarrow> ChannelId \<Rightarrow> u64 \<Rightarrow> shared_management_data option" where
  "invalidate_channel_state dbg m channel_id expected_state = do {
     c \<leftarrow> get_channel dbg m channel_id;
     Some (if ch_state c = expected_state then put_channel m channel_id (c\<lparr>ch_state := INVALID_CHANNEL_STATE\<rparr>) else m) }"

section \<open>Data\<close>

datatype LoanError = LoanOutOfMemory | ExceedsMaxLoans | ExceedsMaxLoanSize | InternalFailure

datatype SendError =
  ConnectionBrokenSinceSenderNoLongerExists | SendConnectionCorrupted | SendLoanError LoanError |
  SendConnectionError ZeroCopyCreationError

datatype DegradationAction = Ignore | Warn | Fail

datatype UnableToDeliverStrategy = Block | DiscardSample

type_synonym port_id = nat

record receiver_details =
  rd_port_id :: port_id
  rd_buffer_size :: nat

record connection =
  con_sender :: shared_management_data
  con_receiver_port_id :: port_id
  con_tag :: tag

record sender =
  snd_segment_states :: "segment_state list"
  snd_data_segment :: data_segment
  snd_connections :: "connection option list"
  snd_sender_port_id :: port_id
  snd_receiver_max_buffer_size :: nat
  snd_receiver_max_borrowed_samples :: nat
  snd_sender_max_borrowed_samples :: nat
  snd_enable_safe_overflow :: bool
  snd_number_of_samples :: nat
  snd_max_number_of_segments :: u8
  snd_degradation_callback :: "(port_id \<Rightarrow> port_id \<Rightarrow> DegradationAction) option"
  snd_tagger :: cyclic_tagger
  snd_loan_counter :: nat
  snd_unable_to_deliver_strategy :: UnableToDeliverStrategy
  snd_message_type_details :: message_type_details
  snd_number_of_channels :: nat

definition snd_put_connection :: "sender \<Rightarrow> nat \<Rightarrow> connection option \<Rightarrow> sender" where
  "snd_put_connection s index c = s\<lparr>snd_connections := (snd_connections s)[index := c]\<rparr>"

definition snd_put_management :: "sender \<Rightarrow> nat \<Rightarrow> connection \<Rightarrow> shared_management_data \<Rightarrow> sender" where
  "snd_put_management s index c m = snd_put_connection s index (Some (c\<lparr>con_sender := m\<rparr>))"

fun snd_find_connection :: "connection option list \<Rightarrow> port_id \<Rightarrow> nat \<Rightarrow> nat option" where
  "snd_find_connection [] receiver_port_id i = None"
| "snd_find_connection (c # cs) receiver_port_id i =
     (case c of
        Some connection \<Rightarrow> if con_receiver_port_id connection = receiver_port_id then Some i
          else snd_find_connection cs receiver_port_id (i + 1)
      | None \<Rightarrow> snd_find_connection cs receiver_port_id (i + 1))"

definition snd_get_connection_id_of :: "sender \<Rightarrow> port_id \<Rightarrow> nat option" where
  "snd_get_connection_id_of s receiver_port_id = snd_find_connection (snd_connections s) receiver_port_id 0"

section \<open>References to chunks\<close>

definition snd_borrow_sample :: "environment \<Rightarrow> sender \<Rightarrow> PointerOffset \<Rightarrow> ((u64 \<times> nat) \<times> sender) option" where
  "snd_borrow_sample env s offset = do {
     let segment_id = po_segment_id offset;
     state \<leftarrow> slice_get (snd_segment_states s) (unat segment_id);
     payload_size \<leftarrow> (if ss_payload_size state = 0 then ds_bucket_size env (snd_data_segment s) segment_id
                     else Some (ss_payload_size state));
     let state1 = ss_set_payload_size payload_size state;
     (ref_count, state2) \<leftarrow> ss_borrow_sample (env_debug env) state1 (po_offset offset);
     Some ((ref_count, payload_size), s\<lparr>snd_segment_states := (snd_segment_states s)[unat segment_id := state2]\<rparr>) }"

definition snd_release_sample :: "environment \<Rightarrow> sender \<Rightarrow> PointerOffset \<Rightarrow> sender option" where
  "snd_release_sample env s offset = do {
     let segment_id = unat (po_segment_id offset);
     state \<leftarrow> slice_get (snd_segment_states s) segment_id;
     (ref_count, state1) \<leftarrow> ss_release_sample (env_debug env) state (po_offset offset);
     let s1 = s\<lparr>snd_segment_states := (snd_segment_states s)[segment_id := state1]\<rparr>;
     if ref_count = 1
     then do {
       d \<leftarrow> ds_deallocate_bucket env (snd_data_segment s1) offset;
       Some (s1\<lparr>snd_data_segment := d\<rparr>) }
     else Some s1 }"

section \<open>Taking returned chunks back\<close>

text \<open>
  The loop over one channel reclaims until nothing is left; it is not bounded by the code, so a
  loop that never ends is the value \<open>None\<close>, like a panic.
\<close>

partial_function (option) snd_reclaim_all :: "environment \<Rightarrow> sender \<Rightarrow> nat \<Rightarrow> ChannelId \<Rightarrow> sender option" where
  "snd_reclaim_all env s index channel_id = do {
     c \<leftarrow> slice_get (snd_connections s) index;
     case c of
       None \<Rightarrow> Some s
     | Some connection \<Rightarrow> do {
         (r, m) \<leftarrow> zcc_reclaim (env_debug env) (con_sender connection) channel_id;
         let s1 = snd_put_management s index connection m;
         case r of
           Inr None \<Rightarrow> Some s1
         | Inr (Some ptr_dist) \<Rightarrow> do { s2 \<leftarrow> snd_release_sample env s1 ptr_dist; snd_reclaim_all env s2 index channel_id }
         | Inl _ \<Rightarrow> snd_reclaim_all env s1 index channel_id } }"

definition snd_retrieve_returned_samples :: "environment \<Rightarrow> sender \<Rightarrow> sender option" where
  "snd_retrieve_returned_samples env s =
     for_each (\<lambda>s1 i. for_each (\<lambda>s2 channel_id. snd_reclaim_all env s2 i channel_id) [0..<snd_number_of_channels s] s1)
       [0..<length (snd_connections s)] s"

section \<open>Loans\<close>

definition snd_allocate :: "environment \<Rightarrow> sender \<Rightarrow> layout \<Rightarrow> ((LoanError + chunk_mut) \<times> sender) option" where
  "snd_allocate env s l = do {
     s1 \<leftarrow> snd_retrieve_returned_samples env s;
     if snd_loan_counter s1 \<ge> snd_sender_max_borrowed_samples s1 then Some (Inl ExceedsMaxLoans, s1)
     else do {
       (r, d) \<leftarrow> ds_allocate env (snd_data_segment s1) l;
       let s2 = s1\<lparr>snd_data_segment := d\<rparr>;
       case r of
         Inr shm_pointer \<Rightarrow> do {
           ((ref_count, sample_size), s3) \<leftarrow> snd_borrow_sample env s2 (sp_offset shm_pointer);
           _ \<leftarrow> panic_unless (ref_count = 0);
           Some (Inr (chunk_mut_new (snd_message_type_details s3) shm_pointer sample_size),
                 s3\<lparr>snd_loan_counter := snd_loan_counter s3 + 1\<rparr>) }
       | Inl e \<Rightarrow>
           (if e = AllocationErrorOf OutOfMemory then Some (Inl LoanOutOfMemory, s2)
            else if e = AllocationErrorOf SizeTooLarge \<or> e = AllocationErrorOf AlignmentFailure then None
            else Some (Inl InternalFailure, s2)) } }"

text \<open>\<open>fetch_sub\<close> wraps around.\<close>

definition snd_return_loaned_sample :: "environment \<Rightarrow> sender \<Rightarrow> PointerOffset \<Rightarrow> sender option" where
  "snd_return_loaned_sample env s distance_to_chunk = do {
     s1 \<leftarrow> snd_release_sample env s distance_to_chunk;
     Some (s1\<lparr>snd_loan_counter := (snd_loan_counter s1 + 2 ^ 64 - 1) mod 2 ^ 64\<rparr>) }"

section \<open>Delivery\<close>

text \<open>A delivery that has to wait for its receiver is \<open>Blocked\<close> and resumes at the same connection.\<close>

datatype delivery = Blocked | Delivered "SendError + nat"

definition snd_deliver_offset_to_connection_impl ::
  "environment \<Rightarrow> sender \<Rightarrow> PointerOffset \<Rightarrow> nat \<Rightarrow> ChannelId \<Rightarrow> nat \<Rightarrow> (delivery \<times> sender) option" where
  "snd_deliver_offset_to_connection_impl env s offset sample_size channel_id connection_id = do {
     c \<leftarrow> slice_get (snd_connections s) connection_id;
     case c of
       None \<Rightarrow> Some (Delivered (Inr 0), s)
     | Some connection \<Rightarrow> do {
         r \<leftarrow> (case snd_unable_to_deliver_strategy s of
             Block \<Rightarrow> zcc_blocking_send_poll (env_debug env) (con_sender connection) offset sample_size channel_id
           | DiscardSample \<Rightarrow>
               map_option Ready (zcc_try_send (env_debug env) (con_sender connection) offset sample_size channel_id));
         case r of
           Waiting \<Rightarrow> Some (Blocked, s)
         | Ready (result, m) \<Rightarrow> do {
             let s1 = snd_put_management s connection_id connection m;
             case result of
               Inl ReceiveBufferFull \<Rightarrow> Some (Delivered (Inr 0), s1)
             | Inl UsedChunkListFull \<Rightarrow> Some (Delivered (Inr 0), s1)
             | Inl ConnectionCorrupted \<Rightarrow>
                 Some (Delivered (case snd_degradation_callback s1 of
                     Some f \<Rightarrow> if f (snd_sender_port_id s1) (con_receiver_port_id connection) = Fail
                       then Inl SendConnectionCorrupted else Inr 0
                   | None \<Rightarrow> Inr 0), s1)
             | Inr overflow \<Rightarrow> do {
                 (_, s2) \<leftarrow> snd_borrow_sample env s1 offset;
                 s3 \<leftarrow> (case overflow of None \<Rightarrow> Some s2 | Some old \<Rightarrow> snd_release_sample env s2 old);
                 Some (Delivered (Inr 1), s3) } } } }"

definition snd_deliver_offset_to_connection ::
  "environment \<Rightarrow> sender \<Rightarrow> PointerOffset \<Rightarrow> nat \<Rightarrow> ChannelId \<Rightarrow> nat \<Rightarrow> (delivery \<times> sender) option" where
  "snd_deliver_offset_to_connection env s offset sample_size channel_id connection_id = do {
     s1 \<leftarrow> snd_retrieve_returned_samples env s;
     snd_deliver_offset_to_connection_impl env s1 offset sample_size channel_id connection_id }"

fun snd_deliver_offset_from ::
  "environment \<Rightarrow> PointerOffset \<Rightarrow> nat \<Rightarrow> ChannelId \<Rightarrow> nat list \<Rightarrow> nat \<Rightarrow> sender \<Rightarrow> (delivery \<times> sender) option" where
  "snd_deliver_offset_from env offset sample_size channel_id [] number_of_recipients s =
     Some (Delivered (Inr number_of_recipients), s)"
| "snd_deliver_offset_from env offset sample_size channel_id (i # is) number_of_recipients s = do {
     (r, s1) \<leftarrow> snd_deliver_offset_to_connection_impl env s offset sample_size channel_id i;
     case r of
       Delivered (Inr n) \<Rightarrow> snd_deliver_offset_from env offset sample_size channel_id is (number_of_recipients + n) s1
     | _ \<Rightarrow> Some (r, s1) }"

definition snd_deliver_offset ::
  "environment \<Rightarrow> sender \<Rightarrow> PointerOffset \<Rightarrow> nat \<Rightarrow> ChannelId \<Rightarrow> (delivery \<times> sender) option" where
  "snd_deliver_offset env s offset sample_size channel_id = do {
     s1 \<leftarrow> snd_retrieve_returned_samples env s;
     snd_deliver_offset_from env offset sample_size channel_id [0..<length (snd_connections s1)] 0 s1 }"

definition snd_has_channel_state :: "environment \<Rightarrow> sender \<Rightarrow> ChannelId \<Rightarrow> nat \<Rightarrow> u64 \<Rightarrow> bool option" where
  "snd_has_channel_state env s channel_id connection_id state = do {
     c \<leftarrow> slice_get (snd_connections s) connection_id;
     case c of
       Some connection \<Rightarrow> map_option (\<lambda>v. v = state) (zcc_channel_state (env_debug env) (con_sender connection) channel_id)
     | None \<Rightarrow> Some False }"

definition snd_invalidate_channel_state :: "environment \<Rightarrow> sender \<Rightarrow> ChannelId \<Rightarrow> nat \<Rightarrow> u64 \<Rightarrow> sender option" where
  "snd_invalidate_channel_state env s channel_id connection_id expected_state = do {
     c \<leftarrow> slice_get (snd_connections s) connection_id;
     case c of
       Some connection \<Rightarrow> map_option (snd_put_management s connection_id connection)
         (invalidate_channel_state (env_debug env) (con_sender connection) channel_id expected_state)
     | None \<Rightarrow> Some s }"

section \<open>Connections\<close>

definition connection_builder :: "sender \<Rightarrow> nat \<Rightarrow> zcc_builder" where
  "connection_builder s buffer_size =
     (let b1 = bld_set_buffer_size bld_new buffer_size;
          b2 = bld_set_max_borrowed b1 (snd_receiver_max_borrowed_samples s);
          b3 = bld_set_enable_safe_overflow b2 (snd_enable_safe_overflow s);
          b4 = bld_set_samples_per_segment b3 (snd_number_of_samples s);
          b5 = bld_set_segments b4 (snd_max_number_of_segments s);
          b6 = bld_set_initial_channel_state b5 INVALID_CHANNEL_STATE
      in bld_set_channels b6 (snd_number_of_channels s))"

text \<open>\<open>storage\<close> is what the dynamic storage of the connection returns.\<close>

definition connection_new ::
  "environment \<Rightarrow> storage \<Rightarrow> sender \<Rightarrow> port_id \<Rightarrow> nat \<Rightarrow> tag \<Rightarrow> (ZeroCopyCreationError + connection) option" where
  "connection_new env storage s receiver_port_id buffer_size tag =
     (if snd_receiver_max_buffer_size s < buffer_size then Some (Inl IncompatibleBufferSize)
      else do {
        (r, _, _) \<leftarrow> create_or_open_shm (env_channel_layout env) (env_segment_details_layout env)
          (connection_builder s buffer_size) STATE_SENDER storage;
        Some (case r of
            Inl e \<Rightarrow> Inl e
          | Inr m \<Rightarrow> Inr \<lparr>con_sender = m, con_receiver_port_id = receiver_port_id, con_tag = tag\<rparr>) })"

definition snd_create ::
  "environment \<Rightarrow> storage \<Rightarrow> sender \<Rightarrow> nat \<Rightarrow> receiver_details \<Rightarrow> ((ZeroCopyCreationError + unit) \<times> sender) option" where
  "snd_create env storage s index receiver_details = do {
     r \<leftarrow> connection_new env storage s (rd_port_id receiver_details) (rd_buffer_size receiver_details) (create_tag (snd_tagger s));
     Some (case r of Inl e \<Rightarrow> (Inl e, s) | Inr c \<Rightarrow> (Inr (), snd_put_connection s index (Some c))) }"

definition snd_remove_connection :: "environment \<Rightarrow> sender \<Rightarrow> nat \<Rightarrow> sender option" where
  "snd_remove_connection env s i = do {
     c \<leftarrow> slice_get (snd_connections s) i;
     case c of
       None \<Rightarrow> Some s
     | Some connection \<Rightarrow> do {
         (offsets, m) \<leftarrow> zcc_acquire_used_offsets (env_debug env) (con_sender connection);
         s1 \<leftarrow> for_each (snd_release_sample env) offsets (snd_put_management s i connection m);
         Some (snd_put_connection s1 i None) } }"

definition snd_start_update_connection_cycle :: "sender \<Rightarrow> sender" where
  "snd_start_update_connection_cycle s = s\<lparr>snd_tagger := next_cycle (snd_tagger s)\<rparr>"

definition snd_update_connection ::
  "environment \<Rightarrow> storage \<Rightarrow> sender \<Rightarrow> nat \<Rightarrow> receiver_details \<Rightarrow> (sender \<Rightarrow> nat \<Rightarrow> sender option) \<Rightarrow>
   ((ZeroCopyCreationError + unit) \<times> sender) option" where
  "snd_update_connection env storage s index receiver_details establish_new_connection_call = do {
     c \<leftarrow> slice_get (snd_connections s) index;
     (create_connection, s1) \<leftarrow> (case c of
         None \<Rightarrow> Some (True, s)
       | Some connection \<Rightarrow>
           (if con_receiver_port_id connection = rd_port_id receiver_details
            then Some (False, snd_put_connection s index
              (Some (connection\<lparr>con_tag := tag_with (snd_tagger s) (con_tag connection)\<rparr>)))
            else map_option (Pair True) (snd_remove_connection env s index)));
     if create_connection
     then do {
       (r, s2) \<leftarrow> snd_create env storage s1 index receiver_details;
       case r of
         Inr _ \<Rightarrow> do { s3 \<leftarrow> establish_new_connection_call s2 index; Some (Inr (), s3) }
       | Inl e \<Rightarrow> Some (case snd_degradation_callback s2 of
             Some f \<Rightarrow> if f (snd_sender_port_id s2) (rd_port_id receiver_details) = Fail then Inl e else Inr ()
           | None \<Rightarrow> Inr (), s2) }
     else Some (Inr (), s1) }"

definition snd_finish_update_connection_cycle :: "environment \<Rightarrow> sender \<Rightarrow> sender option" where
  "snd_finish_update_connection_cycle env s =
     for_each (\<lambda>s1 n. do {
         c \<leftarrow> slice_get (snd_connections s1) n;
         case c of
           Some connection \<Rightarrow> if \<not> was_tagged_by (con_tag connection) (snd_tagger s1) then snd_remove_connection env s1 n else Some s1
         | None \<Rightarrow> Some s1 })
       [0..<length (snd_connections s)] s"

definition snd_payload_size :: "sender \<Rightarrow> nat" where
  "snd_payload_size s = td_size (mtd_payload (snd_message_type_details s))"

definition snd_sample_layout :: "sender \<Rightarrow> nat \<Rightarrow> layout" where
  "snd_sample_layout s number_of_elements = sample_layout (snd_message_type_details s) number_of_elements"

definition snd_payload_type_variant :: "sender \<Rightarrow> TypeVariant" where
  "snd_payload_type_variant s = td_variant (mtd_payload (snd_message_type_details s))"

end
