(* ===== verification/Sender_References.thy ===== *)
theory Sender_References
  imports Port_Sender
begin

text \<open>
  The references a sender counts for the chunks of a static data segment, and what its operations do
  with them: retrieving returned chunks, loaning, delivering and giving up a connection return
  without a panic, keep every counter at the number of references that exist, and free a chunk with its
  last reference.
\<close>

section \<open>Counters\<close>

text \<open>The offsets of the chunks of a static segment with \<open>n\<close> chunks of layout \<open>l\<close>.\<close>

abbreviation chunk_size :: "layout \<Rightarrow> nat \<Rightarrow> nat" where
  "chunk_size l \<equiv> \<lambda>_. lsize l"

definition chunks :: "layout \<Rightarrow> nat \<Rightarrow> PointerOffset set" where
  "chunks l n = {p. valid_offset (chunk_size l) 1 n p}"

lemma unat_less_exp: "unat v < 2 ^ LENGTH('a)" for v :: "'a::len word"
  by (rule unsigned_less)

lemma shm_offsets_chunks:
  assumes inv: "shm_inv m" and bs: "shm_bucket_size m = Some (lsize l)" and n: "spa_number_of_buckets (shm_pool m) = n"
  shows "shm_offsets m = chunks l n"
proof -
  from inv obtain a where a: "shm_allocator m = Some a" "spa_inv a" by (auto simp: shm_inv_def)
  with bs have bs': "pa_bucket_size (spa_allocator a) = lsize l" by (simp add: shm_bucket_size_def)
  with a(2) have pos: "0 < lsize l" by (simp add: spa_inv_def pool_inv_def)
  have cap: "unat (uis_capacity (pa_buckets (spa_allocator a))) = n" using n a(1) by (simp add: spa_number_of_buckets_def)
  have off: "po_offset (spa_offset a i) = unat i * lsize l" "po_segment_id (spa_offset a i) = 0"
    if "i < uis_capacity (pa_buckets (spa_allocator a))" for i
    using po_offset_spa_offset(1) [OF a(2) that] bs' by (simp_all add: spa_offset_def po_new_def)
  show ?thesis
  proof (intro set_eqI iffI)
    fix p assume "p \<in> shm_offsets m"
    then obtain i where i: "i < uis_capacity (pa_buckets (spa_allocator a))" "p = spa_offset a i"
      using a(1) by (auto simp: spa_offsets_def uis_indices_def)
    then have "unat i < n" using cap by (simp add: word_less_nat_alt)
    with off [OF i(1)] i(2) pos show "p \<in> chunks l n" by (simp add: chunks_def valid_offset_def segment_of_def chunk_of_def)
  next
    fix p assume "p \<in> chunks l n"
    then have p: "po_segment_id p = 0" "po_offset p mod lsize l = 0" "po_offset p div lsize l < n"
      by (simp_all add: chunks_def valid_offset_def segment_of_def chunk_of_def unat_eq_zero)
    let ?i = "of_nat (po_offset p div lsize l) :: u32"
    have "n < 2 ^ 32" using cap unat_less_exp [of "uis_capacity (pa_buckets (spa_allocator a))"] by simp
    with p(3) have i: "unat ?i = po_offset p div lsize l" by (simp add: unat_of_nat_small)
    with p(3) cap have less: "?i < uis_capacity (pa_buckets (spa_allocator a))" by (simp add: word_less_nat_alt)
    have "p = spa_offset a ?i"
    proof (rule po_eqI)
      show "po_offset p = po_offset (spa_offset a ?i)" using off(1) [OF less] i p(2) by auto
      show "po_segment_id p = po_segment_id (spa_offset a ?i)" using off(2) [OF less] p(1) by simp
    qed
    with less a(1) show "p \<in> shm_offsets m" by (auto simp: spa_offsets_def uis_indices_def)
  qed
qed

lemma chunk_of_inj:
  "p \<in> chunks l n \<Longrightarrow> q \<in> chunks l n \<Longrightarrow> chunk_of (chunk_size l) p = chunk_of (chunk_size l) q \<longleftrightarrow> p = q"
  using valid_offset_eqI [of "chunk_size l" 1 n p q] by (auto simp: chunks_def valid_offset_def)

text \<open>
  \<open>H\<close> holds the allocated chunks and \<open>R\<close> one entry per reference. The payload size of a segment is
  stored with its first reference.
\<close>

definition segment_refs :: "layout \<Rightarrow> nat \<Rightarrow> shm_memory \<Rightarrow> segment_state \<Rightarrow> PointerOffset set \<Rightarrow> PointerOffset multiset \<Rightarrow> bool" where
  "segment_refs l n m st H R \<longleftrightarrow>
     shm_inv m \<and> shm_bucket_size m = Some (lsize l) \<and> shm_max_alignment m = Some (lalign l) \<and>
     spa_number_of_buckets (shm_pool m) = n \<and> shm_free m = chunks l n - H \<and> H \<subseteq> chunks l n \<and> set_mset R \<subseteq> H \<and>
     length (ss_sample_reference_counter st) = n \<and>
     (ss_payload_size st = lsize l \<or> ss_payload_size st = 0 \<and> R = {#}) \<and>
     (\<forall>p \<in> chunks l n. unat (ss_sample_reference_counter st ! chunk_of (chunk_size l) p) = count R p)"

definition snd_refs :: "layout \<Rightarrow> nat \<Rightarrow> sender \<Rightarrow> PointerOffset set \<Rightarrow> PointerOffset multiset \<Rightarrow> bool" where
  "snd_refs l n s H R \<longleftrightarrow>
     (\<exists>m st. snd_data_segment s = StaticMemory m \<and> snd_segment_states s = [st] \<and> segment_refs l n m st H R)"

text \<open>What no operation on references or connections changes.\<close>

definition snd_fixed :: "sender \<Rightarrow> sender \<Rightarrow> bool" where
  "snd_fixed s s' \<longleftrightarrow> s' = s\<lparr>snd_segment_states := snd_segment_states s', snd_data_segment := snd_data_segment s',
     snd_connections := snd_connections s'\<rparr>"

lemma snd_fixed_refl [simp, intro]: "snd_fixed s s"
  by (simp add: snd_fixed_def)

lemma snd_fixed_trans [trans]: "snd_fixed s s' \<Longrightarrow> snd_fixed s' s'' \<Longrightarrow> snd_fixed s s''"
  by (cases s; cases s'; cases s'') (simp add: snd_fixed_def)

lemma snd_fixedD:
  assumes "snd_fixed s s'"
  shows "snd_number_of_channels s' = snd_number_of_channels s" "snd_number_of_samples s' = snd_number_of_samples s"
    "snd_max_number_of_segments s' = snd_max_number_of_segments s" "snd_loan_counter s' = snd_loan_counter s"
    "snd_sender_max_borrowed_samples s' = snd_sender_max_borrowed_samples s" "snd_tagger s' = snd_tagger s"
    "snd_unable_to_deliver_strategy s' = snd_unable_to_deliver_strategy s" "connection_builder s' = connection_builder s"
    "snd_receiver_max_buffer_size s' = snd_receiver_max_buffer_size s"
    "snd_message_type_details s' = snd_message_type_details s" "snd_enable_safe_overflow s' = snd_enable_safe_overflow s"
    "snd_receiver_max_borrowed_samples s' = snd_receiver_max_borrowed_samples s"
    "snd_degradation_callback s' = snd_degradation_callback s" "snd_sender_port_id s' = snd_sender_port_id s"
  using assms by (cases s; cases s'; simp add: snd_fixed_def connection_builder_def fun_eq_iff)+

lemma snd_fixed_put_management [simp]: "snd_fixed s (snd_put_management s i c m)"
  by (simp add: snd_fixed_def snd_put_management_def snd_put_connection_def)

lemma snd_fixed_put_connection [simp]: "snd_fixed s (snd_put_connection s i c)"
  by (simp add: snd_fixed_def snd_put_connection_def)

lemma snd_put_simps [simp]:
  "snd_connections (snd_put_management s i c m) = (snd_connections s)[i := Some (c\<lparr>con_sender := m\<rparr>)]"
  "snd_connections (snd_put_connection s i x) = (snd_connections s)[i := x]"
  "snd_refs l n (snd_put_management s i c m) H R \<longleftrightarrow> snd_refs l n s H R"
  "snd_refs l n (snd_put_connection s i x) H R \<longleftrightarrow> snd_refs l n s H R"
  by (simp_all add: snd_put_management_def snd_put_connection_def snd_refs_def)

section \<open>Single references\<close>

lemma chunksD:
  assumes "p \<in> chunks l n"
  shows "po_segment_id p = 0" "po_offset p mod lsize l = 0" "0 < lsize l" "chunk_of (chunk_size l) p < n"
    "po_offset p div lsize l = chunk_of (chunk_size l) p"
  using assms by (simp_all add: chunks_def valid_offset_def segment_of_def chunk_of_def unat_eq_zero)

lemma unat_eq_of_nat: "unat v = k \<Longrightarrow> v = of_nat k" for v :: "'a::len word"
  by auto

lemma counter_update:
  assumes refs: "segment_refs l n m st H R" and p: "p \<in> chunks l n" and v: "unat v = count R' p"
    and R': "set_mset R' \<subseteq> H" "\<And>q. q \<noteq> p \<Longrightarrow> count R' q = count R q"
  shows "segment_refs l n m (st\<lparr>ss_payload_size := lsize l,
    ss_sample_reference_counter := (ss_sample_reference_counter st)[chunk_of (chunk_size l) p := v]\<rparr>) H R'"
  using assms chunksD(4) [OF p] chunk_of_inj [OF p]
  by (auto simp: segment_refs_def nth_list_update)

lemma segment_borrow:
  assumes refs: "segment_refs l n m st H R" and p: "p \<in> H" and c: "count R p + 1 < 2 ^ 64"
  shows "\<exists>st'. ss_borrow_sample dbg (ss_set_payload_size (lsize l) st) (po_offset p) = Some (of_nat (count R p), st') \<and>
    segment_refs l n m st' H (add_mset p R)"
proof -
  let ?i = "chunk_of (chunk_size l) p"
  have pc: "p \<in> chunks l n" using refs p by (auto simp: segment_refs_def)
  note D = chunksD [OF pc]
  have len: "length (ss_sample_reference_counter st) = n" and v: "unat (ss_sample_reference_counter st ! ?i) = count R p"
    using refs pc by (auto simp: segment_refs_def)
  have suc: "of_nat (count R p) + 1 = (of_nat (Suc (count R p)) :: u64)" by simp
  have "unat (of_nat (count R p) + 1 :: u64) = Suc (count R p)"
    unfolding suc using c by (intro unat_of_nat_small) simp
  then have "unat (of_nat (count R p) + 1 :: u64) = count (add_mset p R) p" by simp
  moreover have "set_mset (add_mset p R) \<subseteq> H" using refs p by (simp add: segment_refs_def)
  ultimately have "segment_refs l n m (st\<lparr>ss_payload_size := lsize l,
      ss_sample_reference_counter := (ss_sample_reference_counter st)[?i := of_nat (count R p) + 1]\<rparr>) H (add_mset p R)"
    by (intro counter_update [OF refs pc]) simp_all
  moreover have "ss_borrow_sample dbg (ss_set_payload_size (lsize l) st) (po_offset p) = Some (of_nat (count R p),
      st\<lparr>ss_payload_size := lsize l, ss_sample_reference_counter := (ss_sample_reference_counter st)[?i := of_nat (count R p) + 1]\<rparr>)"
    using D len unat_eq_of_nat [OF v]
    by (simp add: ss_borrow_sample_def ss_sample_index_def ss_set_payload_size_def slice_get_def)
  ultimately show ?thesis by blast
qed

lemma segment_release:
  assumes refs: "segment_refs l n m st H R" and p: "p \<in># R"
  shows "\<exists>st'. ss_release_sample dbg st (po_offset p) = Some (of_nat (count R p), st') \<and>
    segment_refs l n m st' H (R - {#p#})"
proof -
  let ?i = "chunk_of (chunk_size l) p"
  have pc: "p \<in> chunks l n" using refs p by (auto simp: segment_refs_def)
  note D = chunksD [OF pc]
  have len: "length (ss_sample_reference_counter st) = n" and v: "unat (ss_sample_reference_counter st ! ?i) = count R p"
    and size: "ss_payload_size st = lsize l"
    using refs pc p by (auto simp: segment_refs_def)
  have "unat (ss_sample_reference_counter st ! ?i - 1) = count (R - {#p#}) p"
    using v p unat_sub [of 1 "ss_sample_reference_counter st ! ?i"] by (simp add: word_le_nat_alt Suc_le_eq)
  moreover have "set_mset (R - {#p#}) \<subseteq> H" using refs by (auto simp: segment_refs_def dest: in_diffD)
  ultimately have "segment_refs l n m (st\<lparr>ss_payload_size := lsize l,
      ss_sample_reference_counter := (ss_sample_reference_counter st)[?i := ss_sample_reference_counter st ! ?i - 1]\<rparr>) H (R - {#p#})"
    by (intro counter_update [OF refs pc]) simp_all
  moreover have "st\<lparr>ss_payload_size := lsize l, ss_sample_reference_counter := xs\<rparr> = st\<lparr>ss_sample_reference_counter := xs\<rparr>" for xs
    using size by (cases st) simp
  moreover have "ss_release_sample dbg st (po_offset p) = Some (of_nat (count R p),
      st\<lparr>ss_sample_reference_counter := (ss_sample_reference_counter st)[?i := ss_sample_reference_counter st ! ?i - 1]\<rparr>)"
    using D len size unat_eq_of_nat [OF v] by (simp add: ss_release_sample_def ss_sample_index_def slice_get_def)
  ultimately show ?thesis by auto
qed

lemma segment_free:
  assumes refs: "segment_refs l n m st H R" and p: "p \<in> H" "p \<notin># R"
  shows "\<exists>m'. shm_deallocate_bucket dbg m p = Some m' \<and> segment_refs l n m' st (H - {p}) R"
proof -
  from refs have inv: "shm_inv m" and off: "shm_offsets m = chunks l n" and free: "shm_free m = chunks l n - H"
    and H: "H \<subseteq> chunks l n"
    using shm_offsets_chunks by (auto simp: segment_refs_def)
  obtain m' where m': "shm_deallocate_bucket dbg m p = Some m'" "shm_free m' = insert p (shm_free m)" "shm_inv m'" "shm_same m m'"
    by (rule shm_deallocate_cases [OF inv, of p dbg]) (use p H off free in auto)
  have "insert p (chunks l n - H) = chunks l n - (H - {p})" using p(1) H by auto
  with m' refs p free have "segment_refs l n m' st (H - {p}) R" by (auto simp: segment_refs_def shm_same_def)
  with m'(1) show ?thesis by blast
qed

lemma segment_allocate:
  assumes refs: "segment_refs l n m st H R" and l': "lsize l' \<le> lsize l" "lalign l' \<le> lalign l"
  obtains (exhausted) "shm_allocate dbg m l' = Some (Inl (AllocationErrorOf OutOfMemory), m)" "H = chunks l n"
  | (allocated) p m' where "shm_allocate dbg m l' = Some (Inr p, m')" "sp_offset p \<in> chunks l n - H"
      "sp_data_ptr p = po_offset (sp_offset p) + shm_payload_start_address m"
      "shm_payload_start_address m' = shm_payload_start_address m"
      "segment_refs l n m' st (insert (sp_offset p) H) R"
proof -
  from refs have inv: "shm_inv m" and off: "shm_offsets m = chunks l n" and free: "shm_free m = chunks l n - H"
    and H: "H \<subseteq> chunks l n"
    using shm_offsets_chunks by (auto simp: segment_refs_def)
  have fits: "lsize l' \<le> the (shm_bucket_size m)" "lalign l' \<le> the (shm_max_alignment m)"
    using refs l' by (auto simp: segment_refs_def)
  from inv fits show ?thesis
  proof (cases rule: shm_allocate_cases [where dbg = dbg])
    case exhausted
    with free H show ?thesis by (intro that(1)) auto
  next
    case (allocated p m')
    with refs free have "segment_refs l n m' st (insert (sp_offset p) H) R" by (auto simp: segment_refs_def shm_same_def)
    with allocated free show ?thesis by (intro that(2) [of p m']) (auto simp: shm_same_def)
  qed
qed

lemma snd_borrow_ok:
  assumes refs: "snd_refs l n s H R" and p: "p \<in> H" and c: "count R p + 1 < 2 ^ 64"
  obtains s' where "snd_borrow_sample env s p = Some ((of_nat (count R p), lsize l), s')"
    "snd_refs l n s' H (add_mset p R)" "snd_connections s' = snd_connections s" "snd_fixed s s'"
proof -
  from refs obtain m st where s: "snd_data_segment s = StaticMemory m" "snd_segment_states s = [st]" "segment_refs l n m st H R"
    by (auto simp: snd_refs_def)
  then have "p \<in> chunks l n" using p by (auto simp: segment_refs_def)
  note D = chunksD [OF this]
  from segment_borrow [OF s(3) p c, of "env_debug env"] obtain st' where
    st': "ss_borrow_sample (env_debug env) (ss_set_payload_size (lsize l) st) (po_offset p) = Some (of_nat (count R p), st')"
    "segment_refs l n m st' H (add_mset p R)" by blast
  have "ss_payload_size st = lsize l \<or> ss_payload_size st = 0" "shm_bucket_size m = Some (lsize l)"
    using s(3) by (auto simp: segment_refs_def)
  with s st' D have "snd_borrow_sample env s p = Some ((of_nat (count R p), lsize l), s\<lparr>snd_segment_states := [st']\<rparr>)"
    by (auto simp: snd_borrow_sample_def slice_get_def ds_bucket_size_def)
  with s(1) st'(2) show ?thesis
    by (intro that [of "s\<lparr>snd_segment_states := [st']\<rparr>"]) (auto simp: snd_refs_def snd_fixed_def)
qed

lemma snd_release_ok:
  assumes refs: "snd_refs l n s (set_mset R) R" and p: "p \<in># R"
  obtains s' where "snd_release_sample env s p = Some s'" "snd_refs l n s' (set_mset (R - {#p#})) (R - {#p#})"
    "snd_connections s' = snd_connections s" "snd_fixed s s'"
proof -
  from refs obtain m st where s: "snd_data_segment s = StaticMemory m" "snd_segment_states s = [st]"
    "segment_refs l n m st (set_mset R) R"
    by (auto simp: snd_refs_def)
  have pc: "p \<in> chunks l n" using s(3) p by (auto simp: segment_refs_def)
  note D = chunksD [OF pc]
  from segment_release [OF s(3) p, of "env_debug env"] obtain st' where
    st': "ss_release_sample (env_debug env) st (po_offset p) = Some (of_nat (count R p), st')"
    "segment_refs l n m st' (set_mset R) (R - {#p#})" by blast
  have "unat (ss_sample_reference_counter st ! chunk_of (chunk_size l) p) = count R p"
    using s(3) pc by (simp add: segment_refs_def)
  with unat_less_exp [of "ss_sample_reference_counter st ! chunk_of (chunk_size l) p"] have "count R p < 2 ^ 64" by simp
  then have one: "(of_nat (count R p) :: u64) = 1 \<longleftrightarrow> count R p = 1"
    by (simp add: word_unat_eq_iff unat_of_nat_small)
  show ?thesis
  proof (cases "count R p = 1")
    case True
    then have "p \<notin># R - {#p#}" by (simp add: not_in_iff)
    from segment_free [OF st'(2) p this, of "env_debug env"] obtain m' where
      m': "shm_deallocate_bucket (env_debug env) m p = Some m'" "segment_refs l n m' st' (set_mset R - {p}) (R - {#p#})" by blast
    have "set_mset R - {p} = set_mset (R - {#p#})" using True by (auto simp: set_eq_iff in_diff_count)
    with m'(2) have "segment_refs l n m' st' (set_mset (R - {#p#})) (R - {#p#})" by simp
    then have refs': "snd_refs l n (s\<lparr>snd_segment_states := [st'], snd_data_segment := StaticMemory m'\<rparr>)
        (set_mset (R - {#p#})) (R - {#p#})"
      by (simp add: snd_refs_def)
    have "snd_release_sample env s p = Some (s\<lparr>snd_segment_states := [st'], snd_data_segment := StaticMemory m'\<rparr>)"
      using s st'(1) m'(1) D(1) True by (simp add: snd_release_sample_def slice_get_def ds_deallocate_bucket_def)
    from this refs' show ?thesis by (rule that) (simp_all add: snd_fixed_def)
  next
    case False
    then have "1 < count R p" using p by (metis count_greater_eq_one_iff le_neq_implies_less)
    then have same: "set_mset (R - {#p#}) = set_mset R"
      by (intro equalityI subsetI) (erule in_diffD, auto simp: in_diff_count)
    have "snd_release_sample env s p = Some (s\<lparr>snd_segment_states := [st']\<rparr>)"
      using s st'(1) D(1) one False by (simp add: snd_release_sample_def slice_get_def)
    moreover have "snd_refs l n (s\<lparr>snd_segment_states := [st']\<rparr>) (set_mset (R - {#p#})) (R - {#p#})"
      using s(1) st'(2) same by (simp add: snd_refs_def)
    ultimately show ?thesis by (rule that) (simp_all add: snd_fixed_def)
  qed
qed

section \<open>References in flight\<close>

lemma sum_update:
  fixes f :: "'a \<Rightarrow> 'b::cancel_comm_monoid_add"
  assumes "finite A" "i \<in> A" "\<And>j. j \<in> A \<Longrightarrow> j \<noteq> i \<Longrightarrow> f' j = f j"
  shows "sum f' A + f i = sum f A + f' i"
proof -
  have "sum f' (A - {i}) = sum f (A - {i})" using assms(3) by (intro sum.cong) auto
  with assms(1,2) show ?thesis by (simp add: sum.remove [of A i] ac_simps)
qed

text \<open>
  The offsets that a connection has taken and not yet given back, with \<open>b\<close> for those its receiver
  holds; the same for all connections of a sender.
\<close>

definition con_flight :: "nat \<Rightarrow> connection option \<Rightarrow> (ChannelId \<Rightarrow> PointerOffset list) \<Rightarrow> PointerOffset multiset" where
  "con_flight k c b = (case c of None \<Rightarrow> {#}
     | Some con \<Rightarrow> \<Sum>ch<k. mset (in_flight (mgmt_channels (con_sender con) ! ch) (b ch)))"

definition snd_flight :: "sender \<Rightarrow> (nat \<Rightarrow> ChannelId \<Rightarrow> PointerOffset list) \<Rightarrow> PointerOffset multiset" where
  "snd_flight s b =
     (\<Sum>i<length (snd_connections s). con_flight (snd_number_of_channels s) (snd_connections s ! i) (b i))"

lemma con_flight_None [simp]: "con_flight k None b = {#}"
  by (simp add: con_flight_def)

lemma con_flight_update:
  assumes "ch < k" "\<And>ch'. ch' \<noteq> ch \<Longrightarrow> mgmt_channels m' ! ch' = mgmt_channels (con_sender c) ! ch' \<and> b' ch' = b ch'"
  shows "con_flight k (Some (c\<lparr>con_sender := m'\<rparr>)) b' + mset (in_flight (mgmt_channels (con_sender c) ! ch) (b ch)) =
    con_flight k (Some c) b + mset (in_flight (mgmt_channels m' ! ch) (b' ch))"
proof -
  let ?f = "\<lambda>m b ch. mset (in_flight (mgmt_channels m ! ch) (b ch))"
  have "sum (?f m' b') {..<k} + ?f (con_sender c) b ch = sum (?f (con_sender c) b) {..<k} + ?f m' b' ch"
    by (rule sum_update [of _ ch "?f m' b'" "?f (con_sender c) b"]) (use assms in simp_all)
  then show ?thesis by (simp add: con_flight_def)
qed

lemma snd_flight_update:
  assumes "i < length (snd_connections s)" "snd_connections s' = (snd_connections s)[i := c']"
    "snd_number_of_channels s' = snd_number_of_channels s" "\<And>j. j \<noteq> i \<Longrightarrow> b' j = b j"
  shows "snd_flight s' b' + con_flight (snd_number_of_channels s) (snd_connections s ! i) (b i) =
    snd_flight s b + con_flight (snd_number_of_channels s) c' (b' i)"
proof -
  let ?k = "snd_number_of_channels s" and ?cs = "snd_connections s"
  have "(\<Sum>j<length ?cs. con_flight ?k (?cs[i := c'] ! j) (b' j)) + con_flight ?k (?cs ! i) (b i) =
      (\<Sum>j<length ?cs. con_flight ?k (?cs ! j) (b j)) + con_flight ?k (?cs[i := c'] ! i) (b' i)"
    by (rule sum_update [of _ i "\<lambda>j. con_flight ?k (?cs[i := c'] ! j) (b' j)" "\<lambda>j. con_flight ?k (?cs ! j) (b j)"])
      (use assms in simp_all)
  with assms show ?thesis by (simp add: snd_flight_def)
qed

lemma snd_flight_cong:
  "snd_connections s' = snd_connections s \<Longrightarrow> snd_number_of_channels s' = snd_number_of_channels s \<Longrightarrow> snd_flight s' b = snd_flight s b"
  by (simp add: snd_flight_def)

text \<open>
  The invariant of a sender with the references \<open>held\<close> outside its connections. \<open>cnt\<close> and \<open>b\<close>
  belong to the receivers, \<open>d\<close> marks the connections whose returned chunks have been taken back since
  the last delivery.
\<close>

definition con_inv ::
  "layout \<Rightarrow> sender \<Rightarrow> connection \<Rightarrow> nat list \<Rightarrow> (ChannelId \<Rightarrow> PointerOffset list) \<Rightarrow> bool \<Rightarrow> bool" where
  "con_inv l s c cnt b d \<longleftrightarrow>
     (\<exists>k \<le> snd_receiver_max_buffer_size s. run_inv (chunk_size l) (connection_builder s k) (con_sender c) cnt b (\<lambda>_. d))"

definition snd_inv ::
  "layout \<Rightarrow> sender \<Rightarrow> (nat \<Rightarrow> nat list) \<Rightarrow> (nat \<Rightarrow> ChannelId \<Rightarrow> PointerOffset list) \<Rightarrow> (nat \<Rightarrow> bool) \<Rightarrow>
   PointerOffset multiset \<Rightarrow> bool" where
  "snd_inv l s cnt b d held \<longleftrightarrow>
     snd_refs l (snd_number_of_samples s) s (set_mset (held + snd_flight s b)) (held + snd_flight s b) \<and>
     0 < snd_number_of_samples s \<and> 0 < snd_number_of_channels s \<and> snd_max_number_of_segments s = 1 \<and>
     (\<forall>i < length (snd_connections s). \<forall>c. snd_connections s ! i = Some c \<longrightarrow> con_inv l s c (cnt i) (b i) (d i))"

lemma connection_builder_simps:
  assumes "0 < snd_number_of_channels s" "0 < snd_number_of_samples s" "snd_max_number_of_segments s = 1"
  shows "bld_number_of_channels (connection_builder s k) = snd_number_of_channels s"
    "bld_number_of_samples_per_segment (connection_builder s k) = snd_number_of_samples s"
    "bld_number_of_segments (connection_builder s k) = 1"
    "bld_buffer_size (connection_builder s k) = max 1 k"
    "bld_max_borrowed_samples_per_channel (connection_builder s k) = max 1 (snd_receiver_max_borrowed_samples s)"
    "bld_enable_safe_overflow (connection_builder s k) = snd_enable_safe_overflow s"
  using assms
  by (simp_all add: connection_builder_def Let_def bld_set_buffer_size_def bld_set_max_borrowed_def
      bld_set_enable_safe_overflow_def bld_set_samples_per_segment_def bld_set_segments_def
      bld_set_initial_channel_state_def bld_set_channels_def)

lemma con_inv_fixed: "snd_fixed s s' \<Longrightarrow> con_inv l s' c cnt b d = con_inv l s c cnt b d"
  by (simp add: con_inv_def snd_fixedD)

lemma snd_invD:
  assumes "snd_inv l s cnt b d held"
  shows "snd_refs l (snd_number_of_samples s) s (set_mset (held + snd_flight s b)) (held + snd_flight s b)"
    "0 < snd_number_of_samples s" "0 < snd_number_of_channels s" "snd_max_number_of_segments s = 1"
    "i < length (snd_connections s) \<Longrightarrow> snd_connections s ! i = Some c \<Longrightarrow> con_inv l s c (cnt i) (b i) (d i)"
  using assms by (simp_all add: snd_inv_def)

lemma con_invD:
  assumes inv: "snd_inv l s cnt b d held" and c: "con_inv l s c cnt' b' d'"
  shows "length (mgmt_channels (con_sender c)) = snd_number_of_channels s" "mgmt_number_of_segments (con_sender c) = 1"
    "mgmt_number_of_samples_per_segment (con_sender c) = snd_number_of_samples s"
    "zcc_inv (chunk_size l) (con_sender c) cnt' b'"
    "mgmt_enable_safe_overflow (con_sender c) = snd_enable_safe_overflow s"
  using c connection_builder_simps [OF snd_invD(3,2,4) [OF inv]]
  by (auto simp: con_inv_def run_inv_def created_with_def)

lemma snd_inv_put:
  assumes inv: "snd_inv l s cnt b d held" and i: "i < length (snd_connections s)" and fixed: "snd_fixed s s'"
    and cs: "snd_connections s' = (snd_connections s)[i := c']"
    and refs: "snd_refs l (snd_number_of_samples s) s' (set_mset (held' + snd_flight s' b')) (held' + snd_flight s' b')"
    and other: "\<And>j. j \<noteq> i \<Longrightarrow> cnt' j = cnt j \<and> b' j = b j \<and> d' j = d j"
    and new: "\<And>c. c' = Some c \<Longrightarrow> con_inv l s c (cnt' i) (b' i) (d' i)"
  shows "snd_inv l s' cnt' b' d' held'"
  unfolding snd_inv_def
proof (intro conjI allI impI)
  fix j c assume "j < length (snd_connections s')" "snd_connections s' ! j = Some c"
  then show "con_inv l s' c (cnt' j) (b' j) (d' j)"
    using snd_invD(5) [OF inv, of j c] new [of c] other [of j] cs i
    by (cases "j = i") (simp_all add: con_inv_fixed [OF fixed])
qed (use refs snd_invD(2,3,4) [OF inv] in \<open>simp_all add: snd_fixedD [OF fixed]\<close>)

text \<open>What a sender shows of its connections, apart from chunks that are given back.\<close>

definition channel_view :: "channel \<Rightarrow> nat \<times> PointerOffset list" where
  "channel_view c = (oq_capacity (ch_submission_queue c), submitted c)"

definition con_view :: "connection \<Rightarrow> port_id \<times> tag \<times> (nat \<times> PointerOffset list) list" where
  "con_view c = (con_receiver_port_id c, con_tag c, map channel_view (mgmt_channels (con_sender c)))"

definition snd_view :: "sender \<Rightarrow> (port_id \<times> tag \<times> (nat \<times> PointerOffset list) list) option list" where
  "snd_view s = map (map_option con_view) (snd_connections s)"

definition drained :: "sender \<Rightarrow> nat \<Rightarrow> ChannelId \<Rightarrow> bool" where
  "drained s i ch \<longleftrightarrow> (\<forall>c. snd_connections s ! i = Some c \<longrightarrow> completed (mgmt_channels (con_sender c) ! ch) = [])"

lemma snd_view_length: "snd_view s' = snd_view s \<Longrightarrow> length (snd_connections s') = length (snd_connections s)"
  by (metis length_map snd_view_def)

section \<open>Taking chunks back\<close>

lemma snd_reclaim_one:
  assumes inv: "snd_inv l s cnt b d held" and i: "i < length (snd_connections s)" "snd_connections s ! i = Some c"
    and ch: "ch < snd_number_of_channels s"
    and reclaim: "zcc_reclaim (env_debug env) (con_sender c) ch = Some (Inr (Some p), m')"
    "completed (mgmt_channels (con_sender c) ! ch) = p # completed (mgmt_channels m' ! ch)"
    "submitted (mgmt_channels m' ! ch) = submitted (mgmt_channels (con_sender c) ! ch)"
  obtains s' where "snd_release_sample env (snd_put_management s i c m') p = Some s'" "snd_inv l s' cnt b d held"
    "snd_fixed s s'" "snd_connections s' = (snd_connections s)[i := Some (c\<lparr>con_sender := m'\<rparr>)]"
    "set_mset (snd_flight s' b) \<subseteq> set_mset (snd_flight s b)"
proof -
  let ?m = "con_sender c" and ?k = "snd_number_of_channels s" and ?s1 = "snd_put_management s i c m'"
  note con = snd_invD(5) [OF inv i]
  have ch': "ch < length (mgmt_channels ?m)" using con_invD(1) [OF inv con] ch by simp
  have "con_flight ?k (Some (c\<lparr>con_sender := m'\<rparr>)) (b i) + mset (in_flight (mgmt_channels ?m ! ch) (b i ch)) =
      con_flight ?k (Some c) (b i) + mset (in_flight (mgmt_channels m' ! ch) (b i ch))"
    by (rule con_flight_update [OF ch]) (use zcc_reclaim_frame [OF reclaim(1)] in auto)
  moreover have "mset (in_flight (mgmt_channels ?m ! ch) (b i ch)) = add_mset p (mset (in_flight (mgmt_channels m' ! ch) (b i ch)))"
    using reclaim(2,3) by (simp add: in_flight_def)
  ultimately have "con_flight ?k (Some c) (b i) = add_mset p (con_flight ?k (Some (c\<lparr>con_sender := m'\<rparr>)) (b i))" by simp
  moreover have fl1: "snd_flight ?s1 b + con_flight ?k (snd_connections s ! i) (b i) =
      snd_flight s b + con_flight ?k (Some (c\<lparr>con_sender := m'\<rparr>)) (b i)"
    by (rule snd_flight_update [OF i(1)]) (simp_all add: snd_fixedD [OF snd_fixed_put_management])
  ultimately have fl: "snd_flight s b = add_mset p (snd_flight ?s1 b)" using i(2) by simp
  have "snd_refs l (snd_number_of_samples s) ?s1 (set_mset (held + snd_flight s b)) (held + snd_flight s b)"
    using snd_invD(1) [OF inv] by simp
  then obtain s' where s': "snd_release_sample env ?s1 p = Some s'"
    "snd_refs l (snd_number_of_samples s) s' (set_mset (held + snd_flight ?s1 b)) (held + snd_flight ?s1 b)"
    "snd_connections s' = snd_connections ?s1" "snd_fixed ?s1 s'"
    by (rule snd_release_ok [where p = p and env = env]) (simp_all add: fl)
  have fixed: "snd_fixed s s'" using snd_fixed_put_management s'(4) by (rule snd_fixed_trans)
  have fl': "snd_flight s' b = snd_flight ?s1 b"
    using s'(3) by (rule snd_flight_cong) (simp add: snd_fixedD [OF s'(4)])
  have "run_inv (chunk_size l) bld m' (cnt i) (b i) (\<lambda>_. d i)" if "run_inv (chunk_size l) bld ?m (cnt i) (b i) (\<lambda>_. d i)" for bld
    using run_inv_reclaim [OF that ch' reclaim(1)] by (simp add: fun_upd_def)
  with con have new: "con_inv l s (c\<lparr>con_sender := m'\<rparr>) (cnt i) (b i) (d i)" by (auto simp: con_inv_def)
  have "snd_inv l s' cnt b d held"
    by (rule snd_inv_put [OF inv i(1) fixed, where c' = "Some (c\<lparr>con_sender := m'\<rparr>)"]) (use s' fl' new in simp_all)
  with s'(1,3) fixed fl fl' show ?thesis by (intro that) auto
qed

lemma snd_view_put:
  assumes "snd_connections s ! i = Some c" "snd_connections s' = (snd_connections s)[i := Some c']" "con_view c' = con_view c"
  shows "snd_view s' = snd_view s"
proof (rule nth_equalityI)
  show "snd_view s' ! j = snd_view s ! j" if "j < length (snd_view s')" for j
    using that assms by (cases "j = i") (simp_all add: snd_view_def)
qed (simp add: snd_view_def assms(2))

lemma con_view_reclaim:
  assumes "length (mgmt_channels m') = length (mgmt_channels (con_sender c))"
    "\<And>ch'. ch' \<noteq> ch \<Longrightarrow> mgmt_channels m' ! ch' = mgmt_channels (con_sender c) ! ch'"
    "channel_view (mgmt_channels m' ! ch) = channel_view (mgmt_channels (con_sender c) ! ch)"
  shows "con_view (c\<lparr>con_sender := m'\<rparr>) = con_view c"
proof -
  have "map channel_view (mgmt_channels m') = map channel_view (mgmt_channels (con_sender c))"
  proof (rule nth_equalityI)
    show "map channel_view (mgmt_channels m') ! j = map channel_view (mgmt_channels (con_sender c)) ! j"
      if "j < length (map channel_view (mgmt_channels m'))" for j
      using that assms by (cases "j = ch") simp_all
  qed (simp add: assms(1))
  then show ?thesis by (simp add: con_view_def)
qed

lemma channel_capacity:
  assumes "zcc_settings m' = zcc_settings m" "ch < length (mgmt_channels m)"
  shows "oq_capacity (ch_submission_queue (mgmt_channels m' ! ch)) = oq_capacity (ch_submission_queue (mgmt_channels m ! ch))"
proof -
  from assms(1) have "map (\<lambda>c. (oq_capacity (ch_submission_queue c), iq_capacity (ch_completion_queue c))) (mgmt_channels m') ! ch =
      map (\<lambda>c. (oq_capacity (ch_submission_queue c), iq_capacity (ch_completion_queue c))) (mgmt_channels m) ! ch"
    by (simp add: zcc_settings_def)
  with assms(2) channel_other_same [OF assms(1)] show ?thesis by simp
qed

text \<open>The loop over one channel ends: every round takes an offset off the completion queue.\<close>

lemma snd_reclaim_all_ok:
  assumes "snd_inv l s cnt b d held" "i < length (snd_connections s)" "ch < snd_number_of_channels s"
  shows "\<exists>s'. snd_reclaim_all env s i ch = Some s' \<and> snd_inv l s' cnt b d held \<and> snd_fixed s s' \<and> snd_view s' = snd_view s \<and>
    drained s' i ch \<and> (\<forall>j ch'. drained s j ch' \<longrightarrow> drained s' j ch') \<and> set_mset (snd_flight s' b) \<subseteq> set_mset (snd_flight s b)"
proof (cases "snd_connections s ! i")
  case None
  with assms show ?thesis
    by (intro exI [of _ s]) (simp add: snd_reclaim_all.simps [of env s i ch] slice_get_def drained_def)
next
  case (Some c)
  define xs where "xs = completed (mgmt_channels (con_sender c) ! ch)"
  from assms Some xs_def show ?thesis
  proof (induction xs arbitrary: s c)
    case Nil
    note con = snd_invD(5) [OF Nil.prems(1,2,4)]
    have "ch < length (mgmt_channels (con_sender c))" using con_invD(1) [OF Nil.prems(1) con] Nil.prems(3) by simp
    with con_invD(4) [OF Nil.prems(1) con] show ?case
    proof (cases rule: zcc_reclaim_cases [where dbg = "env_debug env"])
      case empty
      have "snd_put_management s i c (con_sender c) = s"
        using Nil.prems(4) list_update_id [of "snd_connections s" i]
        by (simp add: snd_put_management_def snd_put_connection_def)
      with empty Nil.prems show ?thesis
        by (intro exI [of _ s]) (simp add: snd_reclaim_all.simps [of env s i ch] slice_get_def drained_def)
    qed (use Nil.prems(5) in simp)
  next
    case (Cons p xs)
    note con = snd_invD(5) [OF Cons.prems(1,2,4)]
    have ch: "ch < length (mgmt_channels (con_sender c))" using con_invD(1) [OF Cons.prems(1) con] Cons.prems(3) by simp
    with con_invD(4) [OF Cons.prems(1) con] show ?case
    proof (cases rule: zcc_reclaim_cases [where dbg = "env_debug env"])
      case (reclaimed q m')
      note frame = zcc_reclaim_frame [OF reclaimed(1)]
      obtain s1 where s1: "snd_release_sample env (snd_put_management s i c m') q = Some s1" "snd_inv l s1 cnt b d held"
        "snd_fixed s s1" "snd_connections s1 = (snd_connections s)[i := Some (c\<lparr>con_sender := m'\<rparr>)]"
        "set_mset (snd_flight s1 b) \<subseteq> set_mset (snd_flight s b)"
        by (rule snd_reclaim_one [OF Cons.prems(1,2,4,3) reclaimed(1,2,3)])
      have "\<exists>s'. snd_reclaim_all env s1 i ch = Some s' \<and> snd_inv l s' cnt b d held \<and> snd_fixed s1 s' \<and> snd_view s' = snd_view s1 \<and>
          drained s' i ch \<and> (\<forall>j ch'. drained s1 j ch' \<longrightarrow> drained s' j ch') \<and> set_mset (snd_flight s' b) \<subseteq> set_mset (snd_flight s1 b)"
        by (rule Cons.IH [of s1 "c\<lparr>con_sender := m'\<rparr>"])
          (use s1 Cons.prems reclaimed(2) in \<open>simp_all add: snd_fixedD(1) [OF s1(3)]\<close>)
      then obtain s' where s': "snd_reclaim_all env s1 i ch = Some s'" "snd_inv l s' cnt b d held" "snd_fixed s1 s'"
        "snd_view s' = snd_view s1" "drained s' i ch" "\<forall>j ch'. drained s1 j ch' \<longrightarrow> drained s' j ch'"
        "set_mset (snd_flight s' b) \<subseteq> set_mset (snd_flight s1 b)" by blast
      have "con_view (c\<lparr>con_sender := m'\<rparr>) = con_view c"
        by (rule con_view_reclaim [where ch = ch])
          (use reclaimed frame channel_capacity [OF zcc_reclaim_settings [OF reclaimed(1)]] ch in \<open>simp_all add: channel_view_def\<close>)
      with Cons.prems(4) s1(4) have view: "snd_view s1 = snd_view s" by (rule snd_view_put)
      have dr: "drained s1 j ch'" if "drained s j ch'" "j \<noteq> i \<or> ch' \<noteq> ch" for j ch'
        using that s1(4) Cons.prems(2,4) frame [of ch'] by (cases "j = i") (auto simp: drained_def)
      have "snd_reclaim_all env s i ch = Some s'"
        using Cons.prems reclaimed(1) s1(1) s'(1) by (simp add: snd_reclaim_all.simps [of env s i ch] slice_get_def)
      moreover have "drained s' j ch'" if "drained s j ch'" for j ch'
        using s'(5,6) dr that by (cases "j = i \<and> ch' = ch") auto
      ultimately show ?thesis
        using s' view snd_fixed_trans [OF s1(3) s'(3)] order_trans [OF s'(7) s1(5)] by auto
    qed (use Cons.prems(5) in simp)
  qed
qed

definition retrieved :: "layout \<Rightarrow> sender \<Rightarrow> (nat \<Rightarrow> nat list) \<Rightarrow> (nat \<Rightarrow> ChannelId \<Rightarrow> PointerOffset list) \<Rightarrow> (nat \<Rightarrow> bool) \<Rightarrow>
   PointerOffset multiset \<Rightarrow> sender \<Rightarrow> bool" where
  "retrieved l s cnt b d held s' \<longleftrightarrow> snd_inv l s' cnt b d held \<and> snd_fixed s s' \<and> snd_view s' = snd_view s \<and>
     (\<forall>j ch. drained s j ch \<longrightarrow> drained s' j ch) \<and> set_mset (snd_flight s' b) \<subseteq> set_mset (snd_flight s b)"

lemma retrieved_refl: "snd_inv l s cnt b d held \<Longrightarrow> retrieved l s cnt b d held s"
  by (simp add: retrieved_def)

lemma retrieved_trans: "retrieved l s cnt b d held s' \<Longrightarrow> retrieved l s' cnt b d held s'' \<Longrightarrow> retrieved l s cnt b d held s''"
  by (auto simp: retrieved_def intro: snd_fixed_trans)

lemma retrievedD:
  assumes "retrieved l s cnt b d held s'"
  shows "length (snd_connections s') = length (snd_connections s)" "snd_number_of_channels s' = snd_number_of_channels s"
    "drained s j ch \<Longrightarrow> drained s' j ch"
  using assms snd_view_length [of s' s] snd_fixedD(1) [of s s'] by (auto simp: retrieved_def)

lemma snd_retrieve_connection:
  assumes inv: "snd_inv l s cnt b d held" and i: "i < length (snd_connections s)"
  shows "\<exists>s'. for_each (\<lambda>s2 ch. snd_reclaim_all env s2 i ch) [0..<snd_number_of_channels s] s = Some s' \<and>
    retrieved l s cnt b d held s' \<and> (\<forall>ch < snd_number_of_channels s. drained s' i ch)"
proof -
  let ?I = "\<lambda>visited t. retrieved l s cnt b d held t \<and> (\<forall>ch \<in> set visited. drained t i ch)"
  have step: "\<exists>t'. snd_reclaim_all env t i ch = Some t' \<and> ?I (visited @ [ch]) t'"
    if "[0..<snd_number_of_channels s] = visited @ ch # rest" and I: "?I visited t" for visited ch rest t
  proof -
    have "ch < snd_number_of_channels s" using that(1) by (metis atLeastLessThan_iff in_set_conv_decomp set_upt)
    with I i retrievedD(1,2) [of l s cnt b d held t]
    obtain t' where t': "snd_reclaim_all env t i ch = Some t'" "retrieved l t cnt b d held t'" "drained t' i ch"
      using snd_reclaim_all_ok [of l t cnt b d held i ch env] by (auto simp: retrieved_def)
    with I retrieved_trans [of l s cnt b d held t t'] retrievedD(3) [OF t'(2)] show ?thesis by auto
  qed
  show ?thesis
    by (rule for_each_invariant [of ?I s "[0..<snd_number_of_channels s]" "\<lambda>s2 ch. snd_reclaim_all env s2 i ch"])
      (use step retrieved_refl [OF inv] in auto)
qed

lemma con_inv_drained:
  assumes inv: "snd_inv l s cnt b d held" and con: "con_inv l s c cnt' b' d'"
    and dr: "\<And>ch. ch < snd_number_of_channels s \<Longrightarrow> completed (mgmt_channels (con_sender c) ! ch) = []"
  shows "con_inv l s c cnt' b' True"
proof -
  let ?m = "con_sender c"
  note D = con_invD [OF inv con]
  from con obtain k where k: "k \<le> snd_receiver_max_buffer_size s"
    "run_inv (chunk_size l) (connection_builder s k) ?m cnt' b' (\<lambda>_. d')" by (auto simp: con_inv_def)
  then have created: "created_with (connection_builder s k) ?m" by (simp add: run_inv_def)
  have "length (in_flight (mgmt_channels ?m ! ch) (b' ch)) \<le> flight_bound (connection_builder s k) True"
    if ch: "ch < length (mgmt_channels ?m)" for ch
  proof -
    have "overflow_queue_inv (ch_submission_queue (mgmt_channels ?m ! ch))" "length (b' ch) \<le> mgmt_max_borrowed_samples ?m"
      using zcc_invD(1) [OF D(4) ch] by (simp_all add: channel_inv_def)
    with oq.content_bound created_withD [OF created ch] dr [of ch] D(1) ch show ?thesis
      by (fastforce simp: flight_bound_def in_flight_def intro: add_mono)
  qed
  with k show ?thesis by (auto simp: con_inv_def run_inv_def)
qed

lemma snd_retrieve_ok:
  assumes inv: "snd_inv l s cnt b d held"
  obtains s' where "snd_retrieve_returned_samples env s = Some s'" "snd_inv l s' cnt b (\<lambda>_. True) held" "snd_fixed s s'"
    "snd_view s' = snd_view s" "\<forall>i < length (snd_connections s). \<forall>ch < snd_number_of_channels s. drained s' i ch"
    "set_mset (snd_flight s' b) \<subseteq> set_mset (snd_flight s b)"
proof -
  let ?I = "\<lambda>visited t. retrieved l s cnt b d held t \<and> (\<forall>i \<in> set visited. \<forall>ch < snd_number_of_channels s. drained t i ch)"
  let ?f = "\<lambda>s1 i. for_each (\<lambda>s2 ch. snd_reclaim_all env s2 i ch) [0..<snd_number_of_channels s] s1"
  have step: "\<exists>t'. ?f t i = Some t' \<and> ?I (visited @ [i]) t'"
    if "[0..<length (snd_connections s)] = visited @ i # rest" and I: "?I visited t" for visited i rest t
  proof -
    have "i < length (snd_connections s)" using that(1) by (metis atLeastLessThan_iff in_set_conv_decomp set_upt)
    with I retrievedD(1,2) [of l s cnt b d held t]
    obtain t' where t': "?f t i = Some t'" "retrieved l t cnt b d held t'" "\<forall>ch < snd_number_of_channels s. drained t' i ch"
      using snd_retrieve_connection [of l t cnt b d held i env] by (auto simp: retrieved_def)
    with I retrieved_trans [of l s cnt b d held t t'] retrievedD(3) [OF t'(2)] show ?thesis by auto
  qed
  obtain s' where s': "for_each ?f [0..<length (snd_connections s)] s = Some s'" "?I [0..<length (snd_connections s)] s'"
    by (rule for_each_invariant [of ?I s "[0..<length (snd_connections s)]" ?f]) (use step retrieved_refl [OF inv] in auto)
  then have inv': "snd_inv l s' cnt b d held" and D: "length (snd_connections s') = length (snd_connections s)"
    "snd_number_of_channels s' = snd_number_of_channels s"
    using retrievedD [of l s cnt b d held s'] by (auto simp: retrieved_def)
  have "con_inv l s' c (cnt i) (b i) True" if "i < length (snd_connections s')" "snd_connections s' ! i = Some c" for i c
    by (rule con_inv_drained [OF inv' snd_invD(5) [OF inv' that]]) (use s'(2) that D in \<open>auto simp: drained_def\<close>)
  with inv' have "snd_inv l s' cnt b (\<lambda>_. True) held" by (simp add: snd_inv_def)
  with s' show ?thesis by (intro that [of s']) (auto simp: snd_retrieve_returned_samples_def retrieved_def)
qed

section \<open>Delivering\<close>

lemma count_flight_le:
  assumes inv: "snd_inv l s cnt b d held"
  shows "count (snd_flight s b) p \<le> length (snd_connections s) * snd_number_of_channels s"
proof -
  let ?k = "snd_number_of_channels s"
  have "count (con_flight ?k (snd_connections s ! i) (b i)) p \<le> ?k" if i: "i < length (snd_connections s)" for i
  proof (cases "snd_connections s ! i")
    case (Some c)
    note D = con_invD [OF inv snd_invD(5) [OF inv i Some]]
    have "count (mset (in_flight (mgmt_channels (con_sender c) ! ch) (b i ch))) p \<le> 1" if "ch < ?k" for ch
      using zcc_invD(1) [OF D(4), of ch] D(1) that by (simp add: channel_inv_def distinct_count_atmost_1)
    then have "(\<Sum>ch<?k. count (mset (in_flight (mgmt_channels (con_sender c) ! ch) (b i ch))) p) \<le> ?k * 1"
      by (intro order_trans [OF sum_bounded_above [where K = 1]]) auto
    with Some show ?thesis by (simp add: con_flight_def count_sum)
  qed simp
  then have "(\<Sum>i<length (snd_connections s). count (con_flight ?k (snd_connections s ! i) (b i)) p) \<le> length (snd_connections s) * ?k"
    by (intro order_trans [OF sum_bounded_above [where K = ?k]]) auto
  then show ?thesis by (simp add: snd_flight_def count_sum)
qed

lemma held_chunks: "snd_inv l s cnt b d held \<Longrightarrow> p \<in># held \<Longrightarrow> p \<in> chunks l (snd_number_of_samples s)"
  by (auto simp: snd_inv_def snd_refs_def segment_refs_def)

lemma flight_chunks: "snd_inv l s cnt b d held \<Longrightarrow> p \<in># snd_flight s b \<Longrightarrow> p \<in> chunks l (snd_number_of_samples s)"
  by (auto simp: snd_inv_def snd_refs_def segment_refs_def)

lemma exchange:
  assumes "a' + x = a + y" "p + x = q + (y :: 'a::cancel_comm_monoid_add)"
  shows "q + a' = p + a"
proof -
  have "(q + a') + x = q + (a + y)" using assms(1) by (simp add: add.assoc)
  also have "\<dots> = a + (p + x)" using assms(2) by (simp add: add.left_commute)
  finally have "(q + a') + x = (p + a) + x" by (simp add: ac_simps)
  then show ?thesis by simp
qed

lemma run_inv_weaken: "run_inv sz bld m cnt b dr \<Longrightarrow> run_inv sz bld m cnt b (\<lambda>_. False)"
  using flight_bound_mono by (auto simp: run_inv_def intro: order_trans)

text \<open>A connection that takes an offset gains a reference; the offset that overflows loses one.\<close>

lemma snd_send_one:
  assumes inv: "snd_inv l s cnt b d held" and i: "i < length (snd_connections s)" "snd_connections s ! i = Some c" "d i"
    and ch: "ch < snd_number_of_channels s" and p: "p \<in># held" "p \<notin> set (in_flight (mgmt_channels (con_sender c) ! ch) (b i ch))"
    and few: "size held + length (snd_connections s) * snd_number_of_channels s + 1 < 2 ^ 64"
    and send: "zcc_try_send (env_debug env) (con_sender c) p (lsize l) ch = Some (Inr r, m')"
    "submitted (mgmt_channels (con_sender c) ! ch) @ [p] = (case r of None \<Rightarrow> [] | Some q \<Rightarrow> [q]) @ submitted (mgmt_channels m' ! ch)"
    "completed (mgmt_channels m' ! ch) = completed (mgmt_channels (con_sender c) ! ch)"
  obtains ref s2 s' where "snd_borrow_sample env (snd_put_management s i c m') p = Some (ref, s2)"
    "(case r of None \<Rightarrow> Some s2 | Some old \<Rightarrow> snd_release_sample env s2 old) = Some s'"
    "snd_inv l s' cnt b (d(i := False)) held" "snd_fixed s s'"
    "snd_connections s' = (snd_connections s)[i := Some (c\<lparr>con_sender := m'\<rparr>)]"
    "set_mset (snd_flight s' b) \<subseteq> insert p (set_mset (snd_flight s b))"
proof -
  let ?m = "con_sender c" and ?k = "snd_number_of_channels s" and ?s1 = "snd_put_management s i c m'" and ?n = "snd_number_of_samples s"
  let ?o = "case r of None \<Rightarrow> {#} | Some q \<Rightarrow> {#q#}" and ?R = "held + snd_flight s b"
  note con = snd_invD(5) [OF inv i(1,2)]
  note D = con_invD [OF inv con]
  have ch': "ch < length (mgmt_channels ?m)" using D(1) ch by simp
  have "con_flight ?k (Some (c\<lparr>con_sender := m'\<rparr>)) (b i) + mset (in_flight (mgmt_channels ?m ! ch) (b i ch)) =
      con_flight ?k (Some c) (b i) + mset (in_flight (mgmt_channels m' ! ch) (b i ch))"
    by (rule con_flight_update [OF ch]) (use zcc_try_send_frame [OF send(1)] in auto)
  moreover have "{#p#} + mset (in_flight (mgmt_channels ?m ! ch) (b i ch)) = ?o + mset (in_flight (mgmt_channels m' ! ch) (b i ch))"
    using arg_cong [OF send(2), of mset] send(3) by (cases r) (simp_all add: in_flight_def)
  ultimately have con_fl: "?o + con_flight ?k (Some (c\<lparr>con_sender := m'\<rparr>)) (b i) = {#p#} + con_flight ?k (Some c) (b i)"
    by (rule exchange)
  have "snd_flight ?s1 b + con_flight ?k (snd_connections s ! i) (b i) =
      snd_flight s b + con_flight ?k (Some (c\<lparr>con_sender := m'\<rparr>)) (b i)"
    by (rule snd_flight_update [OF i(1)]) (simp_all add: snd_fixedD [OF snd_fixed_put_management])
  then have "?o + snd_flight ?s1 b = {#p#} + snd_flight s b"
    by (rule exchange) (simp only: i(2) con_fl)
  then have fl: "?o + snd_flight ?s1 b = add_mset p (snd_flight s b)" by simp
  have "count ?R p \<le> size held + length (snd_connections s) * ?k"
    using count_flight_le [OF inv, of p] count_le_size [of held p] by simp
  with few have small: "count ?R p + 1 < 2 ^ 64" by linarith
  have "snd_refs l ?n ?s1 (set_mset ?R) ?R" "p \<in> set_mset ?R" using snd_invD(1) [OF inv] p(1) by simp_all
  from this small obtain s2 where s2: "snd_borrow_sample env ?s1 p = Some ((of_nat (count ?R p), lsize l), s2)"
    "snd_refs l ?n s2 (set_mset ?R) (add_mset p ?R)" "snd_connections s2 = snd_connections ?s1" "snd_fixed ?s1 s2"
    by (rule snd_borrow_ok)
  have "set_mset ?R = set_mset (add_mset p ?R)" using p(1) by auto
  with s2(2) have refs2: "snd_refs l ?n s2 (set_mset (add_mset p ?R)) (add_mset p ?R)" by simp
  have "\<exists>s'. (case r of None \<Rightarrow> Some s2 | Some old \<Rightarrow> snd_release_sample env s2 old) = Some s' \<and>
      snd_refs l ?n s' (set_mset (held + snd_flight ?s1 b)) (held + snd_flight ?s1 b) \<and>
      snd_connections s' = snd_connections ?s1 \<and> snd_fixed ?s1 s'"
  proof (cases r)
    case None
    with s2 refs2 fl show ?thesis by simp
  next
    case (Some q)
    with fl have eq: "add_mset p ?R = add_mset q (held + snd_flight ?s1 b)" by simp
    obtain s' where "snd_release_sample env s2 q = Some s'" "snd_refs l ?n s' (set_mset (held + snd_flight ?s1 b)) (held + snd_flight ?s1 b)"
      "snd_connections s' = snd_connections s2" "snd_fixed s2 s'"
      by (rule snd_release_ok [OF refs2, of q env]) (simp_all add: eq)
    with Some s2(3) snd_fixed_trans [OF s2(4), of s'] show ?thesis by simp
  qed
  then obtain s' where s': "(case r of None \<Rightarrow> Some s2 | Some old \<Rightarrow> snd_release_sample env s2 old) = Some s'"
      "snd_refs l ?n s' (set_mset (held + snd_flight ?s1 b)) (held + snd_flight ?s1 b)"
      "snd_connections s' = snd_connections ?s1" "snd_fixed ?s1 s'" by blast
  have fixed: "snd_fixed s s'" using snd_fixed_put_management s'(4) by (rule snd_fixed_trans)
  have fl': "snd_flight s' b = snd_flight ?s1 b" using s'(3) by (rule snd_flight_cong) (simp add: snd_fixedD [OF s'(4)])
  have "valid_offset (chunk_size l) (unat (mgmt_number_of_segments ?m)) (mgmt_number_of_samples_per_segment ?m) p"
    using held_chunks [OF inv p(1)] D(2,3) by (simp add: chunks_def)
  then have "run_inv (chunk_size l) bld m' (cnt i) (b i) (\<lambda>_. False)" if "run_inv (chunk_size l) bld ?m (cnt i) (b i) (\<lambda>_. d i)" for bld
    using run_inv_weaken [OF run_inv_send [OF that ch' i(3) _ p(2), of "env_debug env" "Inr r" m']] send(1) by simp
  with con have new: "con_inv l s (c\<lparr>con_sender := m'\<rparr>) (cnt i) (b i) False" by (auto simp: con_inv_def)
  have "snd_inv l s' cnt b (d(i := False)) held"
    by (rule snd_inv_put [OF inv i(1) fixed, where c' = "Some (c\<lparr>con_sender := m'\<rparr>)"]) (use s' fl' new in simp_all)
  moreover have "set_mset (snd_flight s' b) \<subseteq> insert p (set_mset (snd_flight s b))"
    using arg_cong [OF fl, of set_mset] fl' by auto
  ultimately show ?thesis using s2(1) s'(1,3) fixed by (intro that) simp_all
qed

text \<open>What a channel queues for its receiver, its capacity, and the queue after an offset is offered to it.\<close>

definition con_queue :: "connection \<Rightarrow> ChannelId \<Rightarrow> PointerOffset list" where
  "con_queue c ch = submitted (mgmt_channels (con_sender c) ! ch)"

definition con_capacity :: "connection \<Rightarrow> ChannelId \<Rightarrow> nat" where
  "con_capacity c ch = oq_capacity (ch_submission_queue (mgmt_channels (con_sender c) ! ch))"

definition accepts :: "bool \<Rightarrow> connection \<Rightarrow> ChannelId \<Rightarrow> bool" where
  "accepts overflow c ch \<longleftrightarrow> overflow \<or> length (con_queue c ch) < con_capacity c ch"

definition offered :: "bool \<Rightarrow> PointerOffset \<Rightarrow> ChannelId \<Rightarrow> connection \<Rightarrow> connection \<Rightarrow> bool" where
  "offered overflow p ch c c' \<longleftrightarrow>
     con_receiver_port_id c' = con_receiver_port_id c \<and> con_tag c' = con_tag c \<and>
     con_queue c' ch = (if length (con_queue c ch) < con_capacity c ch then con_queue c ch @ [p]
       else if overflow then tl (con_queue c ch) @ [p] else con_queue c ch) \<and>
     con_capacity c' ch = con_capacity c ch \<and>
     (\<forall>ch'. ch' \<noteq> ch \<longrightarrow> mgmt_channels (con_sender c') ! ch' = mgmt_channels (con_sender c) ! ch')"

lemma con_capacity_pos:
  assumes inv: "snd_inv l s cnt b d held" and con: "con_inv l s c cnt' b' d'" and ch: "ch < length (mgmt_channels (con_sender c))"
  shows "0 < oq_capacity (ch_submission_queue (mgmt_channels (con_sender c) ! ch))"
  using con created_withD(1) [OF _ ch] connection_builder_simps(4) [OF snd_invD(3,2,4) [OF inv]]
  by (auto simp: con_inv_def run_inv_def)

lemma snd_deliver_impl_cases:
  assumes inv: "snd_inv l s cnt b d held" and i: "i < length (snd_connections s)" "d i"
    and ch: "ch < snd_number_of_channels s" and p: "p \<in># held"
    and fresh: "\<forall>c. snd_connections s ! i = Some c \<longrightarrow> p \<notin> set (in_flight (mgmt_channels (con_sender c) ! ch) (b i ch))"
    and few: "size held + length (snd_connections s) * snd_number_of_channels s + 1 < 2 ^ 64"
  obtains
    (unconnected) "snd_connections s ! i = None"
      "snd_deliver_offset_to_connection_impl env s p (lsize l) ch i = Some (Delivered (Inr 0), s)"
  | (full) c where "snd_connections s ! i = Some c" "\<not> accepts (snd_enable_safe_overflow s) c ch"
      "snd_deliver_offset_to_connection_impl env s p (lsize l) ch i =
         Some (case snd_unable_to_deliver_strategy s of Block \<Rightarrow> Blocked | DiscardSample \<Rightarrow> Delivered (Inr 0), s)"
  | (sent) c c' s' where "snd_connections s ! i = Some c" "accepts (snd_enable_safe_overflow s) c ch"
      "snd_deliver_offset_to_connection_impl env s p (lsize l) ch i = Some (Delivered (Inr 1), s')"
      "offered (snd_enable_safe_overflow s) p ch c c'" "snd_connections s' = (snd_connections s)[i := Some c']"
      "snd_inv l s' cnt b (d(i := False)) held" "snd_fixed s s'" "set_mset (snd_flight s' b) \<subseteq> insert p (set_mset (snd_flight s b))"
proof (cases "snd_connections s ! i")
  case None
  with i(1) show ?thesis by (intro unconnected) (simp_all add: snd_deliver_offset_to_connection_impl_def slice_get_def)
next
  case (Some c)
  let ?m = "con_sender c"
  note con = snd_invD(5) [OF inv i(1) Some]
  note D = con_invD [OF inv con]
  have ch': "ch < length (mgmt_channels ?m)" using D(1) ch by simp
  have valid: "valid_offset (chunk_size l) (unat (mgmt_number_of_segments ?m)) (mgmt_number_of_samples_per_segment ?m) p"
    using held_chunks [OF inv p] D(2,3) by (simp add: chunks_def)
  have q: "overflow_queue_inv (ch_submission_queue (mgmt_channels ?m ! ch))"
    using zcc_invD(1) [OF D(4) ch'] by (simp add: channel_inv_def)
  note is_full = overflow_queue_is_full_content [OF q]
  from D(4) ch' valid fresh [rule_format, OF Some] show ?thesis
  proof (cases rule: zcc_try_send_cases [where dbg = "env_debug env"])
    case full
    have same: "snd_put_management s i c ?m = s"
      using Some list_update_id [of "snd_connections s" i] by (simp add: snd_put_management_def snd_put_connection_def)
    have "snd_deliver_offset_to_connection_impl env s p (lsize l) ch i =
        Some (case snd_unable_to_deliver_strategy s of Block \<Rightarrow> Blocked | DiscardSample \<Rightarrow> Delivered (Inr 0), s)"
      using Some i(1) full is_full ch' same
      by (cases "snd_unable_to_deliver_strategy s")
        (simp_all add: snd_deliver_offset_to_connection_impl_def slice_get_def zcc_blocking_send_poll_def)
    moreover have "\<not> accepts (snd_enable_safe_overflow s) c ch"
      using full D(5) by (simp add: accepts_def con_queue_def con_capacity_def)
    ultimately show ?thesis using Some by (intro that(2))
  next
    case (sent r m')
    note len = oq.content_bound [OF q]
    have acc: "accepts (snd_enable_safe_overflow s) c ch"
    proof (rule ccontr)
      assume "\<not> accepts (snd_enable_safe_overflow s) c ch"
      then have "\<not> mgmt_enable_safe_overflow ?m \<and> overflow_queue_is_full (ch_submission_queue (mgmt_channels ?m ! ch))"
        using D(5) is_full len by (simp add: accepts_def con_queue_def con_capacity_def)
      with sent(1) ch' show False by (simp add: zcc_try_send_def)
    qed
    obtain ref s2 s' where s': "snd_borrow_sample env (snd_put_management s i c m') p = Some (ref, s2)"
      "(case r of None \<Rightarrow> Some s2 | Some old \<Rightarrow> snd_release_sample env s2 old) = Some s'"
      "snd_inv l s' cnt b (d(i := False)) held" "snd_fixed s s'"
      "snd_connections s' = (snd_connections s)[i := Some (c\<lparr>con_sender := m'\<rparr>)]"
      "set_mset (snd_flight s' b) \<subseteq> insert p (set_mset (snd_flight s b))"
      by (rule snd_send_one [where r = r and m' = m' and env = env, OF inv i(1) Some i(2) ch p fresh [rule_format, OF Some] few sent(1-3)])
    have poll: "zcc_blocking_send_poll (env_debug env) ?m p (lsize l) ch = Some (Ready (Inr r, m'))"
      using sent(1) acc ch' is_full D(5) len
      by (auto simp: zcc_blocking_send_poll_def accepts_def con_queue_def con_capacity_def)
    have impl: "snd_deliver_offset_to_connection_impl env s p (lsize l) ch i = Some (Delivered (Inr 1), s')"
      using Some i(1) sent(1) poll s'(1,2)
      by (cases "snd_unable_to_deliver_strategy s")
        (simp_all add: snd_deliver_offset_to_connection_impl_def slice_get_def split: option.split_asm)
    have pos: "0 < oq_capacity (ch_submission_queue (mgmt_channels ?m ! ch))" by (rule con_capacity_pos [OF inv con ch'])
    have "offered (snd_enable_safe_overflow s) p ch c (c\<lparr>con_sender := m'\<rparr>)"
      using sent(2,6) acc pos channel_capacity [OF zcc_try_send_settings [OF sent(1)] ch'] zcc_try_send_frame [OF sent(1)]
      by (cases r; cases "submitted (mgmt_channels ?m ! ch)")
        (auto simp: offered_def con_queue_def con_capacity_def accepts_def)
    with Some acc impl s'(3-6) show ?thesis by (intro that(3))
  qed
qed

definition takes :: "sender \<Rightarrow> ChannelId \<Rightarrow> nat \<Rightarrow> bool" where
  "takes s ch i = (case snd_connections s ! i of None \<Rightarrow> False | Some c \<Rightarrow> accepts (snd_enable_safe_overflow s) c ch)"

lemma snd_inv_weaken:
  assumes "snd_inv l s cnt b d held" "\<And>i. d' i \<Longrightarrow> d i"
  shows "snd_inv l s cnt b d' held"
proof -
  have "con_inv l s c cnt1 b1 e'" if "con_inv l s c cnt1 b1 e" "e' \<longrightarrow> e" for c cnt1 b1 e e'
    using that run_inv_weaken [of "chunk_size l" _ "con_sender c" cnt1 b1 "\<lambda>_. e"]
    by (cases e; cases e') (auto simp: con_inv_def)
  with assms show ?thesis unfolding snd_inv_def by blast
qed

lemma offered_refl: "\<not> accepts overflow c ch \<Longrightarrow> offered overflow p ch c c"
  by (simp add: offered_def accepts_def)

lemma snd_deliver_from_ok:
  assumes "snd_inv l s cnt b d held" "snd_unable_to_deliver_strategy s = DiscardSample \<or> snd_enable_safe_overflow s"
    "distinct js" "\<forall>i \<in> set js. i < length (snd_connections s) \<and> d i" "ch < snd_number_of_channels s" "p \<in># held"
    "\<forall>i \<in> set js. \<forall>c. snd_connections s ! i = Some c \<longrightarrow> p \<notin> set (in_flight (mgmt_channels (con_sender c) ! ch) (b i ch))"
    "size held + length (snd_connections s) * snd_number_of_channels s + 1 < 2 ^ 64"
  shows "\<exists>s'. snd_deliver_offset_from env p (lsize l) ch js n s = Some (Delivered (Inr (n + length (filter (takes s ch) js))), s') \<and>
    snd_inv l s' cnt b (\<lambda>i. d i \<and> i \<notin> set js) held \<and> snd_fixed s s' \<and> length (snd_connections s') = length (snd_connections s) \<and>
    (\<forall>j. if j \<in> set js then rel_option (offered (snd_enable_safe_overflow s) p ch) (snd_connections s ! j) (snd_connections s' ! j)
      else snd_connections s' ! j = snd_connections s ! j) \<and>
    set_mset (snd_flight s' b) \<subseteq> insert p (set_mset (snd_flight s b))"
  using assms
proof (induction js arbitrary: s n d)
  case Nil
  then show ?case by auto
next
  case (Cons i js)
  let ?ov = "snd_enable_safe_overflow s"
  have i: "i < length (snd_connections s)" "d i" "i \<notin> set js" using Cons.prems(3,4) by auto
  have unsent: ?case
    if r: "snd_deliver_offset_to_connection_impl env s p (lsize l) ch i = Some (Delivered (Inr 0), s)" "\<not> takes s ch i"
      "rel_option (offered ?ov p ch) (snd_connections s ! i) (snd_connections s ! i)"
  proof -
    from Cons.IH [OF Cons.prems(1,2), of n] Cons.prems
    obtain s' where s': "snd_deliver_offset_from env p (lsize l) ch js n s = Some (Delivered (Inr (n + length (filter (takes s ch) js))), s')"
      "snd_inv l s' cnt b (\<lambda>i. d i \<and> i \<notin> set js) held" "snd_fixed s s'" "length (snd_connections s') = length (snd_connections s)"
      "\<And>j. if j \<in> set js then rel_option (offered ?ov p ch) (snd_connections s ! j) (snd_connections s' ! j)
        else snd_connections s' ! j = snd_connections s ! j"
      "set_mset (snd_flight s' b) \<subseteq> insert p (set_mset (snd_flight s b))" by auto
    have "snd_inv l s' cnt b (\<lambda>j. d j \<and> j \<notin> set (i # js)) held" by (rule snd_inv_weaken [OF s'(2)]) auto
    with r s' i(3) show ?thesis by (intro exI [of _ s']) (auto split: if_split_asm)
  qed
  have fresh: "\<forall>c. snd_connections s ! i = Some c \<longrightarrow> p \<notin> set (in_flight (mgmt_channels (con_sender c) ! ch) (b i ch))"
    using Cons.prems(7) by simp
  from Cons.prems(1) i(1,2) Cons.prems(5,6) fresh Cons.prems(8) show ?case
  proof (cases rule: snd_deliver_impl_cases [where env = env])
    case unconnected
    then show ?thesis by (intro unsent) (simp_all add: takes_def)
  next
    case (full c)
    with Cons.prems(2) have "snd_unable_to_deliver_strategy s = DiscardSample" by (auto simp: accepts_def)
    with full offered_refl [OF full(2)] show ?thesis by (intro unsent) (simp_all add: takes_def)
  next
    case (sent c c' s1)
    note F = snd_fixedD [OF sent(7)]
    have other: "snd_connections s1 ! j = snd_connections s ! j" if "j \<in> set js" for j
      using that i(3) sent(5) by (metis nth_list_update_neq)
    have "\<exists>s'. snd_deliver_offset_from env p (lsize l) ch js (n + 1) s1 =
          Some (Delivered (Inr (n + 1 + length (filter (takes s1 ch) js))), s') \<and>
        snd_inv l s' cnt b (\<lambda>j. (d(i := False)) j \<and> j \<notin> set js) held \<and> snd_fixed s1 s' \<and>
        length (snd_connections s') = length (snd_connections s1) \<and>
        (\<forall>j. if j \<in> set js then rel_option (offered (snd_enable_safe_overflow s1) p ch) (snd_connections s1 ! j) (snd_connections s' ! j)
          else snd_connections s' ! j = snd_connections s1 ! j) \<and>
        set_mset (snd_flight s' b) \<subseteq> insert p (set_mset (snd_flight s1 b))"
      by (rule Cons.IH [OF sent(6)]) (use Cons.prems i other sent(5) in \<open>auto simp: F\<close>)
    then obtain s' where s': "snd_deliver_offset_from env p (lsize l) ch js (n + 1) s1 =
          Some (Delivered (Inr (n + 1 + length (filter (takes s1 ch) js))), s')"
        "snd_inv l s' cnt b (\<lambda>j. (d(i := False)) j \<and> j \<notin> set js) held" "snd_fixed s1 s'"
        "length (snd_connections s') = length (snd_connections s1)"
        "\<And>j. if j \<in> set js then rel_option (offered ?ov p ch) (snd_connections s1 ! j) (snd_connections s' ! j)
          else snd_connections s' ! j = snd_connections s1 ! j"
        "set_mset (snd_flight s' b) \<subseteq> insert p (set_mset (snd_flight s1 b))" unfolding F(11) by blast
    have "filter (takes s1 ch) js = filter (takes s ch) js"
      by (rule filter_cong) (simp_all add: takes_def other F(11) cong: option.case_cong)
    then have "snd_deliver_offset_from env p (lsize l) ch (i # js) n s =
        Some (Delivered (Inr (n + length (filter (takes s ch) (i # js)))), s')"
      using sent(1-3) s'(1) by (simp add: takes_def)
    moreover have "snd_inv l s' cnt b (\<lambda>j. d j \<and> j \<notin> set (i # js)) held" by (rule snd_inv_weaken [OF s'(2)]) auto
    moreover have "if j \<in> set (i # js) then rel_option (offered ?ov p ch) (snd_connections s ! j) (snd_connections s' ! j)
        else snd_connections s' ! j = snd_connections s ! j" for j
      using s'(5) [of j] other [of j] sent(1,4,5) i by (cases "j = i") (auto split: if_split_asm)
    moreover have "set_mset (snd_flight s' b) \<subseteq> insert p (set_mset (snd_flight s b))" using s'(6) sent(8) by auto
    ultimately show ?thesis using snd_fixed_trans [OF sent(7) s'(3)] s'(4) sent(5) by auto
  qed
qed

section \<open>Loaning\<close>

lemma card_chunks:
  assumes "snd_refs l n s H R"
  shows "finite (chunks l n)" "card (chunks l n) = n"
proof -
  from assms obtain m where m: "shm_inv m" "shm_bucket_size m = Some (lsize l)" "spa_number_of_buckets (shm_pool m) = n"
    by (auto simp: snd_refs_def segment_refs_def)
  from m(1) obtain a where a: "shm_allocator m = Some a" "spa_inv a" by (auto simp: shm_inv_def)
  have eq: "chunks l n = spa_offset a ` uis_indices (pa_buckets (spa_allocator a))"
    using shm_offsets_chunks [OF m] a(1) by (simp add: spa_offsets_def)
  then show "finite (chunks l n)" by simp
  show "card (chunks l n) = n"
    using card_image [OF spa_offset_inj [OF a(2)]] m(3) a(1) eq by (simp add: uis_indices_def spa_number_of_buckets_def)
qed

text \<open>The chunks that the connections can hold back once every returned chunk is taken back.\<close>

definition con_limit :: "sender \<Rightarrow> nat" where
  "con_limit s = max 1 (snd_receiver_max_buffer_size s) + max 1 (snd_receiver_max_borrowed_samples s)"

lemma size_flight_le:
  assumes inv: "snd_inv l s cnt b (\<lambda>_. True) held"
  shows "size (snd_flight s b) \<le> length (snd_connections s) * (snd_number_of_channels s * con_limit s)"
proof -
  let ?k = "snd_number_of_channels s"
  have "size (con_flight ?k (snd_connections s ! i) (b i)) \<le> ?k * con_limit s" if i: "i < length (snd_connections s)" for i
  proof (cases "snd_connections s ! i")
    case (Some c)
    note con = snd_invD(5) [OF inv i Some]
    then obtain k where "k \<le> snd_receiver_max_buffer_size s"
      "run_inv (chunk_size l) (connection_builder s k) (con_sender c) (cnt i) (b i) (\<lambda>_. True)" by (auto simp: con_inv_def)
    then have "length (in_flight (mgmt_channels (con_sender c) ! ch) (b i ch)) \<le> con_limit s" if "ch < ?k" for ch
      using that con_invD(1) [OF inv con] connection_builder_simps(4,5) [OF snd_invD(3,2,4) [OF inv], of k]
      by (fastforce simp: run_inv_def flight_bound_def con_limit_def)
    then have "(\<Sum>ch<?k. size (mset (in_flight (mgmt_channels (con_sender c) ! ch) (b i ch)))) \<le> ?k * con_limit s"
      by (intro order_trans [OF sum_bounded_above [where K = "con_limit s"]]) auto
    with Some show ?thesis by (simp add: con_flight_def)
  qed simp
  then have "(\<Sum>i<length (snd_connections s). size (con_flight ?k (snd_connections s ! i) (b i))) \<le>
      length (snd_connections s) * (?k * con_limit s)"
    by (intro order_trans [OF sum_bounded_above [where K = "?k * con_limit s"]]) auto
  then show ?thesis by (simp add: snd_flight_def)
qed

lemma snd_loan_counter_irrelevant [simp]:
  "con_inv l (s\<lparr>snd_loan_counter := k\<rparr>) c cnt' b' d' = con_inv l s c cnt' b' d'"
  "snd_flight (s\<lparr>snd_loan_counter := k\<rparr>) b = snd_flight s b"
  "snd_refs l n (s\<lparr>snd_loan_counter := k\<rparr>) H R = snd_refs l n s H R"
  "snd_inv l (s\<lparr>snd_loan_counter := k\<rparr>) cnt b d held = snd_inv l s cnt b d held"
  by (simp_all add: con_inv_def connection_builder_def snd_flight_def snd_refs_def snd_inv_def)

lemma snd_allocate_cases:
  assumes inv: "snd_inv l s cnt b d held" and l': "lsize l' \<le> lsize l" "lalign l' \<le> lalign l"
  obtains
    (exceeds) s' where "snd_allocate env s l' = Some (Inl ExceedsMaxLoans, s')" "snd_sender_max_borrowed_samples s \<le> snd_loan_counter s"
      "snd_inv l s' cnt b (\<lambda>_. True) held" "snd_fixed s s'" "snd_view s' = snd_view s"
      "set_mset (snd_flight s' b) \<subseteq> set_mset (snd_flight s b)"
  | (exhausted) s' where "snd_allocate env s l' = Some (Inl LoanOutOfMemory, s')" "snd_loan_counter s < snd_sender_max_borrowed_samples s"
      "snd_inv l s' cnt b (\<lambda>_. True) held" "snd_fixed s s'" "snd_view s' = snd_view s"
      "set_mset (held + snd_flight s' b) = chunks l (snd_number_of_samples s)"
  | (loaned) c s' where "snd_allocate env s l' = Some (Inr c, s')" "snd_loan_counter s < snd_sender_max_borrowed_samples s"
      "snd_inv l s' cnt b (\<lambda>_. True) (add_mset (chm_offset c) held)"
      "snd_fixed (s\<lparr>snd_loan_counter := snd_loan_counter s + 1\<rparr>) s'" "snd_view s' = snd_view s"
      "chm_offset c \<notin># held + snd_flight s' b" "chm_size c = lsize l"
      "set_mset (snd_flight s' b) \<subseteq> set_mset (snd_flight s b)"
proof -
  let ?n = "snd_number_of_samples s"
  from inv obtain s1 where s1: "snd_retrieve_returned_samples env s = Some s1" "snd_inv l s1 cnt b (\<lambda>_. True) held" "snd_fixed s s1"
    "snd_view s1 = snd_view s" "set_mset (snd_flight s1 b) \<subseteq> set_mset (snd_flight s b)" by (rule snd_retrieve_ok)
  note F = snd_fixedD [OF s1(3)]
  let ?R = "held + snd_flight s1 b"
  show ?thesis
  proof (cases "snd_sender_max_borrowed_samples s \<le> snd_loan_counter s")
    case True
    with s1 show ?thesis by (intro exceeds [of s1]) (simp_all add: snd_allocate_def F)
  next
    case False
    from snd_invD(1) [OF s1(2)] obtain m st where m: "snd_data_segment s1 = StaticMemory m" "snd_segment_states s1 = [st]"
      "segment_refs l ?n m st (set_mset ?R) ?R" by (auto simp: snd_refs_def F)
    from m(3) l' show ?thesis
    proof (cases rule: segment_allocate [where dbg = "env_debug env"])
      case exhausted
      have "s1\<lparr>snd_data_segment := StaticMemory m\<rparr> = s1" using m(1) by (cases s1) simp
      then have "snd_allocate env s l' = Some (Inl LoanOutOfMemory, s1)"
        using s1(1) m(1) exhausted(1) False by (simp add: snd_allocate_def F ds_allocate_def)
      then show ?thesis using False s1(2-4) exhausted(2) by (intro that(2) [of s1]) simp_all
    next
      case (allocated p m')
      let ?s2 = "s1\<lparr>snd_data_segment := StaticMemory m'\<rparr>" and ?p = "sp_offset p"
      from allocated(5) m(2) have refs: "snd_refs l ?n ?s2 (insert ?p (set_mset ?R)) ?R" by (simp add: snd_refs_def)
      have zero: "count ?R ?p = 0" using allocated(2) by (simp add: not_in_iff [symmetric])
      then have "?p \<in> insert ?p (set_mset ?R)" "count ?R ?p + 1 < 2 ^ 64" by simp_all
      from refs this obtain s3 where s3: "snd_borrow_sample env ?s2 ?p = Some ((of_nat (count ?R ?p), lsize l), s3)"
        "snd_refs l ?n s3 (insert ?p (set_mset ?R)) (add_mset ?p ?R)" "snd_connections s3 = snd_connections ?s2" "snd_fixed ?s2 s3"
        by (rule snd_borrow_ok)
      let ?s' = "s3\<lparr>snd_loan_counter := snd_loan_counter s3 + 1\<rparr>"
      let ?c = "chunk_mut_new (snd_message_type_details s3) p (lsize l)"
      have fixed12: "snd_fixed s1 ?s2" by (simp add: snd_fixed_def)
      have fixed13: "snd_fixed s1 s3" using fixed12 s3(4) by (rule snd_fixed_trans)
      have run: "snd_allocate env s l' = Some (Inr ?c, ?s')"
        using s1(1) m(1) allocated(1) False s3(1) zero by (simp add: snd_allocate_def F ds_allocate_def)
      have fl: "snd_flight ?s' b = snd_flight s1 b" using s3(3) by (simp add: snd_flight_def snd_fixedD [OF fixed13])
      have "snd_inv l s3 cnt b (\<lambda>_. True) (add_mset ?p held)"
        using s1(2) s3(2,3) fl by (simp add: snd_inv_def snd_fixedD [OF fixed13] con_inv_fixed [OF fixed13] F snd_flight_def)
      then have inv': "snd_inv l ?s' cnt b (\<lambda>_. True) (add_mset ?p held)" by simp
      have fixed: "snd_fixed (s\<lparr>snd_loan_counter := snd_loan_counter s + 1\<rparr>) ?s'"
        using snd_fixed_trans [OF s1(3) fixed13] by (cases s; cases s3) (simp add: snd_fixed_def)
      have view: "snd_view ?s' = snd_view s" using s1(4) s3(3) by (simp add: snd_view_def)
      show ?thesis
        by (rule that(3) [OF run _ _ fixed view])
          (use False inv' allocated(2) fl s1(5) in \<open>simp_all add: chunk_mut_new_def\<close>)
    qed
  qed
qed

end
