(* ===== verification/Sender_Connections.thy ===== *)
theory Sender_Connections
  imports Sender_References
begin

text \<open>
  Giving references back, giving up connections and opening new ones: the invariant of
  \<open>Sender_References\<close> for the operations that change which connections a sender has.
\<close>

section \<open>Giving references back\<close>

lemma snd_release_held:
  assumes inv: "snd_inv l s cnt b d (add_mset p held)"
  obtains s' where "snd_release_sample env s p = Some s'" "snd_inv l s' cnt b d held" "snd_fixed s s'"
    "snd_connections s' = snd_connections s"
proof -
  let ?R = "add_mset p held + snd_flight s b"
  obtain s' where s': "snd_release_sample env s p = Some s'"
    "snd_refs l (snd_number_of_samples s) s' (set_mset (?R - {#p#})) (?R - {#p#})"
    "snd_connections s' = snd_connections s" "snd_fixed s s'"
    by (rule snd_release_ok [OF snd_invD(1) [OF inv], of p env]) simp_all
  note F = snd_fixedD [OF s'(4)]
  have "snd_flight s' b = snd_flight s b" using s'(3) by (rule snd_flight_cong) (simp add: F)
  with inv s' have "snd_inv l s' cnt b d held" by (simp add: snd_inv_def con_inv_fixed [OF s'(4)] F)
  with s' show ?thesis by (intro that)
qed

lemma snd_return_loaned:
  assumes inv: "snd_inv l s cnt b d (add_mset p held)" and loans: "0 < snd_loan_counter s" "snd_loan_counter s < 2 ^ 64"
  obtains s' where "snd_return_loaned_sample env s p = Some s'" "snd_inv l s' cnt b d held"
    "snd_fixed (s\<lparr>snd_loan_counter := snd_loan_counter s - 1\<rparr>) s'" "snd_connections s' = snd_connections s"
proof -
  from inv obtain s1 where s1: "snd_release_sample env s p = Some s1" "snd_inv l s1 cnt b d held" "snd_fixed s s1"
    "snd_connections s1 = snd_connections s" by (rule snd_release_held)
  have "snd_loan_counter s1 = snd_loan_counter s" using snd_fixedD(4) [OF s1(3)] .
  moreover have "(snd_loan_counter s + 2 ^ 64 - 1) mod 2 ^ 64 = snd_loan_counter s - 1"
  proof -
    have "snd_loan_counter s + 2 ^ 64 - 1 = (snd_loan_counter s - 1) + 2 ^ 64" using loans(1) by simp
    then show ?thesis using loans(2) by (metis less_imp_diff_less mod_add_self2 mod_less)
  qed
  ultimately have run: "snd_return_loaned_sample env s p = Some (s1\<lparr>snd_loan_counter := snd_loan_counter s - 1\<rparr>)"
    using s1(1) by (simp add: snd_return_loaned_sample_def)
  have "snd_fixed (s\<lparr>snd_loan_counter := snd_loan_counter s - 1\<rparr>) (s1\<lparr>snd_loan_counter := snd_loan_counter s - 1\<rparr>)"
    using s1(3) by (cases s; cases s1) (simp add: snd_fixed_def)
  with run show ?thesis using s1(2,4) by (intro that [OF run]) simp_all
qed

lemma snd_release_all:
  assumes "snd_refs l n s (set_mset (mset xs + R)) (mset xs + R)"
  shows "\<exists>s'. for_each (snd_release_sample env) xs s = Some s' \<and> snd_refs l n s' (set_mset R) R \<and>
    snd_connections s' = snd_connections s \<and> snd_fixed s s'"
  using assms
proof (induction xs arbitrary: s)
  case (Cons x xs)
  obtain s1 where s1: "snd_release_sample env s x = Some s1" "snd_refs l n s1 (set_mset (mset xs + R)) (mset xs + R)"
    "snd_connections s1 = snd_connections s" "snd_fixed s s1"
    by (rule snd_release_ok [OF Cons.prems, of x env]) simp_all
  with Cons.IH [OF s1(2)] snd_fixed_trans [OF s1(4)] show ?case by fastforce
qed simp

section \<open>Giving up a connection\<close>

text \<open>A connection that is given up returns the references of everything it had in flight.\<close>

lemma snd_remove_connection_ok:
  assumes inv: "snd_inv l s cnt b d held" and i: "i < length (snd_connections s)"
  obtains s' where "snd_remove_connection env s i = Some s'" "snd_inv l s' cnt b d held" "snd_fixed s s'"
    "snd_connections s' = (snd_connections s)[i := None]" "set_mset (snd_flight s' b) \<subseteq> set_mset (snd_flight s b)"
proof (cases "snd_connections s ! i")
  case None
  then have "(snd_connections s)[i := None] = snd_connections s" by (metis list_update_id)
  with None i inv show ?thesis by (intro that [of s]) (simp_all add: snd_remove_connection_def slice_get_def)
next
  case (Some c)
  let ?k = "snd_number_of_channels s" and ?n = "snd_number_of_samples s"
  note D = con_invD [OF inv snd_invD(5) [OF inv i Some]]
  from zcc_acquire_all [OF D(4), of "env_debug env"] obtain offsets m' where
    acquire: "zcc_acquire_used_offsets (env_debug env) (con_sender c) = Some (offsets, m')" "mset offsets = con_flight ?k (Some c) (b i)"
    by (auto simp: con_flight_def D(1))
  let ?s1 = "snd_put_management s i c m'"
  let ?s2 = "snd_put_connection s i None"
  have "snd_flight ?s2 b + con_flight ?k (snd_connections s ! i) (b i) = snd_flight s b + con_flight ?k None (b i)"
    by (rule snd_flight_update [OF i]) (simp_all add: snd_fixedD [OF snd_fixed_put_connection])
  with Some acquire(2) have fl: "snd_flight s b = mset offsets + snd_flight ?s2 b" by (metis con_flight_None add_0_right union_commute)
  have "snd_refs l ?n ?s1 (set_mset (mset offsets + (held + snd_flight ?s2 b))) (mset offsets + (held + snd_flight ?s2 b))"
    using snd_invD(1) [OF inv] by (simp add: fl union_commute union_lcomm)
  from snd_release_all [OF this, of env] obtain s' where s': "for_each (snd_release_sample env) offsets ?s1 = Some s'"
    "snd_refs l ?n s' (set_mset (held + snd_flight ?s2 b)) (held + snd_flight ?s2 b)"
    "snd_connections s' = snd_connections ?s1" "snd_fixed ?s1 s'" by blast
  have fixed: "snd_fixed s (snd_put_connection s' i None)"
    using snd_fixed_trans [OF snd_fixed_trans [OF snd_fixed_put_management s'(4)] snd_fixed_put_connection] .
  have cs: "snd_connections (snd_put_connection s' i None) = (snd_connections s)[i := None]" using s'(3) by simp
  have fl': "snd_flight (snd_put_connection s' i None) b = snd_flight ?s2 b"
    by (rule snd_flight_cong) (simp_all add: s'(3) snd_fixedD(1) [OF s'(4)] snd_fixedD(1) [OF snd_fixed_put_connection] snd_fixedD(1) [OF snd_fixed_put_management])
  with fl have sub: "set_mset (snd_flight (snd_put_connection s' i None) b) \<subseteq> set_mset (snd_flight s b)" by simp
  have "snd_inv l (snd_put_connection s' i None) cnt b d held"
    using s'(2) fl' by (intro snd_inv_put [OF inv i fixed cs]) simp_all
  moreover have "snd_remove_connection env s i = Some (snd_put_connection s' i None)"
    using Some i acquire(1) s'(1) by (simp add: snd_remove_connection_def slice_get_def)
  ultimately show ?thesis using fixed cs sub by (intro that)
qed

section \<open>Opening a connection\<close>

text \<open>
  The storage of a connection that nobody has sent on: it is created or cannot be had, or it was
  created by the receiver.
\<close>

definition storage_fresh :: "storage \<Rightarrow> bool" where
  "storage_fresh st = (case st of
      Opened m \<Rightarrow> \<exists>bld x. 0 < bld_number_of_channels bld \<and> m = (mgmt_fresh bld)\<lparr>mgmt_state := x\<rparr>
    | _ \<Rightarrow> True)"

definition env_ok :: "environment \<Rightarrow> bool" where
  "env_ok env \<longleftrightarrow> 0 < lsize (env_channel_layout env) \<and> 0 < lalign (env_channel_layout env) \<and>
     0 < lsize (env_segment_details_layout env) \<and> 0 < lalign (env_segment_details_layout env)"

lemma run_inv_fresh:
  assumes bld: "0 < bld_number_of_channels bld" and same: "bld = bld'\<lparr>bld_initial_channel_state := x\<rparr>"
  shows "run_inv sz bld' ((mgmt_fresh bld)\<lparr>mgmt_state := y\<rparr>) (replicate (bld_number_of_channels bld) 0) (\<lambda>_. []) (\<lambda>_. d)"
proof -
  have "zcc_inv sz ((mgmt_fresh bld)\<lparr>mgmt_state := y\<rparr>) (replicate (bld_number_of_channels bld) 0) (\<lambda>_. [])"
    using zcc_inv_fresh [OF bld, of sz] by (simp add: zcc_inv_def channel_inv_def receiver_borrow_counter_def)
  moreover have "created_with bld' ((mgmt_fresh bld)\<lparr>mgmt_state := y\<rparr>)"
    using created_with_fresh [OF bld, of y] same
    by (simp add: created_with_def submission_queue_size_def completion_queue_size_def)
  ultimately show ?thesis by (simp add: run_inv_def mgmt_fresh_def in_flight_def channel_fresh_def)
qed

lemma create_or_open_fresh:
  assumes bld: "0 < bld_number_of_channels bld" "0 < bld_number_of_segments bld" "0 < bld_number_of_samples_per_segment bld"
    and env: "env_ok env" and st: "storage_fresh st"
  obtains
    (failed) e m' owned where "create_or_open_shm (env_channel_layout env) (env_segment_details_layout env) bld port st = Some (Inl e, m', owned)"
      "\<And>a. st \<noteq> Created a"
  | (connected) m where "create_or_open_shm (env_channel_layout env) (env_segment_details_layout env) bld port st = Some (Inr m, Some m, False)"
      "\<exists>bld' x y. bld' = bld\<lparr>bld_initial_channel_state := x\<rparr> \<and> m = (mgmt_fresh bld')\<lparr>mgmt_state := y\<rparr>"
proof (cases st)
  case (StorageFailed e)
  then have "create_or_open_shm (env_channel_layout env) (env_segment_details_layout env) bld port st = Some (Inl (creation_error e), None, False)"
    by (simp add: create_or_open_shm_def)
  then show ?thesis by (rule failed) (simp add: StorageFailed)
next
  case (Created ptr)
  have "\<exists>bld' x y. bld' = bld\<lparr>bld_initial_channel_state := x\<rparr> \<and> (mgmt_fresh bld)\<lparr>mgmt_state := port\<rparr> = (mgmt_fresh bld')\<lparr>mgmt_state := y\<rparr>"
    by (intro exI [of _ bld] exI [of _ "bld_initial_channel_state bld"] exI [of _ port]) simp
  with Created create_storage_fits [OF bld] env show ?thesis by (intro connected) (auto simp: env_ok_def)
next
  case (Opened m)
  with st obtain bld0 x where m: "0 < bld_number_of_channels bld0" "m = (mgmt_fresh bld0)\<lparr>mgmt_state := x\<rparr>"
    by (auto simp: storage_fresh_def)
  obtain r m1 where r: "reserve_port m port = (r, m1)" by force
  have m1: "\<exists>y. m1 = (mgmt_fresh bld0)\<lparr>mgmt_state := y\<rparr>"
    using r m(2) by (auto simp: reserve_port_def mgmt_fresh_def split: if_split_asm)
  show ?thesis
  proof (cases r)
    case (Inl e)
    with Opened r have "create_or_open_shm (env_channel_layout env) (env_segment_details_layout env) bld port st = Some (Inl e, Some m1, False)"
      by (simp add: create_or_open_shm_def)
    then show ?thesis by (rule failed) (simp add: Opened)
  next
    case (Inr u)
    have "created_with bld0 m1" using m1 created_with_fresh [OF m(1)] by auto
    then obtain i where i: "zcc_check_compatibility bld m1 = Some i"
      "i = None \<longleftrightarrow> bld\<lparr>bld_initial_channel_state := 0\<rparr> = bld0\<lparr>bld_initial_channel_state := 0\<rparr>"
      by (rule zcc_check_created)
    show ?thesis
    proof (cases i)
      case None
      with i have "bld0 = bld\<lparr>bld_initial_channel_state := bld_initial_channel_state bld0\<rparr>" by (cases bld; cases bld0) simp
      with m1 have "\<exists>bld' x y. bld' = bld\<lparr>bld_initial_channel_state := x\<rparr> \<and> m1 = (mgmt_fresh bld')\<lparr>mgmt_state := y\<rparr>" by metis
      with None Opened r Inr i show ?thesis by (intro connected [of m1]) (simp_all add: create_or_open_shm_def)
    next
      case (Some e)
      obtain owned m2 where "cleanup_shared_memory m1 port = (owned, m2)" by force
      with Some Opened r Inr i
      have "create_or_open_shm (env_channel_layout env) (env_segment_details_layout env) bld port st = Some (Inl e, Some m2, owned)"
        by (simp add: create_or_open_shm_def)
      then show ?thesis by (rule failed) (simp add: Opened)
    qed
  qed
qed

lemma connection_new_cases:
  assumes inv: "snd_inv l s cnt b d held" and env: "env_ok env" and st: "storage_fresh st"
  obtains
    (failed) e where "connection_new env st s i k t = Some (Inl e)" "\<And>a. st = Created a \<Longrightarrow> snd_receiver_max_buffer_size s < k"
  | (connected) c where "connection_new env st s i k t = Some (Inr c)" "con_receiver_port_id c = i" "con_tag c = t"
      "\<And>d'. con_inv l s c (replicate (snd_number_of_channels s) 0) (\<lambda>_. []) d'"
      "\<And>ch. ch < snd_number_of_channels s \<Longrightarrow> in_flight (mgmt_channels (con_sender c) ! ch) [] = []"
proof (cases "snd_receiver_max_buffer_size s < k")
  case True
  then show ?thesis by (intro failed) (simp_all add: connection_new_def)
next
  case False
  note B = connection_builder_simps [OF snd_invD(3,2,4) [OF inv], of k]
  have pos: "0 < bld_number_of_channels (connection_builder s k)" "0 < bld_number_of_segments (connection_builder s k)"
    "0 < bld_number_of_samples_per_segment (connection_builder s k)"
    using B snd_invD(2,3) [OF inv] by simp_all
  from pos env st show ?thesis
  proof (cases rule: create_or_open_fresh [where port = STATE_SENDER])
    case (failed e m' owned)
    then have "connection_new env st s i k t = Some (Inl e)" using False by (simp add: connection_new_def)
    from that(1) [OF this] failed(2) show ?thesis by blast
  next
    case (connected m)
    then obtain bld' x y where m: "bld' = (connection_builder s k)\<lparr>bld_initial_channel_state := x\<rparr>" "m = (mgmt_fresh bld')\<lparr>mgmt_state := y\<rparr>"
      by blast
    have n: "0 < bld_number_of_channels bld'" "bld_number_of_channels bld' = snd_number_of_channels s" using m(1) pos(1) B(1) by simp_all
    let ?c = "\<lparr>con_sender = m, con_receiver_port_id = i, con_tag = t\<rparr>"
    have "con_inv l s ?c (replicate (snd_number_of_channels s) 0) (\<lambda>_. []) d'" for d'
      using run_inv_fresh [OF n(1) m(1), of "chunk_size l" y d'] n m(2) False by (simp add: con_inv_def) (metis not_less)
    moreover have "in_flight (mgmt_channels (con_sender ?c) ! ch) [] = []" if "ch < snd_number_of_channels s" for ch
      using that n m by (simp add: mgmt_fresh_def in_flight_def channel_fresh_def)
    ultimately show ?thesis using False connected(1)
      by (intro that(2) [of ?c]) (simp_all add: connection_new_def)
  qed
qed

lemma snd_create_cases:
  assumes inv: "snd_inv l s cnt b d held" and env: "env_ok env" and st: "storage_fresh st"
    and i: "i < length (snd_connections s)" "snd_connections s ! i = None"
  obtains
    (failed) e where "snd_create env st s i r = Some (Inl e, s)" "\<And>a. st = Created a \<Longrightarrow> snd_receiver_max_buffer_size s < rd_buffer_size r"
  | (created) c s' where "snd_create env st s i r = Some (Inr (), s')"
      "con_receiver_port_id c = rd_port_id r" "con_tag c = create_tag (snd_tagger s)"
      "snd_connections s' = (snd_connections s)[i := Some c]" "snd_fixed s s'"
      "snd_inv l s' (cnt(i := replicate (snd_number_of_channels s) 0)) (b(i := \<lambda>_. [])) (d(i := True)) held"
      "snd_flight s' (b(i := \<lambda>_. [])) = snd_flight s b"
      "\<And>ch. ch < snd_number_of_channels s \<Longrightarrow> in_flight (mgmt_channels (con_sender c) ! ch) [] = []"
proof -
  let ?k = "snd_number_of_channels s"
  from inv env st show ?thesis
  proof (cases rule: connection_new_cases [where i = "rd_port_id r" and k = "rd_buffer_size r" and t = "create_tag (snd_tagger s)"])
    case (failed e)
    then show ?thesis by (intro that(1) [of e]) (simp_all add: snd_create_def)
  next
    case (connected c)
    let ?s' = "snd_put_connection s i (Some c)" and ?b = "b(i := \<lambda>_. [])"
    have "snd_flight ?s' ?b + con_flight ?k (snd_connections s ! i) (b i) = snd_flight s b + con_flight ?k (Some c) (?b i)"
      by (rule snd_flight_update [OF i(1)]) (simp_all add: snd_fixedD(1) [OF snd_fixed_put_connection])
    moreover have "con_flight ?k (Some c) (?b i) = {#}" using connected(5) by (simp add: con_flight_def)
    ultimately have fl: "snd_flight ?s' ?b = snd_flight s b" using i(2) by simp
    have "snd_inv l ?s' (cnt(i := replicate ?k 0)) ?b (d(i := True)) held"
      by (rule snd_inv_put [OF inv i(1) snd_fixed_put_connection])
        (use snd_invD(1) [OF inv] fl connected(4) [of True] in auto)
    with connected fl show ?thesis by (intro that(2) [of ?s' c]) (simp_all add: snd_create_def)
  qed
qed

end
