(* ===== verification/Port_Publisher.thy ===== *)
theory Port_Publisher
  imports Sender_Connections Container_Queue
begin

text \<open>
  The publisher (\<^verbatim>\<open>iceoryx2/src/port/publisher.rs\<close>, prefix \<open>pub\<close>) with the samples it loans
  (\<^verbatim>\<open>iceoryx2/src/sample_mut.rs\<close>). It adds to its sender the history that late subscribers get and the
  list of subscribers it connects to. From the outside come: the subscribers that the dynamic
  configuration of the service lists (\<open>None\<close> when the list did not change), the storage of the
  connection to each of them, whether the lock of the shared state can be created, and whether the
  service takes another publisher. The header that is written into a loaned chunk is payload memory
  and not modelled.
\<close>

section \<open>Data\<close>

record OffsetAndSize =
  oas_offset :: u64
  oas_size :: nat

record pubsub_config =
  psc_max_subscribers :: nat
  psc_max_publishers :: nat
  psc_max_nodes :: nat
  psc_history_size :: nat
  psc_subscriber_max_buffer_size :: nat
  psc_subscriber_max_borrowed_samples :: nat
  psc_enable_safe_overflow :: bool
  psc_message_type_details :: message_type_details

definition required_amount_of_samples_per_data_segment :: "pubsub_config \<Rightarrow> nat \<Rightarrow> nat" where
  "required_amount_of_samples_per_data_segment c publisher_max_loaned_data =
     psc_max_subscribers c * (psc_subscriber_max_buffer_size c + psc_subscriber_max_borrowed_samples c)
       + psc_history_size c + publisher_max_loaned_data"

record publisher_config =
  puc_max_loaned_samples :: nat
  puc_unable_to_deliver_strategy :: UnableToDeliverStrategy
  puc_degradation_callback :: "(port_id \<Rightarrow> port_id \<Rightarrow> DegradationAction) option"
  puc_initial_max_slice_len :: nat
  puc_allocation_strategy :: AllocationStrategy

record subscriber_details =
  sub_subscriber_id :: port_id
  sub_buffer_size :: nat

type_synonym subscriber_list = "(nat \<times> subscriber_details) list"

record publisher =
  pub_config :: publisher_config
  pub_sender :: sender
  pub_subscriber_list :: subscriber_list
  pub_history :: "OffsetAndSize meta_queue option"
  pub_is_active :: bool

datatype PublisherCreateError =
  ExceedsMaxSupportedPublishers | UnableToCreateDataSegment | FailedToDeployThreadsafetyPolicy

section \<open>History\<close>

definition pub_add_sample_to_history :: "environment \<Rightarrow> publisher \<Rightarrow> PointerOffset \<Rightarrow> nat \<Rightarrow> publisher option" where
  "pub_add_sample_to_history env p offset sample_size = (case pub_history p of
      None \<Rightarrow> Some p
    | Some history \<Rightarrow> do {
        (_, s1) \<leftarrow> snd_borrow_sample env (pub_sender p) offset;
        (r, h) \<leftarrow> mq_push_with_overflow (env_debug env) history \<lparr>oas_offset = po_as_value offset, oas_size = sample_size\<rparr>;
        s2 \<leftarrow> (case r of None \<Rightarrow> Some s1 | Some old \<Rightarrow> snd_release_sample env s1 (po_from_value (oas_offset old)));
        Some (p\<lparr>pub_sender := s2, pub_history := Some h\<rparr>) })"

definition pub_deliver_old_sample :: "environment \<Rightarrow> OffsetAndSize meta_queue \<Rightarrow> nat \<Rightarrow> sender \<Rightarrow> nat \<Rightarrow> sender option" where
  "pub_deliver_old_sample env history connection_id s i = do {
     old_sample \<leftarrow> mq_get_unchecked (env_debug env) history i;
     s1 \<leftarrow> snd_retrieve_returned_samples env s;
     let offset = po_from_value (oas_offset old_sample);
     c \<leftarrow> slice_get (snd_connections s1) connection_id;
     connection \<leftarrow> c;
     (r, m) \<leftarrow> zcc_try_send (env_debug env) (con_sender connection) offset (oas_size old_sample) 0;
     let s2 = snd_put_management s1 connection_id connection m;
     case r of
       Inr overflow \<Rightarrow> do {
         (_, s3) \<leftarrow> snd_borrow_sample env s2 offset;
         (case overflow of None \<Rightarrow> Some s3 | Some old \<Rightarrow> snd_release_sample env s3 old) }
     | Inl _ \<Rightarrow> Some s2 }"

definition pub_deliver_sample_history ::
  "environment \<Rightarrow> OffsetAndSize meta_queue option \<Rightarrow> sender \<Rightarrow> nat \<Rightarrow> sender option" where
  "pub_deliver_sample_history env history s connection_id = (case history of
      None \<Rightarrow> Some s
    | Some history \<Rightarrow> do {
        c \<leftarrow> slice_get (snd_connections s) connection_id;
        connection \<leftarrow> c;
        buffer_size \<leftarrow> zcc_buffer_size (con_sender connection);
        let history_start = mq_len history - buffer_size;
        for_each (pub_deliver_old_sample env history connection_id) [history_start..<mq_len history] s })"

section \<open>Connections\<close>

definition pub_force_update_connections ::
  "environment \<Rightarrow> (port_id \<Rightarrow> storage) \<Rightarrow> publisher \<Rightarrow> ((ZeroCopyCreationError + unit) \<times> publisher) option" where
  "pub_force_update_connections env storages p = do {
     let s1 = snd_start_update_connection_cycle (pub_sender p);
     (result, s2) \<leftarrow> for_each (\<lambda>(result, s) (index, port). do {
         (inner_result, s') \<leftarrow> snd_update_connection env (storages (sub_subscriber_id port)) s index
           \<lparr>rd_port_id = sub_subscriber_id port, rd_buffer_size = sub_buffer_size port\<rparr>
           (pub_deliver_sample_history env (pub_history p));
         Some (case result of Inr _ \<Rightarrow> inner_result | Inl e \<Rightarrow> Inl e, s') })
       (pub_subscriber_list p) (Inr (), s1);
     s3 \<leftarrow> snd_finish_update_connection_cycle env s2;
     Some (result, p\<lparr>pub_sender := s3\<rparr>) }"

definition pub_update_connections ::
  "environment \<Rightarrow> (port_id \<Rightarrow> storage) \<Rightarrow> subscriber_list option \<Rightarrow> publisher \<Rightarrow> ((ZeroCopyCreationError + unit) \<times> publisher) option" where
  "pub_update_connections env storages update p = (case update of
      Some subscribers \<Rightarrow> pub_force_update_connections env storages (p\<lparr>pub_subscriber_list := subscribers\<rparr>)
    | None \<Rightarrow> Some (Inr (), p))"

section \<open>Sending\<close>

definition pub_send_sample ::
  "environment \<Rightarrow> (port_id \<Rightarrow> storage) \<Rightarrow> subscriber_list option \<Rightarrow> publisher \<Rightarrow> PointerOffset \<Rightarrow> nat \<Rightarrow> (delivery \<times> publisher) option" where
  "pub_send_sample env storages update p offset sample_size =
     (if \<not> pub_is_active p then Some (Delivered (Inl ConnectionBrokenSinceSenderNoLongerExists), p)
      else do {
        (r, p1) \<leftarrow> pub_update_connections env storages update p;
        case r of
          Inl e \<Rightarrow> Some (Delivered (Inl (SendConnectionError e)), p1)
        | Inr _ \<Rightarrow> do {
            p2 \<leftarrow> pub_add_sample_to_history env p1 offset sample_size;
            (d, s) \<leftarrow> snd_deliver_offset env (pub_sender p2) offset sample_size 0;
            Some (d, p2\<lparr>pub_sender := s\<rparr>) } })"

definition sample_mut_drop :: "environment \<Rightarrow> publisher \<Rightarrow> PointerOffset \<Rightarrow> publisher option" where
  "sample_mut_drop env p offset_to_chunk = do {
     s \<leftarrow> snd_return_loaned_sample env (pub_sender p) offset_to_chunk;
     Some (p\<lparr>pub_sender := s\<rparr>) }"

text \<open>\<open>send\<close> takes the sample, which is dropped when the delivery returns.\<close>

definition sample_mut_send ::
  "environment \<Rightarrow> (port_id \<Rightarrow> storage) \<Rightarrow> subscriber_list option \<Rightarrow> publisher \<Rightarrow> PointerOffset \<Rightarrow> nat \<Rightarrow> (delivery \<times> publisher) option" where
  "sample_mut_send env storages update p offset_to_chunk sample_size = do {
     (d, p1) \<leftarrow> pub_send_sample env storages update p offset_to_chunk sample_size;
     case d of
       Blocked \<Rightarrow> Some (Blocked, p1)
     | Delivered r \<Rightarrow> do { p2 \<leftarrow> sample_mut_drop env p1 offset_to_chunk; Some (Delivered r, p2) } }"

section \<open>Loans\<close>

definition pub_loan_uninit :: "environment \<Rightarrow> publisher \<Rightarrow> ((LoanError + chunk_mut) \<times> publisher) option" where
  "pub_loan_uninit env p = do {
     (r, s) \<leftarrow> snd_allocate env (pub_sender p) (snd_sample_layout (pub_sender p) 1);
     Some (r, p\<lparr>pub_sender := s\<rparr>) }"

text \<open>The result carries the number of elements of the slice that the sample shows.\<close>

definition pub_loan_slice_uninit_impl ::
  "environment \<Rightarrow> publisher \<Rightarrow> nat \<Rightarrow> nat \<Rightarrow> ((LoanError + chunk_mut \<times> nat) \<times> publisher) option" where
  "pub_loan_slice_uninit_impl env p slice_len underlying_number_of_slice_elements =
     (let max_slice_len = puc_initial_max_slice_len (pub_config p) in
      if puc_allocation_strategy (pub_config p) = Static \<and> max_slice_len < slice_len
      then Some (Inl ExceedsMaxLoanSize, p)
      else do {
        (r, s) \<leftarrow> snd_allocate env (pub_sender p) (snd_sample_layout (pub_sender p) slice_len);
        Some (case r of Inl e \<Rightarrow> Inl e | Inr chunk \<Rightarrow> Inr (chunk, underlying_number_of_slice_elements), p\<lparr>pub_sender := s\<rparr>) })"

definition pub_loan_slice_uninit :: "environment \<Rightarrow> publisher \<Rightarrow> nat \<Rightarrow> ((LoanError + chunk_mut \<times> nat) \<times> publisher) option" where
  "pub_loan_slice_uninit env p slice_len = pub_loan_slice_uninit_impl env p slice_len slice_len"

definition pub_loan_custom_payload :: "environment \<Rightarrow> publisher \<Rightarrow> nat \<Rightarrow> ((LoanError + chunk_mut \<times> nat) \<times> publisher) option" where
  "pub_loan_custom_payload env p slice_len = do {
     _ \<leftarrow> debug_assert (env_debug env) (slice_len = 1 \<or> snd_payload_type_variant (pub_sender p) = DynamicSize);
     pub_loan_slice_uninit_impl env p slice_len (snd_payload_size (pub_sender p) * slice_len) }"

definition pub_send_copy ::
  "environment \<Rightarrow> (port_id \<Rightarrow> storage) \<Rightarrow> subscriber_list option \<Rightarrow> publisher \<Rightarrow> (delivery \<times> publisher) option" where
  "pub_send_copy env storages update p = do {
     (r, p1) \<leftarrow> pub_loan_uninit env p;
     case r of
       Inl e \<Rightarrow> Some (Delivered (Inl (SendLoanError e)), p1)
     | Inr sample \<Rightarrow> sample_mut_send env storages update p1 (chm_offset sample) (chm_size sample) }"

section \<open>Creation\<close>

definition pub_new_sender :: "pubsub_config \<Rightarrow> publisher_config \<Rightarrow> port_id \<Rightarrow> nat \<Rightarrow> data_segment \<Rightarrow> sender" where
  "pub_new_sender static_config config port_id subscriber_capacity data_segment =
     (let number_of_samples = required_amount_of_samples_per_data_segment static_config (puc_max_loaned_samples config);
          max_number_of_segments = ds_max_number_of_segments (new_from_allocation_strategy (puc_allocation_strategy config))
      in \<lparr>snd_segment_states = replicate (unat max_number_of_segments) (ss_new number_of_samples),
          snd_data_segment = data_segment, snd_connections = replicate subscriber_capacity None,
          snd_sender_port_id = port_id,
          snd_receiver_max_buffer_size = psc_subscriber_max_buffer_size static_config,
          snd_receiver_max_borrowed_samples = psc_subscriber_max_borrowed_samples static_config,
          snd_sender_max_borrowed_samples = puc_max_loaned_samples config,
          snd_enable_safe_overflow = psc_enable_safe_overflow static_config,
          snd_number_of_samples = number_of_samples, snd_max_number_of_segments = max_number_of_segments,
          snd_degradation_callback = None, snd_tagger = tagger_new, snd_loan_counter = 0,
          snd_unable_to_deliver_strategy = puc_unable_to_deliver_strategy config,
          snd_message_type_details = psc_message_type_details static_config, snd_number_of_channels = 1\<rparr>)"

definition pub_create_segment ::
  "environment \<Rightarrow> (nat \<Rightarrow> DynamicStorageCreateError + (nat \<times> nat)) \<Rightarrow> pubsub_config \<Rightarrow> publisher_config \<Rightarrow>
   (SharedMemoryCreateError + data_segment) option" where
  "pub_create_segment env create_mgmt static_config config =
     (let number_of_samples = required_amount_of_samples_per_data_segment static_config (puc_max_loaned_samples config);
          l = sample_layout (psc_message_type_details static_config) (puc_initial_max_slice_len config)
      in case new_from_allocation_strategy (puc_allocation_strategy config) of
           StaticSegment \<Rightarrow> ds_create_static_segment env l number_of_samples
         | DynamicSegments \<Rightarrow> ds_create_dynamic_segment env create_mgmt l number_of_samples (puc_allocation_strategy config))"

definition pub_new ::
  "environment \<Rightarrow> (nat \<Rightarrow> DynamicStorageCreateError + (nat \<times> nat)) \<Rightarrow> (port_id \<Rightarrow> storage) \<Rightarrow> subscriber_list \<Rightarrow> nat \<Rightarrow>
   bool \<Rightarrow> bool \<Rightarrow> port_id \<Rightarrow> pubsub_config \<Rightarrow> publisher_config \<Rightarrow> (PublisherCreateError + publisher) option" where
  "pub_new env create_mgmt storages subscribers subscriber_capacity policy_deployed registered port_id static_config config = do {
     segment \<leftarrow> pub_create_segment env create_mgmt static_config config;
     case segment of
       Inl _ \<Rightarrow> Some (Inl UnableToCreateDataSegment)
     | Inr data_segment \<Rightarrow>
         (if \<not> policy_deployed then Some (Inl FailedToDeployThreadsafetyPolicy)
          else do {
            (_, p) \<leftarrow> pub_force_update_connections env storages
              \<lparr>pub_config = config,
               pub_sender = pub_new_sender static_config config port_id subscriber_capacity data_segment,
               pub_subscriber_list = subscribers,
               pub_history = (if psc_history_size static_config = 0 then None else Some (mq_new (psc_history_size static_config))),
               pub_is_active = True\<rparr>;
            Some (if registered then Inr p else Inl ExceedsMaxSupportedPublishers) }) }"

definition pub_drop :: "publisher \<Rightarrow> publisher" where
  "pub_drop p = p\<lparr>pub_is_active := False\<rparr>"

end
