(* ===== verification/Publish_Subscribe.thy ===== *)
theory Publish_Subscribe
  imports Port_Publisher
begin

text \<open>
  A publisher with a static data segment that updates its connections: the history a new subscriber gets,
  and the connections after an update with any list of subscribers.
\<close>

section \<open>History for a new subscriber\<close>

lemma view_nth:
  assumes "snd_view s' = snd_view s" "snd_connections s ! i = Some c" "i < length (snd_connections s)"
  obtains c' where "snd_connections s' ! i = Some c'" "con_view c' = con_view c"
proof -
  from assms(1,3) have "map_option con_view (snd_connections s' ! i) = map_option con_view (snd_connections s ! i)"
    using snd_view_length [OF assms(1)] by (metis nth_map snd_view_def)
  with assms(2) that show ?thesis by auto
qed

lemma con_viewD:
  assumes "con_view c' = con_view c" "ch < length (mgmt_channels (con_sender c))"
  shows "con_receiver_port_id c' = con_receiver_port_id c" "con_tag c' = con_tag c"
    "con_queue c' ch = con_queue c ch" "con_capacity c' ch = con_capacity c ch"
proof -
  from assms(1) have m: "map channel_view (mgmt_channels (con_sender c')) = map channel_view (mgmt_channels (con_sender c))"
    and "con_receiver_port_id c' = con_receiver_port_id c" "con_tag c' = con_tag c" by (simp_all add: con_view_def)
  then show "con_receiver_port_id c' = con_receiver_port_id c" "con_tag c' = con_tag c" by simp_all
  have "channel_view (mgmt_channels (con_sender c') ! ch) = channel_view (mgmt_channels (con_sender c) ! ch)"
    using m assms(2) by (metis length_map nth_map)
  then show "con_queue c' ch = con_queue c ch" "con_capacity c' ch = con_capacity c ch"
    by (simp_all add: channel_view_def con_queue_def con_capacity_def)
qed

text \<open>What the history of a publisher needs to be delivered.\<close>

definition history_offsets :: "OffsetAndSize meta_queue \<Rightarrow> PointerOffset list" where
  "history_offsets q = map (\<lambda>e. po_from_value (oas_offset e)) (mq_content q)"

definition history_ok :: "layout \<Rightarrow> PointerOffset multiset \<Rightarrow> OffsetAndSize meta_queue \<Rightarrow> bool" where
  "history_ok l held q \<longleftrightarrow> mq_inv q \<and> 0 < mq_capacity q \<and> (\<forall>e \<in> set (mq_content q). oas_size e = lsize l) \<and>
     distinct (history_offsets q) \<and> set (history_offsets q) \<subseteq> set_mset held"

lemma history_okD:
  assumes "history_ok l held q" "j < mq_len q"
  shows "length (history_offsets q) = mq_len q"
    "\<exists>e. mq_get_unchecked dbg q j = Some e \<and> po_from_value (oas_offset e) = history_offsets q ! j \<and> oas_size e = lsize l"
    "history_offsets q ! j \<in># held"
proof -
  from assms have inv: "mq_inv q" "mq_len q \<le> mq_start q" by (simp_all add: history_ok_def mq_inv_def)
  then have len: "length (mq_content q) = mq_len q" by simp
  then show l: "length (history_offsets q) = mq_len q" by (simp add: history_offsets_def)
  have "mq_get_unchecked dbg q j = Some (mq_content q ! j)"
    using mq_get_content [OF inv(1) assms(2), of dbg] assms(2) by (simp add: mq_get_def)
  with assms len show "\<exists>e. mq_get_unchecked dbg q j = Some e \<and> po_from_value (oas_offset e) = history_offsets q ! j \<and> oas_size e = lsize l"
    by (simp add: history_ok_def history_offsets_def)
  show "history_offsets q ! j \<in># held" using assms l by (auto simp: history_ok_def)
qed

lemma pub_deliver_old_ok:
  assumes inv: "snd_inv l s cnt b d held" and one: "snd_number_of_channels s = 1"
    and i: "i < length (snd_connections s)" "snd_connections s ! i = Some c" "b i = (\<lambda>_. [])"
    and hist: "history_ok l held q" "j < mq_len q" and p: "p = history_offsets q ! j"
    and room: "length (con_queue c 0) < con_capacity c 0" "p \<notin> set (con_queue c 0)"
    and few: "size held + length (snd_connections s) + 1 < 2 ^ 64"
  obtains s' c' where "pub_deliver_old_sample env q i s j = Some s'" "snd_inv l s' cnt b (\<lambda>_. False) held" "snd_fixed s s'"
    "length (snd_connections s') = length (snd_connections s)"
    "snd_connections s' ! i = Some c'" "con_queue c' 0 = con_queue c 0 @ [p]" "con_capacity c' 0 = con_capacity c 0"
    "con_receiver_port_id c' = con_receiver_port_id c" "con_tag c' = con_tag c"
    "\<And>k. k \<noteq> i \<Longrightarrow> snd_view s' ! k = snd_view s ! k"
    "set_mset (snd_flight s' b) \<subseteq> insert p (set_mset (snd_flight s b))"
proof -
  from inv obtain s1 where s1: "snd_retrieve_returned_samples env s = Some s1" "snd_inv l s1 cnt b (\<lambda>_. True) held" "snd_fixed s s1"
    "snd_view s1 = snd_view s" "\<forall>i < length (snd_connections s). \<forall>ch < snd_number_of_channels s. drained s1 i ch"
    "set_mset (snd_flight s1 b) \<subseteq> set_mset (snd_flight s b)" by (rule snd_retrieve_ok)
  note F = snd_fixedD [OF s1(3)]
  have len1: "length (snd_connections s1) = length (snd_connections s)" using s1(4) by (rule snd_view_length)
  from s1(4) i(2,1) obtain c1 where c1: "snd_connections s1 ! i = Some c1" "con_view c1 = con_view c" by (rule view_nth)
  have i1: "i < length (snd_connections s1)" using i(1) len1 by simp
  note con1 = snd_invD(5) [OF s1(2) i1 c1(1)] and con = snd_invD(5) [OF inv i(1,2)]
  have ch: "0 < length (mgmt_channels (con_sender c))" "0 < length (mgmt_channels (con_sender c1))"
    using con_invD(1) [OF inv con] con_invD(1) [OF s1(2) con1] one F(1) by simp_all
  note V = con_viewD [OF c1(2) ch(1)]
  have "completed (mgmt_channels (con_sender c1) ! 0) = []" using s1(5) i(1) one c1(1) by (simp add: drained_def)
  then have fl: "in_flight (mgmt_channels (con_sender c1) ! 0) (b i 0) = con_queue c1 0"
    using i(3) by (simp add: in_flight_def con_queue_def)
  obtain e where e: "mq_get_unchecked (env_debug env) q j = Some e" "po_from_value (oas_offset e) = p" "oas_size e = lsize l"
    using history_okD(2) [OF hist] p by blast
  have held: "p \<in># held" using history_okD(3) [OF hist] p by simp
  have fresh: "p \<notin> set (in_flight (mgmt_channels (con_sender c1) ! 0) (b i 0))" using fl V(3) room(2) by simp
  note D = con_invD [OF s1(2) con1]
  have valid: "valid_offset (chunk_size l) (unat (mgmt_number_of_segments (con_sender c1)))
      (mgmt_number_of_samples_per_segment (con_sender c1)) p"
    using held_chunks [OF s1(2) held] D(2,3) by (simp add: chunks_def)
  from D(4) ch(2) valid fresh show ?thesis
  proof (cases rule: zcc_try_send_cases [where dbg = "env_debug env"])
    case full
    with room(1) V(3,4) show ?thesis by (simp add: con_queue_def con_capacity_def)
  next
    case (sent r m')
    then have r: "r = None" using room(1) V(3,4) by (simp add: con_queue_def con_capacity_def)
    have few1: "size held + length (snd_connections s1) * snd_number_of_channels s1 + 1 < 2 ^ 64"
      using few len1 one F(1) by simp
    have ch0: "0 < snd_number_of_channels s1" using one F(1) by simp
    obtain ref s2 s' where s': "snd_borrow_sample env (snd_put_management s1 i c1 m') p = Some (ref, s2)"
      "(case r of None \<Rightarrow> Some s2 | Some old \<Rightarrow> snd_release_sample env s2 old) = Some s'"
      "snd_inv l s' cnt b ((\<lambda>_. True)(i := False)) held" "snd_fixed s1 s'"
      "snd_connections s' = (snd_connections s1)[i := Some (c1\<lparr>con_sender := m'\<rparr>)]"
      "set_mset (snd_flight s' b) \<subseteq> insert p (set_mset (snd_flight s1 b))"
      by (rule snd_send_one [where r = r and m' = m' and env = env, OF s1(2) i1 c1(1) TrueI ch0 held fresh few1 sent(1-3)])
    have run: "pub_deliver_old_sample env q i s j = Some s'"
      using e s1(1) i1 c1(1) sent(1) s'(1,2) by (simp add: pub_deliver_old_sample_def slice_get_def)
    have inv': "snd_inv l s' cnt b (\<lambda>_. False) held" by (rule snd_inv_weaken [OF s'(3)]) simp
    have queue: "con_queue (c1\<lparr>con_sender := m'\<rparr>) 0 = con_queue c 0 @ [p]"
      using sent(2) r V(3) by (simp add: con_queue_def)
    have cap: "con_capacity (c1\<lparr>con_sender := m'\<rparr>) 0 = con_capacity c 0"
      using channel_capacity [OF zcc_try_send_settings [OF sent(1)] ch(2)] V(4) by (simp add: con_capacity_def)
    have other: "snd_view s' ! k = snd_view s ! k" if "k \<noteq> i" for k
      using that s'(5) s1(4) by (metis map_update nth_list_update_neq snd_view_def)
    show ?thesis
      by (rule that [OF run inv' snd_fixed_trans [OF s1(3) s'(4)] _ _ queue cap _ _ other])
        (use s'(5,6) len1 i1 V(1,2) s1(6) in auto)
  qed
qed

lemma pub_deliver_history_ok:
  assumes inv: "snd_inv l s cnt b d held" and one: "snd_number_of_channels s = 1"
    and i: "i < length (snd_connections s)" "snd_connections s ! i = Some c" "b i = (\<lambda>_. [])" "con_queue c 0 = []"
    and hist: "history_ok l held q" and few: "size held + length (snd_connections s) + 1 < 2 ^ 64"
  obtains s' c' where "pub_deliver_sample_history env (Some q) s i = Some s'" "snd_inv l s' cnt b (\<lambda>_. False) held" "snd_fixed s s'"
    "length (snd_connections s') = length (snd_connections s)"
    "snd_connections s' ! i = Some c'" "con_queue c' 0 = drop (mq_len q - con_capacity c 0) (history_offsets q)"
    "con_receiver_port_id c' = con_receiver_port_id c" "con_tag c' = con_tag c"
    "\<And>k. k \<noteq> i \<Longrightarrow> snd_view s' ! k = snd_view s ! k"
    "set_mset (snd_flight s' b) \<subseteq> set (history_offsets q) \<union> set_mset (snd_flight s b)"
    "con_capacity c' 0 = con_capacity c 0"
proof -
  let ?start = "mq_len q - con_capacity c 0"
  let ?js = "[?start..<mq_len q]" and ?offs = "history_offsets q"
  have len: "length ?offs = mq_len q" using hist by (simp add: history_ok_def mq_inv_def history_offsets_def)
  let ?I = "\<lambda>visited t. snd_inv l t cnt b (\<lambda>_. False) held \<and> snd_fixed s t \<and>
    length (snd_connections t) = length (snd_connections s) \<and>
    (\<exists>c'. snd_connections t ! i = Some c' \<and> con_queue c' 0 = map (\<lambda>j. ?offs ! j) visited \<and> con_capacity c' 0 = con_capacity c 0 \<and>
      con_receiver_port_id c' = con_receiver_port_id c \<and> con_tag c' = con_tag c) \<and>
    (\<forall>k. k \<noteq> i \<longrightarrow> snd_view t ! k = snd_view s ! k) \<and> set_mset (snd_flight t b) \<subseteq> set ?offs \<union> set_mset (snd_flight s b)"
  have start: "?I [] s" using i snd_inv_weaken [OF inv, of "\<lambda>_. False"] by auto
  have step: "\<exists>t'. pub_deliver_old_sample env q i t j = Some t' \<and> ?I (visited @ [j]) t'"
    if js: "?js = visited @ j # rest" and I: "?I visited t" for visited j rest t
  proof -
    from I obtain c' where c': "snd_connections t ! i = Some c'" "con_queue c' 0 = map (\<lambda>j. ?offs ! j) visited"
      "con_capacity c' 0 = con_capacity c 0" "con_receiver_port_id c' = con_receiver_port_id c" "con_tag c' = con_tag c" by blast
    have "j \<in> set ?js" "j \<notin> set visited" "set visited \<subseteq> set ?js"
      using distinct_upt [of ?start "mq_len q"] unfolding js by auto
    then have j: "j < mq_len q" "j \<notin> set visited" "\<forall>k \<in> set visited. k < mq_len q" by auto
    have "length visited < length ?js" unfolding js by simp
    also have "\<dots> \<le> con_capacity c 0" by simp
    finally have room: "length (con_queue c' 0) < con_capacity c' 0" using c'(2,3) by simp
    have fresh: "?offs ! j \<notin> set (con_queue c' 0)"
      using hist j len unfolding c'(2) by (auto simp: history_ok_def nth_eq_iff_index_eq)
    from I have t: "snd_inv l t cnt b (\<lambda>_. False) held" "snd_fixed s t" "length (snd_connections t) = length (snd_connections s)" by auto
    have t': "snd_number_of_channels t = 1" "i < length (snd_connections t)" "size held + length (snd_connections t) + 1 < 2 ^ 64"
      using one snd_fixedD(1) [OF t(2)] t(3) i(1) few by simp_all
    obtain t1 c1 where t1: "pub_deliver_old_sample env q i t j = Some t1" "snd_inv l t1 cnt b (\<lambda>_. False) held" "snd_fixed t t1"
      "length (snd_connections t1) = length (snd_connections t)"
      "snd_connections t1 ! i = Some c1" "con_queue c1 0 = con_queue c' 0 @ [?offs ! j]" "con_capacity c1 0 = con_capacity c' 0"
      "con_receiver_port_id c1 = con_receiver_port_id c'" "con_tag c1 = con_tag c'"
      "\<And>k. k \<noteq> i \<Longrightarrow> snd_view t1 ! k = snd_view t ! k"
      "set_mset (snd_flight t1 b) \<subseteq> insert (?offs ! j) (set_mset (snd_flight t b))"
      by (rule pub_deliver_old_ok [OF t(1) t'(1,2) c'(1) i(3) hist j(1) refl room fresh t'(3), of env]) blast
    have "?offs ! j \<in> set ?offs" using j(1) len by simp
    with t1(11) I have "set_mset (snd_flight t1 b) \<subseteq> set ?offs \<union> set_mset (snd_flight s b)" by blast
    with t1(1-10) I c' snd_fixed_trans [OF t(2) t1(3)] show ?thesis by auto
  qed
  obtain s' where s': "for_each (pub_deliver_old_sample env q i) ?js s = Some s'" "?I ?js s'"
    by (rule for_each_invariant [of ?I s ?js "pub_deliver_old_sample env q i", OF start step]) blast
  then obtain c' where c': "snd_connections s' ! i = Some c'" "con_queue c' 0 = map (\<lambda>j. ?offs ! j) ?js"
    "con_receiver_port_id c' = con_receiver_port_id c" "con_tag c' = con_tag c" "con_capacity c' 0 = con_capacity c 0" by blast
  have "map (\<lambda>j. ?offs ! j) ?js = drop ?start ?offs" by (rule nth_equalityI) (simp_all add: len)
  moreover have "0 < length (mgmt_channels (con_sender c))"
    using con_invD(1) [OF inv snd_invD(5) [OF inv i(1,2)]] one by simp
  then have "zcc_buffer_size (con_sender c) = Some (con_capacity c 0)"
    by (simp add: zcc_buffer_size_def slice_get_def con_capacity_def)
  then have "pub_deliver_sample_history env (Some q) s i = Some s'"
    using i(1,2) s'(1) by (simp add: pub_deliver_sample_history_def slice_get_def)
  ultimately show ?thesis using s'(2) c' by (intro that [of s' c']) simp_all
qed

section \<open>Updating the connections\<close>

lemma snd_inv_cong:
  assumes "snd_inv l s cnt b d held"
    and "\<And>i. i < length (snd_connections s) \<Longrightarrow> snd_connections s ! i \<noteq> None \<Longrightarrow> cnt' i = cnt i \<and> b' i = b i"
  shows "snd_inv l s cnt' b' d held" "snd_flight s b' = snd_flight s b"
proof -
  have "con_flight (snd_number_of_channels s) (snd_connections s ! i) (b' i) = con_flight (snd_number_of_channels s) (snd_connections s ! i) (b i)"
    if "i < length (snd_connections s)" for i
    using assms(2) [OF that] by (cases "snd_connections s ! i") simp_all
  then show fl: "snd_flight s b' = snd_flight s b" by (simp add: snd_flight_def)
  from assms fl show "snd_inv l s cnt' b' d held" unfolding snd_inv_def by fastforce
qed

definition history_deliverable :: "layout \<Rightarrow> PointerOffset multiset \<Rightarrow> OffsetAndSize meta_queue option \<Rightarrow> bool" where
  "history_deliverable l held history \<longleftrightarrow> (\<forall>q. history = Some q \<longrightarrow> history_ok l held q)"

definition history_list :: "OffsetAndSize meta_queue option \<Rightarrow> PointerOffset list" where
  "history_list history = (case history of None \<Rightarrow> [] | Some q \<Rightarrow> history_offsets q)"

lemma snd_retag:
  assumes inv: "snd_inv l s cnt b d held" and i: "i < length (snd_connections s)" "snd_connections s ! i = Some c"
  shows "snd_inv l (snd_put_connection s i (Some (c\<lparr>con_tag := t\<rparr>))) cnt b d held"
    "snd_flight (snd_put_connection s i (Some (c\<lparr>con_tag := t\<rparr>))) b = snd_flight s b"
proof -
  let ?s = "snd_put_connection s i (Some (c\<lparr>con_tag := t\<rparr>))" and ?k = "snd_number_of_channels s"
  have "snd_flight ?s b + con_flight ?k (snd_connections s ! i) (b i) = snd_flight s b + con_flight ?k (Some (c\<lparr>con_tag := t\<rparr>)) (b i)"
    by (rule snd_flight_update [OF i(1)]) (simp_all add: snd_fixedD(1) [OF snd_fixed_put_connection])
  moreover have "con_flight ?k (Some (c\<lparr>con_tag := t\<rparr>)) (b i) = con_flight ?k (Some c) (b i)" by (simp add: con_flight_def)
  ultimately show fl: "snd_flight ?s b = snd_flight s b" using i(2) by simp
  show "snd_inv l ?s cnt b d held"
    by (rule snd_inv_put [OF inv i(1) snd_fixed_put_connection])
      (use snd_invD(1) [OF inv] snd_invD(5) [OF inv i] fl in \<open>auto simp: con_inv_def\<close>)
qed

text \<open>
  One subscriber of the list: its connection is kept, cannot be opened, or is new and starts with
  the last samples of the history that fit its buffer.
\<close>

lemma pub_update_one:
  assumes inv: "snd_inv l s cnt b d held" and one: "snd_number_of_channels s = 1" and i: "i < length (snd_connections s)"
    and env: "env_ok env" and st: "storage_fresh st" and hist: "history_deliverable l held history"
    and few: "size held + length (snd_connections s) + 1 < 2 ^ 64"
  obtains
    (kept) c s' where "snd_update_connection env st s i r (pub_deliver_sample_history env history) = Some (Inr (), s')"
      "snd_connections s ! i = Some c" "con_receiver_port_id c = rd_port_id r"
      "snd_connections s' = (snd_connections s)[i := Some (c\<lparr>con_tag := tag_with (snd_tagger s) (con_tag c)\<rparr>)]"
      "snd_inv l s' cnt b (\<lambda>_. False) held" "snd_fixed s s'" "snd_flight s' b = snd_flight s b"
  | (failed) result s' where "snd_update_connection env st s i r (pub_deliver_sample_history env history) = Some (result, s')"
      "\<forall>c. snd_connections s ! i = Some c \<longrightarrow> con_receiver_port_id c \<noteq> rd_port_id r"
      "snd_connections s' = (snd_connections s)[i := None]"
      "snd_inv l s' cnt b (\<lambda>_. False) held" "snd_fixed s s'" "set_mset (snd_flight s' b) \<subseteq> set_mset (snd_flight s b)"
      "\<And>a. st = Created a \<Longrightarrow> snd_receiver_max_buffer_size s < rd_buffer_size r"
  | (created) c' s' where "snd_update_connection env st s i r (pub_deliver_sample_history env history) = Some (Inr (), s')"
      "\<forall>c. snd_connections s ! i = Some c \<longrightarrow> con_receiver_port_id c \<noteq> rd_port_id r"
      "length (snd_connections s') = length (snd_connections s)" "snd_connections s' ! i = Some c'"
      "con_receiver_port_id c' = rd_port_id r" "con_tag c' = create_tag (snd_tagger s)"
      "con_queue c' 0 = drop (length (history_list history) - con_capacity c' 0) (history_list history)"
      "\<And>k. k \<noteq> i \<Longrightarrow> snd_view s' ! k = snd_view s ! k"
      "snd_inv l s' (cnt(i := [0])) (b(i := \<lambda>_. [])) (\<lambda>_. False) held" "snd_fixed s s'"
      "set_mset (snd_flight s' (b(i := \<lambda>_. []))) \<subseteq> set (history_list history) \<union> set_mset (snd_flight s b)"
proof (cases "\<exists>c. snd_connections s ! i = Some c \<and> con_receiver_port_id c = rd_port_id r")
  case True
  then obtain c where c: "snd_connections s ! i = Some c" "con_receiver_port_id c = rd_port_id r" by blast
  let ?c = "c\<lparr>con_tag := tag_with (snd_tagger s) (con_tag c)\<rparr>"
  have "snd_update_connection env st s i r (pub_deliver_sample_history env history) = Some (Inr (), snd_put_connection s i (Some ?c))"
    using i c by (simp add: snd_update_connection_def slice_get_def)
  from kept [OF this c] show ?thesis
    using snd_retag [OF snd_inv_weaken [OF inv, of "\<lambda>_. False"] i c(1)] by simp
next
  case False
  obtain s1 where s1: "snd_connections s1 = (snd_connections s)[i := None]" "snd_inv l s1 cnt b d held" "snd_fixed s s1"
    "set_mset (snd_flight s1 b) \<subseteq> set_mset (snd_flight s b)"
    "(case snd_connections s ! i of None \<Rightarrow> Some (True, s)
       | Some connection \<Rightarrow> if con_receiver_port_id connection = rd_port_id r
           then Some (False, snd_put_connection s i (Some (connection\<lparr>con_tag := tag_with (snd_tagger s) (con_tag connection)\<rparr>)))
           else map_option (Pair True) (snd_remove_connection env s i)) = Some (True, s1)"
  proof (cases "snd_connections s ! i")
    case None
    then have "(snd_connections s)[i := None] = snd_connections s" by (metis list_update_id)
    with None inv show ?thesis by (intro that [of s]) simp_all
  next
    case (Some c)
    obtain s1 where "snd_remove_connection env s i = Some s1" "snd_inv l s1 cnt b d held" "snd_fixed s s1"
      "snd_connections s1 = (snd_connections s)[i := None]" "set_mset (snd_flight s1 b) \<subseteq> set_mset (snd_flight s b)"
      by (rule snd_remove_connection_ok [OF inv i])
    with Some False show ?thesis by (intro that [of s1]) auto
  qed
  note F = snd_fixedD [OF s1(3)]
  have i1: "i < length (snd_connections s1)" "snd_connections s1 ! i = None" using s1(1) i by simp_all
  from s1(2) env st i1 show ?thesis
  proof (cases rule: snd_create_cases [where r = r])
    case failed: (failed e)
    define result where "result = (case snd_degradation_callback s1 of
        Some f \<Rightarrow> if f (snd_sender_port_id s1) (rd_port_id r) = Fail then Inl e else Inr () | None \<Rightarrow> Inr ())"
    have "snd_update_connection env st s i r (pub_deliver_sample_history env history) = Some (result, s1)"
      using i s1(5) failed by (simp add: snd_update_connection_def slice_get_def result_def)
    then show ?thesis
      using False failed(2) F(9) s1(1,3,4) snd_inv_weaken [OF s1(2), of "\<lambda>_. False"] by (intro that(2)) auto
  next
    case (created c s2)
    note F2 = snd_fixedD [OF created(5)]
    let ?b = "b(i := \<lambda>_. [])" and ?cnt = "cnt(i := replicate (snd_number_of_channels s1) 0)"
    have i2: "i < length (snd_connections s2)" "snd_connections s2 ! i = Some c" using created(4) i1 by simp_all
    have one2: "snd_number_of_channels s2 = 1" using one F(1) F2(1) by simp
    have q: "con_queue c 0 = []" using created(8) [of 0] one F(1) by (simp add: in_flight_def con_queue_def)
    have cnt: "?cnt = cnt(i := [0])" using one F(1) by simp
    show ?thesis
    proof (cases history)
      case None
      have "snd_update_connection env st s i r (pub_deliver_sample_history env history) = Some (Inr (), s2)"
        using i s1(5) created(1) None by (simp add: snd_update_connection_def slice_get_def pub_deliver_sample_history_def)
      moreover have "snd_view s2 ! k = snd_view s ! k" if "k \<noteq> i" for k
        using that created(4) s1(1) by (metis list_update_overwrite map_update nth_list_update_neq snd_view_def)
      ultimately show ?thesis
        using False created s1 i2 q None F(6) snd_inv_weaken [OF created(6), of "\<lambda>_. False"] snd_fixed_trans [OF s1(3) created(5)] cnt
        by (intro that(3) [of s2 c]) (auto simp: history_list_def)
    next
      case (Some hq)
      with hist have ok: "history_ok l held hq" by (simp add: history_deliverable_def)
      have few2: "size held + length (snd_connections s2) + 1 < 2 ^ 64" using few created(4) s1(1) by simp
      have bi: "?b i = (\<lambda>_. [])" by simp
      obtain s' c' where s': "pub_deliver_sample_history env (Some hq) s2 i = Some s'" "snd_inv l s' ?cnt ?b (\<lambda>_. False) held"
        "snd_fixed s2 s'" "length (snd_connections s') = length (snd_connections s2)" "snd_connections s' ! i = Some c'"
        "con_queue c' 0 = drop (mq_len hq - con_capacity c 0) (history_offsets hq)"
        "con_receiver_port_id c' = con_receiver_port_id c" "con_tag c' = con_tag c" "\<And>k. k \<noteq> i \<Longrightarrow> snd_view s' ! k = snd_view s2 ! k"
        "set_mset (snd_flight s' ?b) \<subseteq> set (history_offsets hq) \<union> set_mset (snd_flight s2 ?b)" "con_capacity c' 0 = con_capacity c 0"
        by (rule pub_deliver_history_ok [OF created(6) one2 i2 bi q ok few2, of env]) blast
      have "snd_update_connection env st s i r (pub_deliver_sample_history env history) = Some (Inr (), s')"
        using i s1(5) created(1) Some s'(1) by (simp add: snd_update_connection_def slice_get_def)
      moreover have "snd_view s' ! k = snd_view s ! k" if "k \<noteq> i" for k
        using s'(9) [OF that] that created(4) s1(1) by (metis list_update_overwrite map_update nth_list_update_neq snd_view_def)
      moreover have "length (history_offsets hq) = mq_len hq"
        using ok by (simp add: history_ok_def mq_inv_def history_offsets_def)
      moreover have "set_mset (snd_flight s' ?b) \<subseteq> set (history_offsets hq) \<union> set_mset (snd_flight s b)"
        using s'(10) created(7) s1(4) by auto
      ultimately show ?thesis
        using False created(2-4) s1(1) s' Some F(6) snd_fixed_trans [OF snd_fixed_trans [OF s1(3) created(5)] s'(3)] cnt
        by (intro that(3) [of s' c']) (auto simp: history_list_def)
    qed
  qed
qed

lemma snd_finish_ok:
  assumes inv: "snd_inv l s cnt b d held"
  obtains s' where "snd_finish_update_connection_cycle env s = Some s'" "snd_inv l s' cnt b d held" "snd_fixed s s'"
    "length (snd_connections s') = length (snd_connections s)"
    "\<forall>n < length (snd_connections s). snd_connections s' ! n = (case snd_connections s ! n of None \<Rightarrow> None
       | Some c \<Rightarrow> if was_tagged_by (con_tag c) (snd_tagger s) then Some c else None)"
    "set_mset (snd_flight s' b) \<subseteq> set_mset (snd_flight s b)"
proof -
  let ?ns = "[0..<length (snd_connections s)]"
  let ?keep = "\<lambda>n. case snd_connections s ! n of None \<Rightarrow> None | Some c \<Rightarrow> if was_tagged_by (con_tag c) (snd_tagger s) then Some c else None"
  let ?f = "\<lambda>s1 n. do {
         c \<leftarrow> slice_get (snd_connections s1) n;
         case c of
           Some connection \<Rightarrow> if \<not> was_tagged_by (con_tag connection) (snd_tagger s1) then snd_remove_connection env s1 n else Some s1
         | None \<Rightarrow> Some s1 }"
  let ?I = "\<lambda>visited t. snd_inv l t cnt b d held \<and> snd_fixed s t \<and> length (snd_connections t) = length (snd_connections s) \<and>
    (\<forall>n < length (snd_connections s). snd_connections t ! n = (if n \<in> set visited then ?keep n else snd_connections s ! n)) \<and>
    set_mset (snd_flight t b) \<subseteq> set_mset (snd_flight s b)"
  have start: "?I [] s" using inv by simp
  have step: "\<exists>t'. ?f t n = Some t' \<and> ?I (visited @ [n]) t'" if ns: "?ns = visited @ n # rest" and I: "?I visited t" for visited n rest t
  proof -
    have "n \<in> set ?ns" "n \<notin> set visited" using distinct_upt [of 0 "length (snd_connections s)"] unfolding ns by auto
    then have n: "n < length (snd_connections s)" "n \<notin> set visited" by auto
    from I have t: "snd_inv l t cnt b d held" "snd_fixed s t" "length (snd_connections t) = length (snd_connections s)"
      "snd_tagger t = snd_tagger s" "snd_connections t ! n = snd_connections s ! n" "set_mset (snd_flight t b) \<subseteq> set_mset (snd_flight s b)"
      using n snd_fixedD(6) [of s t] by auto
    show ?thesis
    proof (cases "snd_connections s ! n = ?keep n")
      case True
      then have "?f t n = Some t" using t n by (auto simp: slice_get_def split: option.split_asm if_split_asm)
      with I True n show ?thesis by auto
    next
      case False
      then obtain c where c: "snd_connections s ! n = Some c" "\<not> was_tagged_by (con_tag c) (snd_tagger s)"
        by (auto split: option.split_asm if_split_asm)
      have n': "n < length (snd_connections t)" using n t(3) by simp
      obtain t' where t': "snd_remove_connection env t n = Some t'" "snd_inv l t' cnt b d held" "snd_fixed t t'"
        "snd_connections t' = (snd_connections t)[n := None]" "set_mset (snd_flight t' b) \<subseteq> set_mset (snd_flight t b)"
        by (rule snd_remove_connection_ok [OF t(1) n'])
      have "?f t n = Some t'" using t'(1) t c n' by (simp add: slice_get_def)
      moreover have "snd_connections t' ! k = (if k \<in> set (visited @ [n]) then ?keep k else snd_connections s ! k)"
        if "k < length (snd_connections s)" for k
        using I that t'(4) c t(3) by (cases "k = n") auto
      ultimately show ?thesis
        using t' t snd_fixed_trans [OF t(2) t'(3)] order_trans [OF t'(5) t(6)] by auto
    qed
  qed
  obtain s' where s': "for_each ?f ?ns s = Some s'" "?I ?ns s'"
    by (rule for_each_invariant [of ?I s ?ns ?f, OF start step]) blast
  then show ?thesis by (intro that [of s']) (auto simp: snd_finish_update_connection_cycle_def)
qed

text \<open>
  What the subscribers hold after an update: a subscriber whose connection is kept keeps what it
  has, a new one starts with nothing.
\<close>

definition connection_kept :: "sender \<Rightarrow> sender \<Rightarrow> nat \<Rightarrow> bool" where
  "connection_kept s s' i = (case (snd_connections s ! i, snd_connections s' ! i) of
      (Some c, Some c') \<Rightarrow> con_receiver_port_id c' = con_receiver_port_id c
    | _ \<Rightarrow> False)"

definition peers :: "sender \<Rightarrow> sender \<Rightarrow> (nat \<Rightarrow> 'a) \<Rightarrow> 'a \<Rightarrow> nat \<Rightarrow> 'a" where
  "peers s s' f z i = (if connection_kept s s' i then f i else z)"

lemma connection_kept_view:
  assumes "snd_view s' ! i = snd_view s ! i" "i < length (snd_connections s)" "length (snd_connections s') = length (snd_connections s)"
  shows "connection_kept t s' i = connection_kept t s i" "snd_connections s' ! i = None \<longleftrightarrow> snd_connections s ! i = None"
    "connection_kept s s' i \<longleftrightarrow> snd_connections s ! i \<noteq> None"
proof -
  from assms have eq: "map_option con_view (snd_connections s' ! i) = map_option con_view (snd_connections s ! i)"
    by (simp add: snd_view_def)
  then show "snd_connections s' ! i = None \<longleftrightarrow> snd_connections s ! i = None" by (metis map_option_is_None)
  from eq show "connection_kept t s' i = connection_kept t s i" "connection_kept s s' i \<longleftrightarrow> snd_connections s ! i \<noteq> None"
    by (cases "snd_connections s ! i"; cases "snd_connections s' ! i"; cases "snd_connections t ! i"; auto simp: connection_kept_def con_view_def)+
qed

definition update_step ::
  "environment \<Rightarrow> (port_id \<Rightarrow> storage) \<Rightarrow> OffsetAndSize meta_queue option \<Rightarrow> (ZeroCopyCreationError + unit) \<times> sender \<Rightarrow>
   nat \<times> subscriber_details \<Rightarrow> ((ZeroCopyCreationError + unit) \<times> sender) option" where
  "update_step env storages history = (\<lambda>(result, s) (index, port). do {
     (inner_result, s') \<leftarrow> snd_update_connection env (storages (sub_subscriber_id port)) s index
       \<lparr>rd_port_id = sub_subscriber_id port, rd_buffer_size = sub_buffer_size port\<rparr> (pub_deliver_sample_history env history);
     Some (case result of Inr _ \<Rightarrow> inner_result | Inl e \<Rightarrow> Inl e, s') })"

text \<open>
  What the entry \<open>(i, port)\<close> of the subscriber list is connected with after an update from \<open>s\<close> to \<open>s'\<close>. The
  connection is there when it was there before or when its storage can be created.
\<close>

definition openable :: "(port_id \<Rightarrow> storage) \<Rightarrow> sender \<Rightarrow> subscriber_details \<Rightarrow> bool" where
  "openable storages s port \<longleftrightarrow> (\<exists>a. storages (sub_subscriber_id port) = Created a) \<and> sub_buffer_size port \<le> snd_receiver_max_buffer_size s"

definition connected_as ::
  "(port_id \<Rightarrow> storage) \<Rightarrow> OffsetAndSize meta_queue option \<Rightarrow> sender \<Rightarrow> sender \<Rightarrow> nat \<times> subscriber_details \<Rightarrow> bool" where
  "connected_as storages history s s' = (\<lambda>(i, port).
     (openable storages s port \<or> map_option con_receiver_port_id (snd_connections s ! i) = Some (sub_subscriber_id port) \<longrightarrow>
       snd_connections s' ! i \<noteq> None) \<and>
     (\<forall>c'. snd_connections s' ! i = Some c' \<longrightarrow>
       con_receiver_port_id c' = sub_subscriber_id port \<and> con_tag c' = snd_tagger s \<and>
       con_queue c' 0 = (if connection_kept s s' i then con_queue (the (snd_connections s ! i)) 0
         else drop (length (history_list history) - con_capacity c' 0) (history_list history))))"

lemma peers_step:
  assumes "\<And>k. k \<noteq> i \<Longrightarrow> k < n \<Longrightarrow> connection_kept s t' k = connection_kept s t k" "k < n" "k \<noteq> i"
  shows "peers s t' f z k = peers s t f z k"
  using assms by (simp add: peers_def)

lemma view_put_other: "snd_connections s' = (snd_connections s)[i := x] \<Longrightarrow> k \<noteq> i \<Longrightarrow> snd_view s' ! k = snd_view s ! k"
  by (simp add: snd_view_def map_update)

lemma con_view_first:
  assumes "con_view c' = con_view c"
  shows "con_queue c' 0 = con_queue c 0" "con_capacity c' 0 = con_capacity c 0"
proof -
  have "con_queue c' 0 = con_queue c 0 \<and> con_capacity c' 0 = con_capacity c 0"
  proof (cases "mgmt_channels (con_sender c) = []")
    case True
    with assms have "mgmt_channels (con_sender c') = []" by (simp add: con_view_def)
    with True show ?thesis by (simp add: con_queue_def con_capacity_def)
  next
    case False
    with con_viewD(3,4) [OF assms, of 0] show ?thesis by simp
  qed
  then show "con_queue c' 0 = con_queue c 0" "con_capacity c' 0 = con_capacity c 0" by simp_all
qed

lemma update_step_ok:
  assumes inv: "snd_inv l t (peers s t cnt [0]) (peers s t b (\<lambda>_. [])) (\<lambda>_. False) held" and fixed: "snd_fixed s t"
    and len: "length (snd_connections t) = length (snd_connections s)" and one: "snd_number_of_channels s = 1"
    and i: "i < length (snd_connections s)" "snd_view t ! i = snd_view s ! i"
    and env: "env_ok env" and st: "\<And>k. storage_fresh (storages k)" and hist: "history_deliverable l held history"
    and few: "size held + length (snd_connections s) + 1 < 2 ^ 64"
  obtains r t' where "update_step env storages history (result, t) (i, port) = Some (r, t')"
    "snd_inv l t' (peers s t' cnt [0]) (peers s t' b (\<lambda>_. [])) (\<lambda>_. False) held" "snd_fixed s t'"
    "length (snd_connections t') = length (snd_connections s)" "\<And>k. k \<noteq> i \<Longrightarrow> snd_view t' ! k = snd_view t ! k"
    "connected_as storages history s t' (i, port)"
    "set_mset (snd_flight t' (peers s t' b (\<lambda>_. []))) \<subseteq> set (history_list history) \<union> set_mset (snd_flight t (peers s t b (\<lambda>_. [])))"
proof -
  let ?r = "\<lparr>rd_port_id = sub_subscriber_id port, rd_buffer_size = sub_buffer_size port\<rparr>"
  let ?cnt = "peers s t cnt [0]" and ?b = "peers s t b (\<lambda>_. [])"
  note F = snd_fixedD [OF fixed]
  have it: "i < length (snd_connections t)" and onet: "snd_number_of_channels t = 1"
    and fewt: "size held + length (snd_connections t) + 1 < 2 ^ 64" using i len one F(1) few by simp_all
  have view: "map_option con_view (snd_connections t ! i) = map_option con_view (snd_connections s ! i)"
    using i it by (simp add: snd_view_def)
  have si: "map_option con_receiver_port_id (snd_connections s ! i) = map_option con_receiver_port_id (snd_connections t ! i)"
  proof -
    from view show ?thesis by (cases "snd_connections s ! i"; cases "snd_connections t ! i") (auto simp: con_view_def)
  qed
  have kept_other: "connection_kept s t' k = connection_kept s t k"
    if "snd_view t' ! k = snd_view t ! k" "k < length (snd_connections s)" "length (snd_connections t') = length (snd_connections s)" for t' k
    using connection_kept_view(1) [of t' k t s] that len by simp
  from inv onet it env st [of "sub_subscriber_id port"] hist fewt show ?thesis
  proof (cases rule: pub_update_one [where r = ?r])
    case (kept c t')
    have len': "length (snd_connections t') = length (snd_connections s)" using kept(4) len by simp
    have other: "snd_view t' ! k = snd_view t ! k" if "k \<noteq> i" for k using view_put_other [OF kept(4) that] .
    have "connection_kept s t' i" "connection_kept s t i"
      using si kept(2,4) it by (cases "snd_connections s ! i"; simp add: connection_kept_def)+
    then have all: "connection_kept s t' k = connection_kept s t k" if "k < length (snd_connections s)" for k
      using kept_other [OF other that len'] by (cases "k = i") auto
    have cong: "peers s t' cnt [0] k = ?cnt k \<and> peers s t' b (\<lambda>_. []) k = ?b k"
      if "k < length (snd_connections t')" "snd_connections t' ! k \<noteq> None" for k
      using all len' that by (simp add: peers_def)
    have "snd_inv l t' (peers s t' cnt [0]) (peers s t' b (\<lambda>_. [])) (\<lambda>_. False) held"
      "snd_flight t' (peers s t' b (\<lambda>_. [])) = snd_flight t' ?b" 
      by (rule snd_inv_cong [OF kept(5)]; use cong in blast)+
    moreover obtain c0 where c0: "snd_connections s ! i = Some c0" "con_view c = con_view c0"
      using view kept(2) by (cases "snd_connections s ! i") auto
    then have queue: "con_queue c 0 = con_queue (the (snd_connections s ! i)) 0" using con_view_first [OF c0(2)] by simp
    have "connected_as storages history s t' (i, port)"
      using \<open>connection_kept s t' i\<close> kept(3,4) queue it F(6) by (simp add: connected_as_def tag_with_def con_queue_def)
    ultimately show ?thesis using kept(1,6,7) len' other snd_fixed_trans [OF fixed kept(6)]
      by (intro that [where t' = t' and r = "case result of Inr _ \<Rightarrow> Inr () | Inl e \<Rightarrow> Inl e"]) (simp_all add: update_step_def)
  next
    case (failed res t')
    have len': "length (snd_connections t') = length (snd_connections s)" using failed(3) len by simp
    have other: "snd_view t' ! k = snd_view t ! k" if "k \<noteq> i" for k using view_put_other [OF failed(3) that] .
    have cong: "peers s t' cnt [0] k = ?cnt k \<and> peers s t' b (\<lambda>_. []) k = ?b k"
      if "k < length (snd_connections t')" "snd_connections t' ! k \<noteq> None" for k
      using kept_other [OF other, of k] len' that failed(3) it by (cases "k = i") (simp_all add: peers_def)
    have "snd_inv l t' (peers s t' cnt [0]) (peers s t' b (\<lambda>_. [])) (\<lambda>_. False) held"
      "snd_flight t' (peers s t' b (\<lambda>_. [])) = snd_flight t' ?b" 
      by (rule snd_inv_cong [OF failed(4)]; use cong in blast)+
    moreover have "connected_as storages history s t' (i, port)"
      using failed(2,3,7) it si F(9)
      by (cases "snd_connections t ! i") (auto simp: connected_as_def openable_def)
    ultimately show ?thesis using failed(1,6) len' other snd_fixed_trans [OF fixed failed(5)]
      by (intro that [where t' = t' and r = "case result of Inr _ \<Rightarrow> res | Inl e \<Rightarrow> Inl e"]) (auto simp: update_step_def)
  next
    case (created c' t')
    have len': "length (snd_connections t') = length (snd_connections s)" using created(3) len by simp
    have "\<not> connection_kept s t' i"
      using si created(2,4,5) by (cases "snd_connections s ! i"; cases "snd_connections t ! i") (simp_all add: connection_kept_def)
    then have cong: "peers s t' cnt [0] k = (?cnt(i := [0])) k \<and> peers s t' b (\<lambda>_. []) k = (?b(i := \<lambda>_. [])) k"
      if "k < length (snd_connections t')" "snd_connections t' ! k \<noteq> None" for k
      using kept_other [OF created(8), of k] len' that by (cases "k = i") (simp_all add: peers_def)
    have "snd_inv l t' (peers s t' cnt [0]) (peers s t' b (\<lambda>_. [])) (\<lambda>_. False) held"
      "snd_flight t' (peers s t' b (\<lambda>_. [])) = snd_flight t' (?b(i := \<lambda>_. []))" 
      by (rule snd_inv_cong [OF created(9)]; use cong in blast)+
    moreover have "connected_as storages history s t' (i, port)"
      using created(4-7) F(6) \<open>\<not> connection_kept s t' i\<close> by (simp add: connected_as_def create_tag_def)
    ultimately show ?thesis using created(1,8,11) len' snd_fixed_trans [OF fixed created(10)]
      by (intro that [where t' = t' and r = "case result of Inr _ \<Rightarrow> Inr () | Inl e \<Rightarrow> Inl e"]) (simp_all add: update_step_def)
  qed
qed

lemma snd_tagger_irrelevant [simp]:
  "con_inv l (s\<lparr>snd_tagger := k\<rparr>) c cnt' b' d' = con_inv l s c cnt' b' d'"
  "snd_flight (s\<lparr>snd_tagger := k\<rparr>) b = snd_flight s b"
  "snd_refs l n (s\<lparr>snd_tagger := k\<rparr>) H R = snd_refs l n s H R"
  "snd_inv l (s\<lparr>snd_tagger := k\<rparr>) cnt b d held = snd_inv l s cnt b d held"
  "peers (s\<lparr>snd_tagger := k\<rparr>) s' f z = peers s s' f z"
  "connection_kept (s\<lparr>snd_tagger := k\<rparr>) s' = connection_kept s s'"
  "snd_view (s\<lparr>snd_tagger := k\<rparr>) = snd_view s"
  by (simp_all add: con_inv_def connection_builder_def snd_flight_def snd_refs_def snd_inv_def peers_def connection_kept_def snd_view_def fun_eq_iff)

text \<open>What the publisher reads of the subscriber list: one entry per slot.\<close>

definition list_ok :: "sender \<Rightarrow> subscriber_list \<Rightarrow> bool" where
  "list_ok s xs \<longleftrightarrow> distinct (map fst xs) \<and> (\<forall>(i, port) \<in> set xs. i < length (snd_connections s))"

lemma connected_as_view:
  assumes view: "snd_view t' ! k = snd_view t ! k" "k < length (snd_connections s)" "length (snd_connections t) = length (snd_connections s)"
    "length (snd_connections t') = length (snd_connections s)" and t: "connected_as storages history s t (k, port)"
  shows "connected_as storages history s t' (k, port)"
proof -
  have eq: "map_option con_view (snd_connections t' ! k) = map_option con_view (snd_connections t ! k)"
    using view by (simp add: snd_view_def)
  have kept: "connection_kept s t' k = connection_kept s t k" using connection_kept_view(1) [of t' k t s] view by simp
  have none: "snd_connections t' ! k = None \<longleftrightarrow> snd_connections t ! k = None" using eq by (metis map_option_is_None)
  show ?thesis unfolding connected_as_def prod.case
  proof (intro conjI allI impI)
    show "snd_connections t' ! k \<noteq> None"
      if "openable storages s port \<or> map_option con_receiver_port_id (snd_connections s ! k) = Some (sub_subscriber_id port)"
      using that t none unfolding connected_as_def prod.case by metis
  next
    fix c' assume c': "snd_connections t' ! k = Some c'"
    with eq obtain c where c: "snd_connections t ! k = Some c" "con_view c' = con_view c" by (cases "snd_connections t ! k") auto
    from con_view_first [OF c(2)] c t kept
    show "con_receiver_port_id c' = sub_subscriber_id port" "con_tag c' = snd_tagger s"
        "con_queue c' 0 = (if connection_kept s t' k then con_queue (the (snd_connections s ! k)) 0
          else drop (length (history_list history) - con_capacity c' 0) (history_list history))"
      by (simp_all add: connected_as_def con_view_def)
  qed
qed

lemma pub_update_all:
  assumes inv: "snd_inv l s cnt b d held" and one: "snd_number_of_channels s = 1" and xs: "list_ok s xs"
    and env: "env_ok env" and st: "\<And>k. storage_fresh (storages k)" and hist: "history_deliverable l held history"
    and few: "size held + length (snd_connections s) + 1 < 2 ^ 64"
  obtains r s' where "for_each (update_step env storages history) xs (Inr (), s) = Some (r, s')"
    "snd_inv l s' (peers s s' cnt [0]) (peers s s' b (\<lambda>_. [])) (\<lambda>_. False) held" "snd_fixed s s'"
    "length (snd_connections s') = length (snd_connections s)"
    "\<forall>k. k \<notin> fst ` set xs \<longrightarrow> snd_view s' ! k = snd_view s ! k" "\<forall>x \<in> set xs. connected_as storages history s s' x"
    "set_mset (snd_flight s' (peers s s' b (\<lambda>_. []))) \<subseteq> set (history_list history) \<union> set_mset (snd_flight s b)"
proof -
  let ?I = "\<lambda>visited (r, t). snd_inv l t (peers s t cnt [0]) (peers s t b (\<lambda>_. [])) (\<lambda>_. False) held \<and> snd_fixed s t \<and>
    length (snd_connections t) = length (snd_connections s) \<and> (\<forall>k. k \<notin> fst ` set visited \<longrightarrow> snd_view t ! k = snd_view s ! k) \<and>
    (\<forall>x \<in> set visited. connected_as storages history s t x) \<and>
    set_mset (snd_flight t (peers s t b (\<lambda>_. []))) \<subseteq> set (history_list history) \<union> set_mset (snd_flight s b)"
  have self: "connection_kept s s i \<longleftrightarrow> snd_connections s ! i \<noteq> None" for i
    by (cases "snd_connections s ! i") (simp_all add: connection_kept_def)
  then have same: "peers s s cnt [0] i = cnt i \<and> peers s s b (\<lambda>_. []) i = b i" if "i < length (snd_connections s)" "snd_connections s ! i \<noteq> None" for i
    using that by (simp add: peers_def)
  have start: "?I [] (Inr (), s)"
    using snd_inv_weaken [OF snd_inv_cong(1) [OF inv, of "peers s s cnt [0]" "peers s s b (\<lambda>_. [])"], of "\<lambda>_. False"]
      snd_inv_cong(2) [OF inv, of "peers s s cnt [0]" "peers s s b (\<lambda>_. [])"] same by auto
  have step: "\<exists>rt'. update_step env storages history rt x = Some rt' \<and> ?I (visited @ [x]) rt'"
    if split: "xs = visited @ x # rest" and I: "?I visited rt" for visited x rest rt
  proof -
    obtain res t i port where v: "rt = (res, t)" "x = (i, port)" by (cases rt; cases x)
    have i: "i < length (snd_connections s)" "i \<notin> fst ` set visited"
      using xs split v by (auto simp: list_ok_def rev_image_eqI)
    from I v have t: "snd_inv l t (peers s t cnt [0]) (peers s t b (\<lambda>_. [])) (\<lambda>_. False) held" "snd_fixed s t"
      "length (snd_connections t) = length (snd_connections s)" "snd_view t ! i = snd_view s ! i" using i by auto
    obtain r' t' where t': "update_step env storages history (res, t) (i, port) = Some (r', t')"
      "snd_inv l t' (peers s t' cnt [0]) (peers s t' b (\<lambda>_. [])) (\<lambda>_. False) held" "snd_fixed s t'"
      "length (snd_connections t') = length (snd_connections s)" "\<And>k. k \<noteq> i \<Longrightarrow> snd_view t' ! k = snd_view t ! k"
      "connected_as storages history s t' (i, port)"
      "set_mset (snd_flight t' (peers s t' b (\<lambda>_. []))) \<subseteq> set (history_list history) \<union> set_mset (snd_flight t (peers s t b (\<lambda>_. [])))"
      by (rule update_step_ok [where env = env and storages = storages and result = res and port = port,
            OF t(1-3) one i(1) t(4) env st hist few]) blast
    have "connected_as storages history s t' y" if y: "y \<in> set visited" for y
    proof -
      obtain k pk where k: "y = (k, pk)" by (cases y)
      have "k \<noteq> i" using y k i(2) by force
      have "k < length (snd_connections s)" using xs split y k by (auto simp: list_ok_def)
      from connected_as_view [OF t'(5) [OF \<open>k \<noteq> i\<close>] this t(3) t'(4)] I v y k show ?thesis by auto
    qed
    with I v i t' show ?thesis by (intro exI [of _ "(r', t')"]) auto
  qed
  obtain r s' where "for_each (update_step env storages history) xs (Inr (), s) = Some (r, s')" "?I xs (r, s')"
    by (rule for_each_invariant [of ?I "(Inr (), s)" xs "update_step env storages history", OF start step]) auto
  then show ?thesis by (intro that [of r s']) auto
qed

end
