(* ===== verification/Pubsub_System.thy ===== *)
theory Pubsub_System
  imports Publish_Subscribe
begin

text \<open>
  The invariant of a publisher with a static data segment, which accounts for every chunk that is
  loaned, kept as history, queued in a connection or borrowed by a subscriber, and that loans, drops,
  connection updates and deliveries return and keep it.
\<close>

section \<open>The invariant of a publisher\<close>

definition history_capacity :: "OffsetAndSize meta_queue option \<Rightarrow> nat" where
  "history_capacity history = (case history of None \<Rightarrow> 0 | Some q \<Rightarrow> mq_capacity q)"

abbreviation loan_offsets :: "chunk_mut list \<Rightarrow> PointerOffset list" where
  "loan_offsets loans \<equiv> map chm_offset loans"

definition pub_held :: "publisher \<Rightarrow> chunk_mut list \<Rightarrow> PointerOffset multiset" where
  "pub_held p loans = mset (loan_offsets loans) + mset (history_list (pub_history p))"

text \<open>The largest slice that a static segment holds.\<close>

definition loanable :: "publisher \<Rightarrow> layout \<Rightarrow> nat \<Rightarrow> bool" where
  "loanable p l k \<longleftrightarrow> lsize (snd_sample_layout (pub_sender p) k) \<le> lsize l \<and> lalign (snd_sample_layout (pub_sender p) k) \<le> lalign l"

definition pub_inv ::
  "layout \<Rightarrow> publisher \<Rightarrow> (nat \<Rightarrow> nat list) \<Rightarrow> (nat \<Rightarrow> ChannelId \<Rightarrow> PointerOffset list) \<Rightarrow> chunk_mut list \<Rightarrow> bool" where
  "pub_inv l p cnt b loans \<longleftrightarrow>
     (let s = pub_sender p in
      snd_inv l s cnt b (\<lambda>_. False) (pub_held p loans) \<and> history_deliverable l (pub_held p loans) (pub_history p) \<and>
      distinct (loan_offsets loans @ history_list (pub_history p)) \<and>
      set (loan_offsets loans) \<inter> set_mset (snd_flight s b) = {} \<and> (\<forall>c \<in> set loans. chm_size c = lsize l) \<and>
      snd_loan_counter s = length loans \<and> length loans \<le> snd_sender_max_borrowed_samples s \<and>
      snd_number_of_channels s = 1 \<and> (snd_unable_to_deliver_strategy s = DiscardSample \<or> snd_enable_safe_overflow s) \<and>
      length (snd_connections s) * con_limit s + history_capacity (pub_history p) + snd_sender_max_borrowed_samples s
        \<le> snd_number_of_samples s)"

lemma pub_invD:
  assumes "pub_inv l p cnt b loans"
  shows "snd_inv l (pub_sender p) cnt b (\<lambda>_. False) (pub_held p loans)"
    "history_deliverable l (pub_held p loans) (pub_history p)" "distinct (loan_offsets loans @ history_list (pub_history p))"
    "set (loan_offsets loans) \<inter> set_mset (snd_flight (pub_sender p) b) = {}" "c \<in> set loans \<Longrightarrow> chm_size c = lsize l"
    "snd_loan_counter (pub_sender p) = length loans" "length loans \<le> snd_sender_max_borrowed_samples (pub_sender p)"
    "snd_number_of_channels (pub_sender p) = 1"
    "snd_unable_to_deliver_strategy (pub_sender p) = DiscardSample \<or> snd_enable_safe_overflow (pub_sender p)"
    "length (snd_connections (pub_sender p)) * con_limit (pub_sender p) + history_capacity (pub_history p)
       + snd_sender_max_borrowed_samples (pub_sender p) \<le> snd_number_of_samples (pub_sender p)"
  using assms by (simp_all add: pub_inv_def Let_def)

lemma samples_less:
  assumes "snd_inv l s cnt b d held"
  shows "snd_number_of_samples s < 2 ^ 32"
proof -
  from snd_invD(1) [OF assms] obtain m where "spa_number_of_buckets (shm_pool m) = snd_number_of_samples s"
    by (auto simp: snd_refs_def segment_refs_def)
  then show ?thesis using unat_less_exp [of "uis_capacity (pa_buckets (spa_allocator (shm_pool m)))"]
    by (simp add: spa_number_of_buckets_def)
qed

lemma history_size_le:
  assumes "pub_inv l p cnt b loans"
  shows "length (history_list (pub_history p)) \<le> history_capacity (pub_history p)"
  using pub_invD(2) [OF assms]
  by (cases "pub_history p")
    (auto simp: history_deliverable_def history_ok_def history_list_def history_capacity_def history_offsets_def mq_inv_def)

lemma held_size:
  assumes "pub_inv l p cnt b loans"
  shows "size (pub_held p loans) \<le> length loans + history_capacity (pub_history p)"
  using history_size_le [OF assms] by (simp add: pub_held_def)

lemma few_sizes:
  assumes inv: "pub_inv l p cnt b loans"
  shows "length loans + history_capacity (pub_history p) + length (snd_connections (pub_sender p)) + 2 < 2 ^ 64"
proof -
  let ?s = "pub_sender p"
  have "1 \<le> con_limit ?s" by (simp add: con_limit_def max_def)
  then have "length (snd_connections ?s) \<le> length (snd_connections ?s) * con_limit ?s" by simp
  then have "length loans + history_capacity (pub_history p) + length (snd_connections ?s) + 2 < 2 ^ 32 + 2"
    using pub_invD(7,10) [OF inv] samples_less [OF pub_invD(1) [OF inv]] by linarith
  also have "\<dots> \<le> 2 ^ 64" by simp
  finally show ?thesis .
qed

lemma few_references:
  assumes inv: "pub_inv l p cnt b loans"
  shows "size (pub_held p loans) + length (snd_connections (pub_sender p)) + 2 < 2 ^ 64"
  using few_sizes [OF inv] held_size [OF inv] by linarith

text \<open>The ports a sender is connected to, with the tags that mark them as listed.\<close>

definition snd_ports :: "sender \<Rightarrow> tag \<times> (port_id \<times> tag) option list" where
  "snd_ports s = (snd_tagger s, map (map_option (\<lambda>c. (con_receiver_port_id c, con_tag c))) (snd_connections s))"

definition tags_current :: "sender \<Rightarrow> bool" where
  "tags_current s \<longleftrightarrow> (\<forall>i < length (snd_connections s). \<forall>c. snd_connections s ! i = Some c \<longrightarrow> con_tag c = snd_tagger s)"

lemma snd_ports_view:
  assumes view: "snd_view s' = snd_view s" and tagger: "snd_tagger s' = snd_tagger s"
  shows "snd_ports s' = snd_ports s"
proof -
  have eq: "snd_ports t = (snd_tagger t, map (map_option (\<lambda>v. (fst v, fst (snd v)))) (snd_view t))" for t
    by (simp add: snd_ports_def snd_view_def option.map_comp comp_def con_view_def)
  show ?thesis using assms by (simp add: eq)
qed

lemma snd_ports_length: "snd_ports s' = snd_ports s \<Longrightarrow> length (snd_connections s') = length (snd_connections s)"
  by (auto simp: snd_ports_def dest: map_eq_imp_length_eq)

lemma snd_ports_nth:
  assumes eq: "snd_ports s' = snd_ports s" and i: "i < length (snd_connections s)"
  shows "map_option (\<lambda>c. (con_receiver_port_id c, con_tag c)) (snd_connections s' ! i) =
     map_option (\<lambda>c. (con_receiver_port_id c, con_tag c)) (snd_connections s ! i)"
proof -
  let ?f = "map_option (\<lambda>c. (con_receiver_port_id c, con_tag c))"
  from eq have "map ?f (snd_connections s') ! i = map ?f (snd_connections s) ! i" by (simp add: snd_ports_def)
  with i snd_ports_length [OF eq] show ?thesis by simp
qed

lemma tags_current_ports:
  assumes eq: "snd_ports s' = snd_ports s" and current: "tags_current s"
  shows "tags_current s'"
  unfolding tags_current_def
proof (intro allI impI)
  fix i c assume i: "i < length (snd_connections s')" and c: "snd_connections s' ! i = Some c"
  have len: "length (snd_connections s) = length (snd_connections s')" and tagger: "snd_tagger s' = snd_tagger s"
    using eq snd_ports_length [OF eq] by (simp_all add: snd_ports_def)
  from snd_ports_nth [OF eq, of i] i len c obtain c0 where "snd_connections s ! i = Some c0" "con_tag c0 = con_tag c"
    by (cases "snd_connections s ! i") auto
  with current i len tagger show "con_tag c = snd_tagger s'" by (auto simp: tags_current_def)
qed

section \<open>Loans\<close>

lemma card_set_mset_le: "card (set_mset M) \<le> size M"
proof -
  obtain xs where "M = mset xs" using ex_mset by metis
  then show ?thesis by (simp add: card_length)
qed

text \<open>A chunk is free whenever fewer than the configured number of samples is loaned.\<close>

lemma pool_never_exhausted:
  assumes inv: "snd_inv l s cnt b (\<lambda>_. True) held" and one: "snd_number_of_channels s = 1"
    and room: "size held + length (snd_connections s) * con_limit s < snd_number_of_samples s"
  shows "set_mset (held + snd_flight s b) \<noteq> chunks l (snd_number_of_samples s)"
proof
  assume all: "set_mset (held + snd_flight s b) = chunks l (snd_number_of_samples s)"
  have "snd_number_of_samples s = card (chunks l (snd_number_of_samples s))"
    using card_chunks(2) [OF snd_invD(1) [OF inv]] by simp
  also have "\<dots> = card (set_mset (held + snd_flight s b))" by (simp only: all)
  also have "\<dots> \<le> size (held + snd_flight s b)" by (rule card_set_mset_le)
  also have "\<dots> \<le> size held + length (snd_connections s) * con_limit s" using size_flight_le [OF inv] one by simp
  finally show False using room by simp
qed

lemma con_limit_fixed: "snd_fixed s s' \<Longrightarrow> con_limit s' = con_limit s"
  by (simp add: con_limit_def snd_fixedD)

text \<open>What the operations of a publisher keep of its settings, whatever they do to the counter of loans and the tags.\<close>

definition snd_settings :: "sender \<Rightarrow> sender \<Rightarrow> bool" where
  "snd_settings s s' \<longleftrightarrow> (\<exists>k t. snd_fixed (s\<lparr>snd_loan_counter := k, snd_tagger := t\<rparr>) s') \<and>
     length (snd_connections s') = length (snd_connections s)"

lemma snd_settingsD:
  assumes "snd_settings s s'"
  shows "con_limit s' = con_limit s" "snd_number_of_samples s' = snd_number_of_samples s"
    "snd_sender_max_borrowed_samples s' = snd_sender_max_borrowed_samples s" "snd_number_of_channels s' = snd_number_of_channels s"
    "snd_unable_to_deliver_strategy s' = snd_unable_to_deliver_strategy s" "snd_enable_safe_overflow s' = snd_enable_safe_overflow s"
    "snd_message_type_details s' = snd_message_type_details s" "length (snd_connections s') = length (snd_connections s)"
proof -
  from assms obtain k t where f: "snd_fixed (s\<lparr>snd_loan_counter := k, snd_tagger := t\<rparr>) s'"
    and "length (snd_connections s') = length (snd_connections s)"
    by (auto simp: snd_settings_def)
  then show "length (snd_connections s') = length (snd_connections s)" by simp
  show "con_limit s' = con_limit s" using con_limit_fixed [OF f] by (simp add: con_limit_def)
qed (use assms in \<open>auto simp: snd_settings_def dest: snd_fixedD\<close>)

lemma snd_settings_fixed: "snd_fixed s s' \<Longrightarrow> length (snd_connections s') = length (snd_connections s) \<Longrightarrow> snd_settings s s'"
  unfolding snd_settings_def by (intro conjI exI [of _ "snd_loan_counter s"] exI [of _ "snd_tagger s"]) simp_all

lemma snd_settings_trans: "snd_settings s s' \<Longrightarrow> snd_settings s' s'' \<Longrightarrow> snd_settings s s''"
  by (cases s; cases s'; cases s'') (auto simp: snd_settings_def snd_fixed_def)

lemma snd_settings_loan:
  "snd_fixed (s\<lparr>snd_loan_counter := k\<rparr>) s' \<Longrightarrow> length (snd_connections s') = length (snd_connections s) \<Longrightarrow> snd_settings s s'"
  unfolding snd_settings_def by (intro conjI exI [of _ k] exI [of _ "snd_tagger s"]) simp_all

lemma loanable_settings: "snd_settings (pub_sender p) (pub_sender p') \<Longrightarrow> loanable p' l k = loanable p l k"
  by (simp add: loanable_def snd_sample_layout_def snd_settingsD)

lemma pub_inv_sender:
  assumes inv: "pub_inv l p cnt b loans" and s': "snd_inv l s' cnt' b' d (pub_held p loans')" "snd_settings (pub_sender p) s'"
    and loans: "distinct (loan_offsets loans' @ history_list (pub_history p))"
      "set (loan_offsets loans') \<inter> set_mset (snd_flight s' b') = {}" "\<forall>c \<in> set loans'. chm_size c = lsize l"
      "snd_loan_counter s' = length loans'" "length loans' \<le> snd_sender_max_borrowed_samples (pub_sender p)"
  shows "pub_inv l (p\<lparr>pub_sender := s'\<rparr>) cnt' b' loans'"
proof -
  have "pub_held (p\<lparr>pub_sender := s'\<rparr>) loans' = pub_held p loans'" by (simp add: pub_held_def)
  moreover have "history_deliverable l (pub_held p loans') (pub_history p)"
    using pub_invD(2) [OF inv] by (auto simp: history_deliverable_def history_ok_def pub_held_def history_list_def)
  ultimately show ?thesis
    using assms pub_invD(8-10) [OF inv] snd_inv_weaken [OF s'(1), of "\<lambda>_. False"]
    by (simp add: pub_inv_def snd_settingsD [OF s'(2)])
qed

lemma pub_loan_cases:
  assumes inv: "pub_inv l p cnt b loans" and k: "loanable p l k"
  obtains
    (exceeds) s' where "snd_allocate env (pub_sender p) (snd_sample_layout (pub_sender p) k) = Some (Inl ExceedsMaxLoans, s')"
      "length loans = snd_sender_max_borrowed_samples (pub_sender p)" "pub_inv l (p\<lparr>pub_sender := s'\<rparr>) cnt b loans"
      "snd_settings (pub_sender p) s'" "snd_ports s' = snd_ports (pub_sender p)"
  | (loaned) c s' where "snd_allocate env (pub_sender p) (snd_sample_layout (pub_sender p) k) = Some (Inr c, s')"
      "length loans < snd_sender_max_borrowed_samples (pub_sender p)" "pub_inv l (p\<lparr>pub_sender := s'\<rparr>) cnt b (c # loans)"
      "snd_settings (pub_sender p) s'" "snd_ports s' = snd_ports (pub_sender p)"
proof -
  let ?s = "pub_sender p"
  note D = pub_invD [OF inv]
  from k have k': "lsize (snd_sample_layout ?s k) \<le> lsize l" "lalign (snd_sample_layout ?s k) \<le> lalign l" by (simp_all add: loanable_def)
  from D(1) k' show ?thesis
  proof (cases rule: snd_allocate_cases [where env = env])
    case (exceeds s')
    have set: "snd_settings ?s s'" using exceeds(4) snd_view_length [OF exceeds(5)] by (rule snd_settings_fixed)
    have "pub_inv l (p\<lparr>pub_sender := s'\<rparr>) cnt b loans"
      by (rule pub_inv_sender [OF inv exceeds(3) set]) (use D(3-7) exceeds(6) snd_fixedD(4) [OF exceeds(4)] in auto)
    with exceeds set D(6,7) snd_ports_view [OF exceeds(5) snd_fixedD(6) [OF exceeds(4)]] show ?thesis
      by (intro that(1) [of s']) simp_all
  next
    case (exhausted s')
    note F = snd_fixedD [OF exhausted(4)]
    have "size (pub_held p loans) + length (snd_connections s') * con_limit s' < snd_number_of_samples s'"
      using held_size [OF inv] D(6,10) exhausted(2) snd_view_length [OF exhausted(5)] by (simp add: F con_limit_fixed [OF exhausted(4)])
    with pool_never_exhausted [OF exhausted(3)] D(8) exhausted(6) have False by (simp add: F)
    then show ?thesis ..
  next
    case (loaned c s')
    have set: "snd_settings ?s s'" using loaned(4) snd_view_length [OF loaned(5)] by (rule snd_settings_loan)
    have held: "pub_held p (c # loans) = add_mset (chm_offset c) (pub_held p loans)" by (simp add: pub_held_def)
    have new: "chm_offset c \<notin> set (loan_offsets loans)" "chm_offset c \<notin> set (history_list (pub_history p))"
      "chm_offset c \<notin># snd_flight s' b" using loaned(6) by (auto simp: pub_held_def)
    have "pub_inv l (p\<lparr>pub_sender := s'\<rparr>) cnt b (c # loans)"
      by (rule pub_inv_sender [OF inv _ set, where d = "\<lambda>_. True"])
        (use loaned(3) held D(3-7) new loaned(2,7,8) snd_fixedD(4) [OF loaned(4)] in auto)
    moreover have "snd_tagger s' = snd_tagger ?s" using snd_fixedD(6) [OF loaned(4)] by simp
    ultimately show ?thesis using loaned D(6) set snd_ports_view [OF loaned(5)] by (intro that(2) [of c s']) simp_all
  qed
qed

lemma pub_drop_ok:
  assumes inv: "pub_inv l p cnt b loans" and c: "c \<in> set loans"
  obtains s' where "sample_mut_drop env p (chm_offset c) = Some (p\<lparr>pub_sender := s'\<rparr>)"
    "pub_inv l (p\<lparr>pub_sender := s'\<rparr>) cnt b (remove1 c loans)" "snd_settings (pub_sender p) s'"
    "snd_ports s' = snd_ports (pub_sender p)"
proof -
  let ?s = "pub_sender p" and ?loans = "remove1 c loans"
  note D = pub_invD [OF inv]
  have held: "pub_held p loans = add_mset (chm_offset c) (pub_held p ?loans)"
    using c by (simp add: pub_held_def image_mset_Diff)
  have len: "length ?loans = length loans - 1" "0 < length loans" using c by (auto simp: length_remove1)
  have "length loans < 2 ^ 64" using few_sizes [OF inv] by linarith
  with D(6) len have loans: "0 < snd_loan_counter ?s" "snd_loan_counter ?s < 2 ^ 64" by simp_all
  obtain s' where s': "snd_return_loaned_sample env ?s (chm_offset c) = Some s'" "snd_inv l s' cnt b (\<lambda>_. False) (pub_held p ?loans)"
    "snd_fixed (?s\<lparr>snd_loan_counter := snd_loan_counter ?s - 1\<rparr>) s'" "snd_connections s' = snd_connections ?s"
    by (rule snd_return_loaned [OF _ loans, of l cnt b "\<lambda>_. False" "chm_offset c" "pub_held p ?loans" env]) (use D(1) held in simp_all)
  have set: "snd_settings ?s s'" using s'(3) by (rule snd_settings_loan) (simp add: s'(4))
  have fl: "snd_flight s' b = snd_flight ?s b" using s'(4) by (rule snd_flight_cong) (simp add: snd_settingsD [OF set])
  have sub: "set ?loans \<subseteq> set loans" by (rule set_remove1_subset)
  have "distinct (loan_offsets ?loans @ history_list (pub_history p))"
    using D(3) sub by (auto simp: distinct_map intro: inj_on_subset)
  moreover have "set (loan_offsets ?loans) \<inter> set_mset (snd_flight s' b) = {}" using D(4) sub fl by auto
  ultimately have "pub_inv l (p\<lparr>pub_sender := s'\<rparr>) cnt b ?loans"
    by (rule pub_inv_sender [OF inv s'(2) set]) (use D(5-7) sub len snd_fixedD(4) [OF s'(3)] in auto)
  with s'(1,4) set snd_fixedD(6) [OF s'(3)] show ?thesis by (intro that [of s']) (simp_all add: sample_mut_drop_def snd_ports_def)
qed

section \<open>Connections\<close>

lemma snd_settings_start: "snd_settings s (snd_start_update_connection_cycle s)"
  unfolding snd_settings_def snd_start_update_connection_cycle_def
  by (intro conjI exI [of _ "snd_loan_counter s"] exI [of _ "next_cycle (snd_tagger s)"]) simp_all

lemma pub_force_update_eq:
  "pub_force_update_connections env storages p = do {
     (result, s2) \<leftarrow> for_each (update_step env storages (pub_history p)) (pub_subscriber_list p)
       (Inr (), snd_start_update_connection_cycle (pub_sender p));
     s3 \<leftarrow> snd_finish_update_connection_cycle env s2;
     Some (result, p\<lparr>pub_sender := s3\<rparr>) }"
  by (simp add: pub_force_update_connections_def update_step_def)

text \<open>
  After an update the publisher is connected to listed subscribers only, a connection that is new has
  the last samples of the history that fit its buffer, and nothing else has changed.
\<close>

definition updated :: "(port_id \<Rightarrow> storage) \<Rightarrow> publisher \<Rightarrow> subscriber_list \<Rightarrow> sender \<Rightarrow> bool" where
  "updated storages p xs s' \<longleftrightarrow>
   (\<forall>(i, port) \<in> set xs. openable storages (pub_sender p) port \<or>
      map_option con_receiver_port_id (snd_connections (pub_sender p) ! i) = Some (sub_subscriber_id port) \<longrightarrow>
      snd_connections s' ! i \<noteq> None) \<and>
   (\<forall>i < length (snd_connections s'). \<forall>c. snd_connections s' ! i = Some c \<longrightarrow>
     con_tag c = snd_tagger s' \<and>
     (\<exists>port. (i, port) \<in> set xs \<and> con_receiver_port_id c = sub_subscriber_id port) \<and>
     con_queue c 0 = (if connection_kept (pub_sender p) s' i then con_queue (the (snd_connections (pub_sender p) ! i)) 0
       else drop (length (history_list (pub_history p)) - con_capacity c 0) (history_list (pub_history p))))"

lemma tagged_listed:
  assumes current: "tags_current s" and i: "i < length (snd_connections s)" "length (snd_connections s') = length (snd_connections s)"
    and c: "snd_connections s' ! i = Some c" "con_tag c = next_cycle (snd_tagger s)" and view: "i \<notin> A \<longrightarrow> snd_view s' ! i = snd_view s ! i"
  shows "i \<in> A"
proof (rule ccontr)
  assume "i \<notin> A"
  with view i have "map_option con_view (snd_connections s' ! i) = map_option con_view (snd_connections s ! i)"
    by (simp add: snd_view_def)
  with c(1) obtain c0 where "snd_connections s ! i = Some c0" "con_tag c0 = con_tag c"
    by (cases "snd_connections s ! i") (auto simp: con_view_def)
  with current i(1) c(2) untagged_in_next_cycle [of "snd_tagger s"] show False
    by (simp add: tags_current_def was_tagged_by_def)
qed

lemma pub_force_update_ok:
  assumes inv: "pub_inv l p cnt b loans" and xs: "list_ok (pub_sender p) (pub_subscriber_list p)"
    and env: "env_ok env" and st: "\<And>k. storage_fresh (storages k)"
  obtains r s' where "pub_force_update_connections env storages p = Some (r, p\<lparr>pub_sender := s'\<rparr>)"
    "pub_inv l (p\<lparr>pub_sender := s'\<rparr>) (peers (pub_sender p) s' cnt [0]) (peers (pub_sender p) s' b (\<lambda>_. [])) loans"
    "snd_settings (pub_sender p) s'" "tags_current (pub_sender p) \<Longrightarrow> updated storages p (pub_subscriber_list p) s'"
proof -
  let ?s = "pub_sender p" and ?h = "history_list (pub_history p)"
  let ?s1 = "snd_start_update_connection_cycle ?s"
  note D = pub_invD [OF inv]
  have s1: "snd_inv l ?s1 cnt b (\<lambda>_. False) (pub_held p loans)" "snd_number_of_channels ?s1 = 1" "list_ok ?s1 (pub_subscriber_list p)"
    "size (pub_held p loans) + length (snd_connections ?s1) + 1 < 2 ^ 64"
    using D(1,8) xs few_references [OF inv] by (simp_all add: snd_start_update_connection_cycle_def list_ok_def)
  obtain r s2 where s2: "for_each (update_step env storages (pub_history p)) (pub_subscriber_list p) (Inr (), ?s1) = Some (r, s2)"
    "snd_inv l s2 (peers ?s1 s2 cnt [0]) (peers ?s1 s2 b (\<lambda>_. [])) (\<lambda>_. False) (pub_held p loans)" "snd_fixed ?s1 s2"
    "length (snd_connections s2) = length (snd_connections ?s1)"
    "\<forall>k. k \<notin> fst ` set (pub_subscriber_list p) \<longrightarrow> snd_view s2 ! k = snd_view ?s1 ! k"
    "\<forall>x \<in> set (pub_subscriber_list p). connected_as storages (pub_history p) ?s1 s2 x"
    "set_mset (snd_flight s2 (peers ?s1 s2 b (\<lambda>_. []))) \<subseteq> set ?h \<union> set_mset (snd_flight ?s1 b)"
    by (rule pub_update_all [where env = env and storages = storages, OF s1(1-3) env st D(2) s1(4)]) blast
  obtain s3 where s3: "snd_finish_update_connection_cycle env s2 = Some s3"
    "snd_inv l s3 (peers ?s1 s2 cnt [0]) (peers ?s1 s2 b (\<lambda>_. [])) (\<lambda>_. False) (pub_held p loans)" "snd_fixed s2 s3"
    "length (snd_connections s3) = length (snd_connections s2)"
    "\<forall>n < length (snd_connections s2). snd_connections s3 ! n = (case snd_connections s2 ! n of None \<Rightarrow> None
       | Some c \<Rightarrow> if was_tagged_by (con_tag c) (snd_tagger s2) then Some c else None)"
    "set_mset (snd_flight s3 (peers ?s1 s2 b (\<lambda>_. []))) \<subseteq> set_mset (snd_flight s2 (peers ?s1 s2 b (\<lambda>_. [])))"
    by (rule snd_finish_ok [OF s2(2)])
  have kept: "snd_connections s3 ! n = snd_connections s2 ! n" if "n < length (snd_connections s3)" "snd_connections s3 ! n \<noteq> None" for n
    using s3(4,5) that by (auto split: option.split_asm if_split_asm)
  have cong: "peers ?s s3 cnt [0] n = peers ?s1 s2 cnt [0] n \<and> peers ?s s3 b (\<lambda>_. []) n = peers ?s1 s2 b (\<lambda>_. []) n"
    if "n < length (snd_connections s3)" "snd_connections s3 ! n \<noteq> None" for n
    using kept [OF that] by (simp add: peers_def connection_kept_def snd_start_update_connection_cycle_def)
  have inv3: "snd_inv l s3 (peers ?s s3 cnt [0]) (peers ?s s3 b (\<lambda>_. [])) (\<lambda>_. False) (pub_held p loans)"
    and fl3: "snd_flight s3 (peers ?s s3 b (\<lambda>_. [])) = snd_flight s3 (peers ?s1 s2 b (\<lambda>_. []))"
    by (rule snd_inv_cong [OF s3(2)]; use cong in blast)+
  have set: "snd_settings ?s s3"
    using snd_settings_trans [OF snd_settings_start snd_settings_fixed [OF snd_fixed_trans [OF s2(3) s3(3)]]] s3(4) s2(4)
    by (simp add: snd_start_update_connection_cycle_def)
  have "set_mset (snd_flight s3 (peers ?s s3 b (\<lambda>_. []))) \<subseteq> set ?h \<union> set_mset (snd_flight ?s b)"
    using fl3 s3(6) s2(7) by (auto simp: snd_start_update_connection_cycle_def)
  then have disjoint: "set (loan_offsets loans) \<inter> set_mset (snd_flight s3 (peers ?s s3 b (\<lambda>_. []))) = {}" using D(3,4) by auto
  have "snd_loan_counter s3 = length loans"
    using D(6) snd_fixedD(4) [OF s2(3)] snd_fixedD(4) [OF s3(3)] by (simp add: snd_start_update_connection_cycle_def)
  with D(3,5,7) disjoint have inv': "pub_inv l (p\<lparr>pub_sender := s3\<rparr>) (peers ?s s3 cnt [0]) (peers ?s s3 b (\<lambda>_. [])) loans"
    by (intro pub_inv_sender [OF inv inv3 set]) auto
  have tag: "snd_tagger s3 = next_cycle (snd_tagger ?s)" "snd_tagger s2 = next_cycle (snd_tagger ?s)"
    using snd_fixedD(6) [OF s2(3)] snd_fixedD(6) [OF s3(3)] by (simp_all add: snd_start_update_connection_cycle_def)
  have upd: "updated storages p (pub_subscriber_list p) s3" if current: "tags_current ?s"
    unfolding updated_def
  proof (intro conjI ballI allI impI; (unfold split_paired_all prod.case)?)
    fix i port assume x: "(i, port) \<in> set (pub_subscriber_list p)"
    with s2(6) have as: "connected_as storages (pub_history p) ?s1 s2 (i, port)" by blast
    have i: "i < length (snd_connections s2)" using x s2(4) s1(3) by (auto simp: list_ok_def)
    show "openable storages ?s port \<or> map_option con_receiver_port_id (snd_connections ?s ! i) = Some (sub_subscriber_id port) \<longrightarrow>
      snd_connections s3 ! i \<noteq> None"
      using as i s3(5) tag(2)
      by (auto simp: connected_as_def openable_def snd_start_update_connection_cycle_def was_tagged_by_def)
  next
    fix i c assume i: "i < length (snd_connections s3)" and c: "snd_connections s3 ! i = Some c"
    have c2: "snd_connections s2 ! i = Some c" using kept [OF i] c by simp
    have tagged: "con_tag c = snd_tagger s3"
      using s3(4,5) i c c2 tag by (auto simp: was_tagged_by_def split: if_split_asm)
    have len: "i < length (snd_connections ?s)" using i s3(4) s2(4) by (simp add: snd_start_update_connection_cycle_def)
    have "i \<in> fst ` set (pub_subscriber_list p)"
      by (rule tagged_listed [OF current len _ c2, of "fst ` set (pub_subscriber_list p)"])
        (use s2(4,5) tagged tag(1) in \<open>simp_all add: snd_start_update_connection_cycle_def\<close>)
    then obtain port where port: "(i, port) \<in> set (pub_subscriber_list p)" by auto
    with s2(6) have "connected_as storages (pub_history p) ?s1 s2 (i, port)" by blast
    moreover have "connection_kept ?s s3 i = connection_kept ?s1 s2 i"
      using c c2 by (simp add: connection_kept_def snd_start_update_connection_cycle_def)
    ultimately show "con_tag c = snd_tagger s3"
        "\<exists>port. (i, port) \<in> set (pub_subscriber_list p) \<and> con_receiver_port_id c = sub_subscriber_id port"
        "con_queue c 0 = (if connection_kept ?s s3 i then con_queue (the (snd_connections ?s ! i)) 0 else drop (length ?h - con_capacity c 0) ?h)"
      using c2 tagged port by (auto simp: connected_as_def) (auto simp: snd_start_update_connection_cycle_def)
  qed
  have "pub_force_update_connections env storages p = Some (r, p\<lparr>pub_sender := s3\<rparr>)"
    using s2(1) s3(1) by (simp add: pub_force_update_eq)
  from that [OF this inv' set upd] show ?thesis .
qed

lemma peers_self:
  "snd_connections s ! i \<noteq> None \<Longrightarrow> snd_connections s' ! i = snd_connections s ! i \<Longrightarrow> peers s s' f z i = f i"
  by (cases "snd_connections s ! i") (simp_all add: peers_def connection_kept_def)

lemma kept_ports:
  assumes "snd_ports s' = snd_ports t" "i < length (snd_connections t)"
  shows "connection_kept s s' i = connection_kept s t i" "snd_connections s' ! i = None \<longleftrightarrow> snd_connections t ! i = None"
  using snd_ports_nth [OF assms]
  by (cases "snd_connections s' ! i"; cases "snd_connections t ! i"; cases "snd_connections s ! i"; simp add: connection_kept_def)+

lemma pub_inv_cong:
  assumes inv: "pub_inv l p cnt b loans"
    and eq: "\<And>i. i < length (snd_connections (pub_sender p)) \<Longrightarrow> snd_connections (pub_sender p) ! i \<noteq> None \<Longrightarrow> cnt' i = cnt i \<and> b' i = b i"
  shows "pub_inv l p cnt' b' loans"
proof -
  have "snd_inv l (pub_sender p) cnt' b' (\<lambda>_. False) (pub_held p loans)" "snd_flight (pub_sender p) b' = snd_flight (pub_sender p) b"
    by (rule snd_inv_cong [OF pub_invD(1) [OF inv]]; use eq in blast)+
  with inv show ?thesis by (simp add: pub_inv_def Let_def)
qed

definition update_ok :: "publisher \<Rightarrow> subscriber_list option \<Rightarrow> bool" where
  "update_ok p update \<longleftrightarrow> (\<forall>xs. update = Some xs \<longrightarrow> list_ok (pub_sender p) xs)"

lemma pub_update_ok:
  assumes inv: "pub_inv l p cnt b loans" and upd: "update_ok p update" and env: "env_ok env" and st: "\<And>k. storage_fresh (storages k)"
  obtains r p' where "pub_update_connections env storages update p = Some (r, p')"
    "pub_inv l p' (peers (pub_sender p) (pub_sender p') cnt [0]) (peers (pub_sender p) (pub_sender p') b (\<lambda>_. [])) loans"
    "snd_settings (pub_sender p) (pub_sender p')" "pub_history p' = pub_history p" "pub_is_active p' = pub_is_active p"
    "pub_config p' = pub_config p" "tags_current (pub_sender p) \<Longrightarrow> tags_current (pub_sender p')"
    "tags_current (pub_sender p) \<Longrightarrow> \<forall>xs. update = Some xs \<longrightarrow> updated storages p xs (pub_sender p')"
proof (cases update)
  case None
  have "pub_inv l p (peers (pub_sender p) (pub_sender p) cnt [0]) (peers (pub_sender p) (pub_sender p) b (\<lambda>_. [])) loans"
    by (rule pub_inv_cong [OF inv]) (simp add: peers_self)
  with None show ?thesis
    by (intro that [of "Inr ()" p]) (simp_all add: pub_update_connections_def snd_settings_fixed)
next
  case (Some xs)
  let ?p = "p\<lparr>pub_subscriber_list := xs\<rparr>"
  have inv': "pub_inv l ?p cnt b loans" using inv by (simp add: pub_inv_def pub_held_def)
  have xs: "list_ok (pub_sender ?p) (pub_subscriber_list ?p)" using upd Some by (simp add: update_ok_def)
  obtain r s' where "pub_force_update_connections env storages ?p = Some (r, ?p\<lparr>pub_sender := s'\<rparr>)"
    "pub_inv l (?p\<lparr>pub_sender := s'\<rparr>) (peers (pub_sender ?p) s' cnt [0]) (peers (pub_sender ?p) s' b (\<lambda>_. [])) loans"
    "snd_settings (pub_sender ?p) s'" "tags_current (pub_sender ?p) \<Longrightarrow> updated storages ?p xs s'"
    by (rule pub_force_update_ok [where env = env and storages = storages, OF inv' xs env st]) auto
  moreover have "updated storages ?p xs s' \<Longrightarrow> updated storages p xs s' \<and> tags_current s'" by (auto simp: updated_def tags_current_def)
  ultimately show ?thesis using Some by (intro that [of r "?p\<lparr>pub_sender := s'\<rparr>"]) (simp_all add: pub_update_connections_def)
qed

lemma pub_inv_peers:
  assumes inv: "pub_inv l p' (peers s t cnt [0]) (peers s t b (\<lambda>_. [])) loans" and ports: "snd_ports (pub_sender p') = snd_ports t"
  shows "pub_inv l p' (peers s (pub_sender p') cnt [0]) (peers s (pub_sender p') b (\<lambda>_. [])) loans"
proof (rule pub_inv_cong [OF inv])
  fix i assume i: "i < length (snd_connections (pub_sender p'))" and "snd_connections (pub_sender p') ! i \<noteq> None"
  with snd_ports_length [OF ports] have "i < length (snd_connections t)" by simp
  from kept_ports(1) [OF ports this, of s]
  show "peers s (pub_sender p') cnt [0] i = peers s t cnt [0] i \<and> peers s (pub_sender p') b (\<lambda>_. []) i = peers s t b (\<lambda>_. []) i"
    by (simp add: peers_def)
qed

section \<open>Sending\<close>

lemma snd_borrow_held:
  assumes inv: "snd_inv l s cnt b d held" and p: "p \<in># held"
    and few: "size held + length (snd_connections s) * snd_number_of_channels s + 1 < 2 ^ 64"
  obtains r s' where "snd_borrow_sample env s p = Some (r, s')" "snd_inv l s' cnt b d (add_mset p held)" "snd_fixed s s'"
    "snd_connections s' = snd_connections s"
proof -
  let ?R = "held + snd_flight s b"
  have "count ?R p \<le> size held + length (snd_connections s) * snd_number_of_channels s"
    using count_flight_le [OF inv, of p] count_le_size [of held p] by simp
  with few have small: "count ?R p + 1 < 2 ^ 64" by linarith
  have "p \<in> set_mset ?R" using p by simp
  from snd_invD(1) [OF inv] this small obtain s' where s': "snd_borrow_sample env s p = Some ((of_nat (count ?R p), lsize l), s')"
    "snd_refs l (snd_number_of_samples s) s' (set_mset ?R) (add_mset p ?R)" "snd_connections s' = snd_connections s" "snd_fixed s s'"
    by (rule snd_borrow_ok)
  note F = snd_fixedD [OF s'(4)]
  have fl: "snd_flight s' b = snd_flight s b" using s'(3) by (rule snd_flight_cong) (simp add: F)
  have "set_mset ?R = set_mset (add_mset p held + snd_flight s b)" using p by auto
  with inv s' fl have "snd_inv l s' cnt b d (add_mset p held)" by (simp add: snd_inv_def con_inv_fixed [OF s'(4)] F)
  with s' show ?thesis by (intro that)
qed

text \<open>The sample that is sent joins the history, and the oldest one leaves it when it is full.\<close>

definition remembered :: "publisher \<Rightarrow> PointerOffset \<Rightarrow> PointerOffset list" where
  "remembered p x = (let h = history_list (pub_history p) @ [x] in drop (length h - history_capacity (pub_history p)) h)"

lemma pub_add_history_ok:
  assumes inv: "pub_inv l p cnt b loans" and c: "c \<in> set loans"
  obtains p' where "pub_add_sample_to_history env p (chm_offset c) (chm_size c) = Some p'"
    "snd_inv l (pub_sender p') cnt b (\<lambda>_. False) (pub_held p' loans)" "snd_fixed (pub_sender p) (pub_sender p')"
    "snd_connections (pub_sender p') = snd_connections (pub_sender p)"
    "history_deliverable l (mset (history_list (pub_history p'))) (pub_history p')"
    "distinct (loan_offsets (remove1 c loans) @ history_list (pub_history p'))"
    "history_capacity (pub_history p') = history_capacity (pub_history p)" "pub_config p' = pub_config p"
    "pub_is_active p' = pub_is_active p" "history_list (pub_history p') = remembered p (chm_offset c)"
proof (cases "pub_history p")
  case None
  have "distinct (loan_offsets (remove1 c loans))"
    using pub_invD(3) [OF inv] set_remove1_subset [of c loans] by (auto simp: distinct_map intro: inj_on_subset)
  with None pub_invD(1) [OF inv] show ?thesis
    by (intro that [of p]) (simp_all add: pub_add_sample_to_history_def history_deliverable_def history_list_def remembered_def history_capacity_def)
next
  case (Some q)
  let ?s = "pub_sender p" and ?o = "chm_offset c" and ?held = "pub_held p loans"
  let ?e = "\<lparr>oas_offset = po_as_value ?o, oas_size = chm_size c\<rparr>"
  note D = pub_invD [OF inv]
  from D(2) Some have q: "mq_inv q" "0 < mq_capacity q" "\<forall>e \<in> set (mq_content q). oas_size e = lsize l" "distinct (history_offsets q)"
    by (simp_all add: history_deliverable_def history_ok_def)
  have h: "history_list (pub_history p) = history_offsets q" using Some by (simp add: history_list_def)
  have held: "?o \<in># ?held" using c by (auto simp: pub_held_def)
  have few: "size ?held + length (snd_connections ?s) * snd_number_of_channels ?s + 1 < 2 ^ 64"
    using few_references [OF inv] D(8) by simp
  obtain r0 s1 where s1: "snd_borrow_sample env ?s ?o = Some (r0, s1)" "snd_inv l s1 cnt b (\<lambda>_. False) (add_mset ?o ?held)"
    "snd_fixed ?s s1" "snd_connections s1 = snd_connections ?s"
    by (rule snd_borrow_held [OF D(1) held few])
  obtain r q' where push: "mq_push_with_overflow (env_debug env) q ?e = Some (r, q')" "mq_inv q'" "mq_capacity q' = mq_capacity q"
    "if mq_len q < mq_capacity q then r = None \<and> mq_content q' = mq_content q @ [?e]
     else r = Some (hd (mq_content q @ [?e])) \<and> mq_content q' = tl (mq_content q @ [?e])"
    by (rule mq_push_with_overflow_cases [OF q(1,2)])
  have ne: "mq_content q \<noteq> []" if "\<not> mq_len q < mq_capacity q"
  proof -
    have "length (mq_content q) = mq_len q" using q(1) by (simp add: mq_inv_def)
    with that q(2) show ?thesis by auto
  qed
  have split: "history_offsets q @ [?o] = (case r of None \<Rightarrow> [] | Some e \<Rightarrow> [po_from_value (oas_offset e)]) @ history_offsets q'"
    using push(4) ne by (cases "mq_content q") (auto simp: history_offsets_def po_as_value_def po_from_value_def split: if_split_asm)
  have sizes: "\<forall>e \<in> set (mq_content q'). oas_size e = lsize l"
    using push(4) q(3) D(5) [OF c] by (cases "mq_content q") (auto split: if_split_asm)
  have "\<exists>s2. (case r of None \<Rightarrow> Some s1 | Some old \<Rightarrow> snd_release_sample env s1 (po_from_value (oas_offset old))) = Some s2 \<and>
      snd_inv l s2 cnt b (\<lambda>_. False) (mset (loan_offsets loans) + mset (history_offsets q')) \<and> snd_fixed ?s s2 \<and>
      snd_connections s2 = snd_connections ?s"
  proof (cases r)
    case None
    with split have "history_offsets q' = history_offsets q @ [?o]" by simp
    then have m: "add_mset ?o ?held = mset (loan_offsets loans) + mset (history_offsets q')"
      using h by (simp add: pub_held_def)
    from None s1(2) [unfolded m] s1(3,4) show ?thesis by simp
  next
    case (Some e)
    with arg_cong [OF split, of mset] h
    have m: "add_mset ?o ?held = add_mset (po_from_value (oas_offset e)) (mset (loan_offsets loans) + mset (history_offsets q'))"
      by (simp add: pub_held_def)
    obtain s2 where "snd_release_sample env s1 (po_from_value (oas_offset e)) = Some s2"
      "snd_inv l s2 cnt b (\<lambda>_. False) (mset (loan_offsets loans) + mset (history_offsets q'))" "snd_fixed s1 s2" "snd_connections s2 = snd_connections s1"
      by (rule snd_release_held [OF s1(2) [unfolded m]])
    with Some s1(3,4) snd_fixed_trans [of ?s s1 s2] show ?thesis by simp
  qed
  then obtain s2 where s2: "(case r of None \<Rightarrow> Some s1 | Some old \<Rightarrow> snd_release_sample env s1 (po_from_value (oas_offset old))) = Some s2"
    "snd_inv l s2 cnt b (\<lambda>_. False) (mset (loan_offsets loans) + mset (history_offsets q'))" "snd_fixed ?s s2"
    "snd_connections s2 = snd_connections ?s" by blast
  let ?p' = "p\<lparr>pub_sender := s2, pub_history := Some q'\<rparr>"
  have "distinct (loan_offsets (remove1 c loans) @ history_offsets q @ [?o])"
    using D(3) c h set_remove1_subset [of c loans]
    by (auto simp: distinct_map inj_on_eq_iff intro: inj_on_subset)
  then have dist: "distinct (loan_offsets (remove1 c loans) @ history_offsets q')" unfolding split by (auto split: option.split_asm)
  have "history_ok l (mset (history_offsets q')) q'"
    using push(2,3) q(2) sizes dist by (simp add: history_ok_def)
  moreover have "pub_add_sample_to_history env p ?o (chm_size c) = Some ?p'"
    using Some s1(1) push(1) s2(1) by (simp add: pub_add_sample_to_history_def)
  moreover have "history_offsets q' = remembered p ?o"
  proof -
    have "length (mq_content q) = mq_len q" "mq_len q \<le> mq_capacity q" using q(1) by (simp_all add: mq_inv_def)
    then have len: "length (history_offsets q @ [?o]) - mq_capacity q = length (case r of None \<Rightarrow> [] | Some e \<Rightarrow> [po_from_value (oas_offset e)])"
      using push(4) by (auto simp: history_offsets_def split: if_split_asm)
    have "remembered p ?o = drop (length (history_offsets q @ [?o]) - mq_capacity q) (history_offsets q @ [?o])"
      using Some h by (simp add: remembered_def history_capacity_def)
    also have "\<dots> = history_offsets q'" unfolding len unfolding split by simp
    finally show ?thesis ..
  qed
  ultimately show ?thesis using s2 dist push(3) Some
    by (intro that [of ?p']) (simp_all add: pub_held_def history_list_def history_deliverable_def history_capacity_def)
qed

lemma not_in_connection:
  assumes inv: "snd_inv l s cnt b d held" and x: "x \<notin># snd_flight s b" and i: "i < length (snd_connections s)"
    and c: "snd_connections s ! i = Some c" and ch: "ch < snd_number_of_channels s"
  shows "x \<notin> set (in_flight (mgmt_channels (con_sender c) ! ch) (b i ch))"
proof
  assume "x \<in> set (in_flight (mgmt_channels (con_sender c) ! ch) (b i ch))"
  then have "x \<in># con_flight (snd_number_of_channels s) (snd_connections s ! i) (b i)"
    using ch c by (auto simp: con_flight_def set_mset_sum)
  then have "x \<in># snd_flight s b" using i by (auto simp: snd_flight_def set_mset_sum)
  with x show False ..
qed

text \<open>
  A delivery offers the chunk to every connection, as \<open>offered\<close> describes, and counts the
  connections that took it.
\<close>

lemma snd_deliver_offset_ok:
  assumes inv: "snd_inv l s cnt b d held" and nonblocking: "snd_unable_to_deliver_strategy s = DiscardSample \<or> snd_enable_safe_overflow s"
    and ch: "ch < snd_number_of_channels s" and x: "x \<in># held" "x \<notin># snd_flight s b"
    and few: "size held + length (snd_connections s) * snd_number_of_channels s + 1 < 2 ^ 64"
  obtains s1 s' where "snd_retrieve_returned_samples env s = Some s1" "snd_view s1 = snd_view s"
    "snd_enable_safe_overflow s1 = snd_enable_safe_overflow s"
    "snd_deliver_offset env s x (lsize l) ch =
       Some (Delivered (Inr (length (filter (takes s1 ch) [0..<length (snd_connections s)]))), s')"
    "snd_inv l s' cnt b (\<lambda>_. False) held" "snd_fixed s s'" "length (snd_connections s') = length (snd_connections s)"
    "\<forall>j < length (snd_connections s).
       rel_option (offered (snd_enable_safe_overflow s) x ch) (snd_connections s1 ! j) (snd_connections s' ! j)"
    "set_mset (snd_flight s' b) \<subseteq> insert x (set_mset (snd_flight s b))"
proof -
  let ?js = "[0..<length (snd_connections s)]"
  from inv obtain s1 where s1: "snd_retrieve_returned_samples env s = Some s1" "snd_inv l s1 cnt b (\<lambda>_. True) held" "snd_fixed s s1"
    "snd_view s1 = snd_view s" "set_mset (snd_flight s1 b) \<subseteq> set_mset (snd_flight s b)" by (rule snd_retrieve_ok)
  note F = snd_fixedD [OF s1(3)]
  have len: "length (snd_connections s1) = length (snd_connections s)" using s1(4) by (rule snd_view_length)
  have o1: "x \<notin># snd_flight s1 b" using x(2) s1(5) by blast
  have ch1: "ch < snd_number_of_channels s1" using ch F(1) by simp
  have "\<exists>s'. snd_deliver_offset_from env x (lsize l) ch ?js 0 s1 = Some (Delivered (Inr (0 + length (filter (takes s1 ch) ?js))), s') \<and>
    snd_inv l s' cnt b (\<lambda>i. True \<and> i \<notin> set ?js) held \<and> snd_fixed s1 s' \<and> length (snd_connections s') = length (snd_connections s1) \<and>
    (\<forall>j. if j \<in> set ?js then rel_option (offered (snd_enable_safe_overflow s1) x ch) (snd_connections s1 ! j) (snd_connections s' ! j)
      else snd_connections s' ! j = snd_connections s1 ! j) \<and>
    set_mset (snd_flight s' b) \<subseteq> insert x (set_mset (snd_flight s1 b))"
    by (rule snd_deliver_from_ok [OF s1(2)])
      (use nonblocking x(1) few ch1 len not_in_connection [OF s1(2) o1] in \<open>auto simp: F\<close>)
  then obtain s' where s': "snd_deliver_offset_from env x (lsize l) ch ?js 0 s1 = Some (Delivered (Inr (length (filter (takes s1 ch) ?js))), s')"
    "snd_inv l s' cnt b (\<lambda>i. True \<and> i \<notin> set ?js) held" "snd_fixed s1 s'" "length (snd_connections s') = length (snd_connections s1)"
    "\<And>j. j \<in> set ?js \<Longrightarrow> rel_option (offered (snd_enable_safe_overflow s1) x ch) (snd_connections s1 ! j) (snd_connections s' ! j)"
    "set_mset (snd_flight s' b) \<subseteq> insert x (set_mset (snd_flight s1 b))" by fastforce
  have run: "snd_deliver_offset env s x (lsize l) ch = Some (Delivered (Inr (length (filter (takes s1 ch) ?js))), s')"
    using s1(1) s'(1) len by (simp add: snd_deliver_offset_def)
  have inv': "snd_inv l s' cnt b (\<lambda>_. False) held" by (rule snd_inv_weaken [OF s'(2)]) simp
  show ?thesis
    by (rule that [OF s1(1,4) F(11) run inv' snd_fixed_trans [OF s1(3) s'(3)]])
      (use s'(4-6) s1(5) len F(11) in auto)
qed

lemma ports_offered:
  assumes rel: "\<forall>j < length (snd_connections s). rel_option (offered ov x ch) (snd_connections s1 ! j) (snd_connections s' ! j)"
    and view: "snd_view s1 = snd_view s" and fixed: "snd_fixed s s'" "length (snd_connections s') = length (snd_connections s)"
  shows "snd_ports s' = snd_ports s"
proof -
  note len = snd_view_length [OF view]
  let ?f = "map_option (\<lambda>c. (con_receiver_port_id c, con_tag c))"
  have "?f (snd_connections s' ! i) = ?f (snd_connections s ! i)" if i: "i < length (snd_connections s)" for i
  proof -
    have eq: "map_option con_view (snd_connections s1 ! i) = map_option con_view (snd_connections s ! i)"
      using view i len by (metis nth_map snd_view_def)
    have "?f (snd_connections s' ! i) = ?f (snd_connections s1 ! i)"
      using rel i by (cases "snd_connections s1 ! i"; cases "snd_connections s' ! i") (force simp: offered_def)+
    also have "\<dots> = ?f (snd_connections s ! i)"
      using eq by (cases "snd_connections s1 ! i"; cases "snd_connections s ! i") (auto simp: con_view_def)
    finally show ?thesis .
  qed
  with fixed snd_fixedD(6) [OF fixed(1)] show ?thesis by (auto simp: snd_ports_def intro: nth_equalityI)
qed

definition queues_after :: "PointerOffset \<Rightarrow> sender \<Rightarrow> sender \<Rightarrow> bool" where
  "queues_after x s s' \<longleftrightarrow> (\<forall>i < length (snd_connections s). \<forall>c. snd_connections s ! i = Some c \<longrightarrow>
     (\<exists>c'. snd_connections s' ! i = Some c' \<and> con_receiver_port_id c' = con_receiver_port_id c \<and>
        con_queue c' 0 = (if length (con_queue c 0) < con_capacity c 0 then con_queue c 0 @ [x]
          else if snd_enable_safe_overflow s then tl (con_queue c 0) @ [x] else con_queue c 0)))"

lemma connection_of_view:
  assumes view: "snd_view s1 = snd_view s" and i: "i < length (snd_connections s)"
  shows "rel_option (\<lambda>c1 c. con_view c1 = con_view c) (snd_connections s1 ! i) (snd_connections s ! i)"
proof -
  have "map_option con_view (snd_connections s1 ! i) = map_option con_view (snd_connections s ! i)"
    using view i snd_view_length [OF view] by (metis nth_map snd_view_def)
  then show ?thesis by (cases "snd_connections s1 ! i"; cases "snd_connections s ! i") auto
qed

lemma queues_after_offered:
  assumes rel: "\<forall>j < length (snd_connections s). rel_option (offered (snd_enable_safe_overflow s) x 0) (snd_connections s1 ! j) (snd_connections s' ! j)"
    and view: "snd_view s1 = snd_view s"
  shows "queues_after x s s'"
  unfolding queues_after_def
proof (intro allI impI)
  fix i c assume i: "i < length (snd_connections s)" and c: "snd_connections s ! i = Some c"
  from connection_of_view [OF view i] c obtain c1 where c1: "snd_connections s1 ! i = Some c1" "con_view c1 = con_view c"
    by (cases "snd_connections s1 ! i") auto
  with rel i obtain c' where "snd_connections s' ! i = Some c'" "offered (snd_enable_safe_overflow s) x 0 c1 c'"
    by (cases "snd_connections s' ! i") auto
  with con_view_first [OF c1(2)]
  show "\<exists>c'. snd_connections s' ! i = Some c' \<and> con_receiver_port_id c' = con_receiver_port_id c \<and>
        con_queue c' 0 = (if length (con_queue c 0) < con_capacity c 0 then con_queue c 0 @ [x]
          else if snd_enable_safe_overflow s then tl (con_queue c 0) @ [x] else con_queue c 0)"
    using c1(2) by (auto simp: offered_def con_view_def)
qed

lemma takes_view:
  assumes view: "snd_view s1 = snd_view s" and i: "i < length (snd_connections s)"
    and "snd_enable_safe_overflow s1 = snd_enable_safe_overflow s"
  shows "takes s1 0 i = takes s 0 i"
proof (cases "snd_connections s ! i")
  case None
  with connection_of_view [OF view i] show ?thesis by (simp add: takes_def)
next
  case (Some c)
  with connection_of_view [OF view i] obtain c1 where "snd_connections s1 ! i = Some c1" "con_view c1 = con_view c"
    by (cases "snd_connections s1 ! i") auto
  with Some assms(3) con_view_first [of c1 c] show ?thesis by (simp add: takes_def accepts_def)
qed

lemma pub_deliver_ok:
  assumes inv: "pub_inv l p cnt b loans" and c: "c \<in> set loans"
  obtains p2 k s2 s3 where "pub_add_sample_to_history env p (chm_offset c) (chm_size c) = Some p2"
    "snd_deliver_offset env (pub_sender p2) (chm_offset c) (chm_size c) 0 = Some (Delivered (Inr k), s2)"
    "sample_mut_drop env (p2\<lparr>pub_sender := s2\<rparr>) (chm_offset c) = Some (p2\<lparr>pub_sender := s3\<rparr>)"
    "pub_inv l (p2\<lparr>pub_sender := s3\<rparr>) cnt b (remove1 c loans)" "snd_settings (pub_sender p) s3" "snd_ports s3 = snd_ports (pub_sender p)"
    "pub_config p2 = pub_config p" "pub_is_active p2 = pub_is_active p"
    "history_list (pub_history p2) = remembered p (chm_offset c)" "queues_after (chm_offset c) (pub_sender p) s3"
    "k = length (filter (takes (pub_sender p) 0) [0..<length (snd_connections (pub_sender p))])"
proof -
  let ?s = "pub_sender p" and ?x = "chm_offset c" and ?loans = "remove1 c loans"
  note D = pub_invD [OF inv]
  obtain p2 where p2: "pub_add_sample_to_history env p ?x (chm_size c) = Some p2"
    "snd_inv l (pub_sender p2) cnt b (\<lambda>_. False) (pub_held p2 loans)" "snd_fixed ?s (pub_sender p2)"
    "snd_connections (pub_sender p2) = snd_connections ?s"
    "history_deliverable l (mset (history_list (pub_history p2))) (pub_history p2)"
    "distinct (loan_offsets ?loans @ history_list (pub_history p2))"
    "history_capacity (pub_history p2) = history_capacity (pub_history p)" "pub_config p2 = pub_config p" "pub_is_active p2 = pub_is_active p"
    "history_list (pub_history p2) = remembered p ?x"
    by (rule pub_add_history_ok [OF inv c])
  note F = snd_fixedD [OF p2(3)]
  have fl: "snd_flight (pub_sender p2) b = snd_flight ?s b" using p2(4) by (rule snd_flight_cong) (simp add: F)
  have hist: "length (history_list (pub_history p2)) \<le> history_capacity (pub_history p2)"
    using p2(5) by (cases "pub_history p2")
      (auto simp: history_deliverable_def history_ok_def history_list_def history_capacity_def history_offsets_def mq_inv_def)
  have x: "?x \<in># pub_held p2 loans" "?x \<notin># snd_flight (pub_sender p2) b" using c D(4) fl by (auto simp: pub_held_def)
  have nb: "snd_unable_to_deliver_strategy (pub_sender p2) = DiscardSample \<or> snd_enable_safe_overflow (pub_sender p2)" using D(9) by (simp add: F)
  have "size (pub_held p2 loans) + length (snd_connections ?s) + 1 < 2 ^ 64"
    using few_sizes [OF inv] hist p2(7) by (simp add: pub_held_def)
  then have few: "size (pub_held p2 loans) + length (snd_connections (pub_sender p2)) * snd_number_of_channels (pub_sender p2) + 1 < 2 ^ 64"
    using p2(4) F(1) D(8) by simp
  have ch: "0 < snd_number_of_channels (pub_sender p2)" using F(1) D(8) by simp
  obtain s1 s2 where s2: "snd_view s1 = snd_view (pub_sender p2)"
    "snd_deliver_offset env (pub_sender p2) ?x (lsize l) 0 =
       Some (Delivered (Inr (length (filter (takes s1 0) [0..<length (snd_connections (pub_sender p2))]))), s2)"
    "snd_inv l s2 cnt b (\<lambda>_. False) (pub_held p2 loans)" "snd_fixed (pub_sender p2) s2"
    "length (snd_connections s2) = length (snd_connections (pub_sender p2))"
    "\<forall>j < length (snd_connections (pub_sender p2)).
       rel_option (offered (snd_enable_safe_overflow (pub_sender p2)) ?x 0) (snd_connections s1 ! j) (snd_connections s2 ! j)"
    "set_mset (snd_flight s2 b) \<subseteq> insert ?x (set_mset (snd_flight (pub_sender p2) b))"
    "snd_enable_safe_overflow s1 = snd_enable_safe_overflow (pub_sender p2)"
    by (rule snd_deliver_offset_ok [where env = env, OF p2(2) nb ch x few])
  have fixed: "snd_fixed ?s s2" using p2(3) s2(4) by (rule snd_fixed_trans)
  have loans: "0 < snd_loan_counter s2" "snd_loan_counter s2 < 2 ^ 64" "length ?loans = snd_loan_counter s2 - 1"
    using few_sizes [OF inv] c D(6) snd_fixedD(4) [OF fixed] by (auto simp: length_remove1)
  have held: "pub_held p2 loans = add_mset ?x (pub_held p2 ?loans)"
    using c by (simp add: pub_held_def image_mset_Diff)
  obtain s3 where s3: "snd_return_loaned_sample env s2 ?x = Some s3" "snd_inv l s3 cnt b (\<lambda>_. False) (pub_held p2 ?loans)"
    "snd_fixed (s2\<lparr>snd_loan_counter := snd_loan_counter s2 - 1\<rparr>) s3" "snd_connections s3 = snd_connections s2"
    by (rule snd_return_loaned [OF s2(3) [unfolded held] loans(1,2)])
  have "snd_settings s2 s3" using s3(3) by (rule snd_settings_loan) (simp add: s3(4))
  then have set: "snd_settings ?s s3"
    using snd_settings_trans [OF snd_settings_fixed [OF fixed]] s2(5) p2(4) by simp
  have fl3: "snd_flight s3 b = snd_flight s2 b"
    using s3(4) by (rule snd_flight_cong) (simp add: snd_settingsD(4) [OF set] snd_fixedD(1) [OF fixed])
  have sub: "set ?loans \<subseteq> set loans" by (rule set_remove1_subset)
  have gone: "?x \<notin> set (loan_offsets ?loans)" using D(3) c by (auto simp: distinct_map inj_on_eq_iff)
  have "set (loan_offsets ?loans) \<subseteq> set (loan_offsets loans)" using sub by auto
  then have "set (loan_offsets ?loans) \<inter> set_mset (snd_flight s3 b) = {}"
    using s2(7) D(4) gone unfolding fl3 fl by blast
  moreover have "history_deliverable l (pub_held p2 ?loans) (pub_history p2)"
    using p2(5) by (auto simp: history_deliverable_def history_ok_def pub_held_def)
  moreover have "length ?loans \<le> snd_sender_max_borrowed_samples ?s" using D(7) length_remove1 [of c loans] by (auto split: if_split_asm)
  ultimately have inv3: "pub_inv l (p2\<lparr>pub_sender := s3\<rparr>) cnt b ?loans"
    using s3(2) p2(6,7) D(5,7-10) sub loans(3) snd_fixedD(4) [OF s3(3)]
    by (auto simp: pub_inv_def Let_def pub_held_def snd_settingsD [OF set] subset_iff)
  have "snd_ports s2 = snd_ports (pub_sender p2)" using s2(6,1,4,5) by (rule ports_offered)
  then have ports: "snd_ports s3 = snd_ports ?s"
    using s3(4) snd_fixedD(6) [OF s3(3)] p2(4) F(6) by (simp add: snd_ports_def)
  have drop: "sample_mut_drop env (p2\<lparr>pub_sender := s2\<rparr>) ?x = Some (p2\<lparr>pub_sender := s3\<rparr>)"
    using s3(1) by (simp add: sample_mut_drop_def)
  have queues: "queues_after ?x ?s s3"
    using queues_after_offered [OF s2(6,1)] unfolding queues_after_def s3(4) p2(4) F(11) .
  have "takes s1 0 i = takes ?s 0 i" if "i < length (snd_connections ?s)" for i
    using takes_view [OF s2(1) _ s2(8), of i] that unfolding takes_def p2(4) F(11) by blast
  then have count: "filter (takes s1 0) [0..<length (snd_connections (pub_sender p2))] = filter (takes ?s 0) [0..<length (snd_connections ?s)]"
    using p2(4) by (intro filter_cong) simp_all
  show ?thesis
    by (rule that [OF p2(1) s2(2) [folded D(5) [OF c]] drop inv3 set ports p2(8-10) queues]) (simp only: count)
qed

lemma sample_mut_send_ok:
  assumes inv: "pub_inv l p cnt b loans" and c: "c \<in> set loans" and upd: "update_ok p update"
    and env: "env_ok env" and st: "\<And>k. storage_fresh (storages k)"
  obtains r p' where "sample_mut_send env storages update p (chm_offset c) (chm_size c) = Some (Delivered r, p')"
    "pub_inv l p' (peers (pub_sender p) (pub_sender p') cnt [0]) (peers (pub_sender p) (pub_sender p') b (\<lambda>_. [])) (remove1 c loans)"
    "snd_settings (pub_sender p) (pub_sender p')" "pub_config p' = pub_config p" "pub_is_active p' = pub_is_active p"
    "tags_current (pub_sender p) \<Longrightarrow> tags_current (pub_sender p')"
proof -
  let ?s = "pub_sender p"
  obtain r p1 where p1: "(if pub_is_active p then pub_update_connections env storages update p else Some (Inr (), p)) = Some (r, p1)"
    "pub_inv l p1 (peers ?s (pub_sender p1) cnt [0]) (peers ?s (pub_sender p1) b (\<lambda>_. [])) loans"
    "snd_settings ?s (pub_sender p1)" "pub_is_active p1 = pub_is_active p" "pub_config p1 = pub_config p"
    "tags_current ?s \<Longrightarrow> tags_current (pub_sender p1)"
  proof (cases "pub_is_active p")
    case True
    show ?thesis
      by (rule pub_update_ok [where env = env and storages = storages, OF inv upd env st]) (use True that in simp)
  next
    case False
    have "pub_inv l p (peers ?s ?s cnt [0]) (peers ?s ?s b (\<lambda>_. [])) loans" by (rule pub_inv_cong [OF inv]) (simp add: peers_self)
    with False show ?thesis by (intro that [of "Inr ()" p]) (simp_all add: snd_settings_fixed)
  qed
  show ?thesis
  proof (cases "pub_is_active p \<and> r = Inr ()")
    case True
    obtain p2 k s2 s3 where s3: "pub_add_sample_to_history env p1 (chm_offset c) (chm_size c) = Some p2"
      "snd_deliver_offset env (pub_sender p2) (chm_offset c) (chm_size c) 0 = Some (Delivered (Inr k), s2)"
      "sample_mut_drop env (p2\<lparr>pub_sender := s2\<rparr>) (chm_offset c) = Some (p2\<lparr>pub_sender := s3\<rparr>)"
      "pub_inv l (p2\<lparr>pub_sender := s3\<rparr>) (peers ?s (pub_sender p1) cnt [0]) (peers ?s (pub_sender p1) b (\<lambda>_. [])) (remove1 c loans)"
      "snd_settings (pub_sender p1) s3" "snd_ports s3 = snd_ports (pub_sender p1)" "pub_config p2 = pub_config p1" "pub_is_active p2 = pub_is_active p1"
      by (rule pub_deliver_ok [OF p1(2) c])
    have "pub_inv l (p2\<lparr>pub_sender := s3\<rparr>) (peers ?s s3 cnt [0]) (peers ?s s3 b (\<lambda>_. [])) (remove1 c loans)"
      using pub_inv_peers [OF s3(4)] s3(6) by simp
    with p1(1,4,5,6) s3(1-3,7,8) snd_settings_trans [OF p1(3) s3(5)] tags_current_ports [OF s3(6)] True show ?thesis
      by (intro that [of "Inr k" "p2\<lparr>pub_sender := s3\<rparr>"]) (simp_all add: sample_mut_send_def pub_send_sample_def)
  next
    case False
    obtain s' where s': "sample_mut_drop env p1 (chm_offset c) = Some (p1\<lparr>pub_sender := s'\<rparr>)"
      "pub_inv l (p1\<lparr>pub_sender := s'\<rparr>) (peers ?s (pub_sender p1) cnt [0]) (peers ?s (pub_sender p1) b (\<lambda>_. [])) (remove1 c loans)"
      "snd_settings (pub_sender p1) s'" "snd_ports s' = snd_ports (pub_sender p1)"
      by (rule pub_drop_ok [OF p1(2) c])
    have inv': "pub_inv l (p1\<lparr>pub_sender := s'\<rparr>) (peers ?s s' cnt [0]) (peers ?s s' b (\<lambda>_. [])) (remove1 c loans)"
      using pub_inv_peers [OF s'(2)] s'(4) by simp
    have "\<exists>e. sample_mut_send env storages update p (chm_offset c) (chm_size c) = Some (Delivered (Inl e), p1\<lparr>pub_sender := s'\<rparr>)"
      using False p1(1) s'(1) by (cases r) (auto simp: sample_mut_send_def pub_send_sample_def split: if_split_asm)
    then obtain e where "sample_mut_send env storages update p (chm_offset c) (chm_size c) = Some (Delivered (Inl e), p1\<lparr>pub_sender := s'\<rparr>)" ..
    from that [OF this] inv' snd_settings_trans [OF p1(3) s'(3)] p1(4-6) tags_current_ports [OF s'(4)] show ?thesis by simp
  qed
qed

end
