(* ===== verification/Pubsub_Run.thy ===== *)
theory Pubsub_Run
  imports Pubsub_System
begin

text \<open>
  A publisher and its subscribers as one system: the creation of the publisher establishes the
  invariant of \<open>Pubsub_System\<close>, the steps of the publisher and of its subscribers keep it, and the
  guarantees hold in every state that a run reaches.
\<close>

section \<open>Creation\<close>

lemma buckets_exact:
  assumes "0 < a" "a dvd s" "0 < s"
  shows "(start + (s * n + a - 1) - align start a) div align s a = n"
proof -
  have s: "align s a = s" "a \<le> s" using assms by (simp_all add: align_def mod_eq_0_iff_dvd dvd_imp_le)
  define r where "r = start + (s * n + a - 1) - align start a - s * n"
  have "start \<le> align start a" "align start a \<le> start + a - 1" using align_ge align_le assms(1) by blast+
  then have "start + (s * n + a - 1) - align start a = s * n + r" "r < s" using s(2) assms(1) by (auto simp: r_def)
  then show ?thesis using s(1) assms(3) by simp
qed

lemma static_segment_created:
  assumes l: "0 < lsize l" "0 < lalign l" "lalign l dvd lsize l" "lalign l \<le> env_page_size env"
    and storage: "\<And>sz base start. env_create_segment env 0 sz = Inr (base, start) \<Longrightarrow> base \<le> start"
    and n: "0 < n" "n < 2 ^ 24 - 1" "lsize l * n + lalign l - 1 < 2 ^ 56"
  obtains
    (failed) e where "ds_create_static_segment env l n = Some (Inl e)" "\<exists>sz e. env_create_segment env 0 sz = Inl e"
  | (created) m where "ds_create_static_segment env l n = Some (Inr (StaticMemory m))" "segment_refs l n m (ss_new n) {} {#}"
proof -
  let ?payload = "lsize l * n + lalign l - 1"
  let ?create = "env_create_segment env 0"
  have "0 < lsize l * n" using l(1) n(1) by simp
  then have pos: "0 < ?payload" using l(2) by linarith
  have mgmt: "spa_management_size ?payload l = Some (uis_memory_size (?payload div lsize l))"
    using l(1) by (simp add: spa_management_size_def pool_memory_size_def)
  show ?thesis
  proof (cases "?create (?payload + the (spa_management_size ?payload l))")
    case (Inl e)
    with pos mgmt show ?thesis by (intro failed) (auto simp: ds_create_static_segment_def shm_create_def Let_def)
  next
    case (Inr a)
    obtain base start where a: "a = (base, start)" by (cases a)
    have "align start (lalign l) \<le> start + lalign l - 1" using align_le l(2) by blast
    moreover have "lalign l \<le> lsize l" "lsize l * 1 \<le> lsize l * n" using l n(1) dvd_imp_le by (auto intro: mult_le_mono2)
    ultimately have fit: "align start (lalign l) \<le> start + ?payload" by linarith
    obtain m where m: "shm_create (env_debug env) (env_page_size env) ?create ?payload l = Some (Inr m)" "shm_inv m"
      "shm_payload_start_address m = align start (lalign l)" "shm_size m = ?payload"
      "spa_number_of_buckets (shm_pool m) = n" "spa_free (shm_pool m) = spa_offsets (shm_pool m)"
      "pa_bucket_size (spa_allocator (shm_pool m)) = lsize l" "spa_max_alignment (shm_pool m) = lalign l"
      "spa_number_of_used_buckets (shm_pool m) = 0"
      by (rule shm_create_fresh [where dbg = "env_debug env" and create = ?create and payload = ?payload and c = l, OF l(1,2,4) Inr [unfolded a] storage [OF Inr [unfolded a]] fit pos n(3)
        buckets_exact [OF l(2,3,1), symmetric] n(2)])
    have bs: "shm_bucket_size m = Some (lsize l)" "shm_max_alignment m = Some (lalign l)"
      using m(2,7,8) by (auto simp: shm_bucket_size_def shm_max_alignment_def shm_inv_def)
    have "shm_free m = chunks l n" using m(2,6) shm_offsets_chunks [OF m(2) bs(1) m(5)] by (simp add: shm_inv_def)
    with m(2,5) bs have "segment_refs l n m (ss_new n) {} {#}"
      by (auto simp: segment_refs_def ss_new_def chunks_def valid_offset_def segment_of_def)
    with m(1) show ?thesis by (intro created) (simp_all add: ds_create_static_segment_def)
  qed
qed

text \<open>
  What a service and the factory of the publisher ensure: the service never has room for less than one
  sample and one borrowed sample per subscriber, and the segment is small enough for its offsets.
\<close>

definition setup_ok :: "environment \<Rightarrow> nat \<Rightarrow> pubsub_config \<Rightarrow> publisher_config \<Rightarrow> bool" where
  "setup_ok env subscriber_capacity static_config config \<longleftrightarrow>
     (let n = required_amount_of_samples_per_data_segment static_config (puc_max_loaned_samples config);
          l = sample_layout (psc_message_type_details static_config) (puc_initial_max_slice_len config)
      in env_ok env \<and> mtd_ok (psc_message_type_details static_config) \<and> 0 < lsize l \<and> lalign l \<le> env_page_size env \<and>
         puc_allocation_strategy config = Static \<and>
         (puc_unable_to_deliver_strategy config = DiscardSample \<or> psc_enable_safe_overflow static_config) \<and>
         0 < psc_subscriber_max_buffer_size static_config \<and> 0 < psc_subscriber_max_borrowed_samples static_config \<and>
         subscriber_capacity \<le> psc_max_subscribers static_config \<and>
         0 < n \<and> n < 2 ^ 24 - 1 \<and> lsize l * n + lalign l - 1 < 2 ^ 56)"

abbreviation setup_layout :: "pubsub_config \<Rightarrow> publisher_config \<Rightarrow> layout" where
  "setup_layout static_config config \<equiv> sample_layout (psc_message_type_details static_config) (puc_initial_max_slice_len config)"

lemma required_amount_sufficient:
  assumes "0 < psc_subscriber_max_buffer_size c" "0 < psc_subscriber_max_borrowed_samples c" "k \<le> psc_max_subscribers c"
  shows "k * (max 1 (psc_subscriber_max_buffer_size c) + max 1 (psc_subscriber_max_borrowed_samples c)) + psc_history_size c + loans
    \<le> required_amount_of_samples_per_data_segment c loans"
  using assms by (simp add: required_amount_of_samples_per_data_segment_def max_def Suc_le_eq)

lemma pub_fresh_inv:
  assumes ok: "setup_ok env k sc config" and l: "l = setup_layout sc config"
    and seg: "segment_refs l (required_amount_of_samples_per_data_segment sc (puc_max_loaned_samples config)) m
      (ss_new (required_amount_of_samples_per_data_segment sc (puc_max_loaned_samples config))) {} {#}"
    and p: "pub_sender p = pub_new_sender sc config pid k (StaticMemory m)"
      "pub_history p = (if psc_history_size sc = 0 then None else Some (mq_new (psc_history_size sc)))"
  shows "pub_inv l p cnt b []"
proof -
  let ?s = "pub_new_sender sc config pid k (StaticMemory m)"
  let ?n = "required_amount_of_samples_per_data_segment sc (puc_max_loaned_samples config)"
  have s: "snd_connections ?s = replicate k None" "snd_number_of_samples ?s = ?n" "snd_number_of_channels ?s = 1"
    "snd_max_number_of_segments ?s = 1" "snd_data_segment ?s = StaticMemory m" "snd_segment_states ?s = [ss_new ?n]"
    "snd_loan_counter ?s = 0" "snd_sender_max_borrowed_samples ?s = puc_max_loaned_samples config"
    "snd_receiver_max_buffer_size ?s = psc_subscriber_max_buffer_size sc"
    "snd_receiver_max_borrowed_samples ?s = psc_subscriber_max_borrowed_samples sc"
    "snd_unable_to_deliver_strategy ?s = puc_unable_to_deliver_strategy config"
    "snd_enable_safe_overflow ?s = psc_enable_safe_overflow sc"
    using ok by (simp_all add: setup_ok_def Let_def pub_new_sender_def new_from_allocation_strategy_def ds_max_number_of_segments_def)
  have flight: "snd_flight ?s b = {#}" by (simp add: snd_flight_def s)
  have hist: "history_list (pub_history p) = []" "history_capacity (pub_history p) = psc_history_size sc"
    by (simp_all add: p(2) history_list_def history_offsets_def history_capacity_def)
  have inv: "snd_inv l ?s cnt b (\<lambda>_. False) {#}"
    using seg ok by (auto simp: snd_inv_def snd_refs_def flight s setup_ok_def Let_def)
  have "history_deliverable l {#} (pub_history p)"
    by (simp add: history_deliverable_def p(2) history_ok_def history_offsets_def)
  moreover have "k * con_limit ?s + psc_history_size sc + puc_max_loaned_samples config \<le> ?n"
    unfolding con_limit_def s using ok by (intro required_amount_sufficient) (simp_all add: setup_ok_def Let_def)
  ultimately show ?thesis
    using inv ok by (simp add: pub_inv_def Let_def pub_held_def p(1) hist flight s setup_ok_def)
qed

lemma pub_new_ok:
  assumes ok: "setup_ok env k sc config"
    and storage: "\<And>sz base start. env_create_segment env 0 sz = Inr (base, start) \<Longrightarrow> base \<le> start"
    and st: "\<And>i. storage_fresh (storages i)"
    and xs: "distinct (map fst subscribers)" "\<forall>(i, port) \<in> set subscribers. i < k"
  obtains
    (failed) e where "pub_new env create_mgmt storages subscribers k deployed registered pid sc config = Some (Inl e)"
      "\<not> deployed \<or> \<not> registered \<or> (\<exists>sz e. env_create_segment env 0 sz = Inl e)"
  | (created) p where "pub_new env create_mgmt storages subscribers k deployed registered pid sc config = Some (Inr p)"
      "pub_inv (setup_layout sc config) p (\<lambda>_. [0]) (\<lambda>_ _. []) []" "tags_current (pub_sender p)"
      "length (snd_connections (pub_sender p)) = k" "pub_config p = config" "pub_is_active p"
      "snd_message_type_details (pub_sender p) = psc_message_type_details sc"
      "snd_sender_max_borrowed_samples (pub_sender p) = puc_max_loaned_samples config"
      "snd_number_of_samples (pub_sender p) = required_amount_of_samples_per_data_segment sc (puc_max_loaned_samples config)"
      "\<forall>(i, port) \<in> set subscribers. (\<exists>a. storages (sub_subscriber_id port) = Created a) \<and>
         sub_buffer_size port \<le> psc_subscriber_max_buffer_size sc \<longrightarrow> snd_connections (pub_sender p) ! i \<noteq> None"
proof -
  let ?l = "setup_layout sc config" and ?n = "required_amount_of_samples_per_data_segment sc (puc_max_loaned_samples config)"
  have C: "env_ok env" "mtd_ok (psc_message_type_details sc)" "0 < lsize ?l" "lalign ?l \<le> env_page_size env"
    "puc_allocation_strategy config = Static" "0 < ?n" "?n < 2 ^ 24 - 1" "lsize ?l * ?n + lalign ?l - 1 < 2 ^ 56"
    using ok by (simp_all add: setup_ok_def Let_def)
  have eq: "pub_create_segment env create_mgmt sc config = ds_create_static_segment env ?l ?n"
    by (simp add: pub_create_segment_def new_from_allocation_strategy_def C(5))
  show ?thesis
  proof (cases rule: static_segment_created [OF C(3) sample_layout_ge(3,2) [OF C(2)] C(4) storage C(6-8)])
    case (2 e)
    then show ?thesis by (intro failed) (simp_all add: pub_new_def eq)
  next
    case (3 m)
    define p where "p = \<lparr>pub_config = config, pub_sender = pub_new_sender sc config pid k (StaticMemory m),
      pub_subscriber_list = subscribers, pub_history = (if psc_history_size sc = 0 then None else Some (mq_new (psc_history_size sc))),
      pub_is_active = True\<rparr>"
    have p: "pub_sender p = pub_new_sender sc config pid k (StaticMemory m)" "pub_subscriber_list p = subscribers"
      "pub_history p = (if psc_history_size sc = 0 then None else Some (mq_new (psc_history_size sc)))"
      by (simp_all add: p_def)
    have inv: "pub_inv ?l p cnt b []" for cnt b by (rule pub_fresh_inv [OF ok refl 3(2) p(1,3)])
    have none: "snd_connections (pub_sender p) = replicate k None" "snd_message_type_details (pub_sender p) = psc_message_type_details sc"
      "snd_sender_max_borrowed_samples (pub_sender p) = puc_max_loaned_samples config" "snd_number_of_samples (pub_sender p) = ?n"
      "snd_receiver_max_buffer_size (pub_sender p) = psc_subscriber_max_buffer_size sc"
      by (simp_all add: p(1) pub_new_sender_def Let_def)
    have "list_ok (pub_sender p) (pub_subscriber_list p)" using xs by (simp add: list_ok_def p(2) none)
    then obtain r s' where s': "pub_force_update_connections env storages p = Some (r, p\<lparr>pub_sender := s'\<rparr>)"
      "pub_inv ?l (p\<lparr>pub_sender := s'\<rparr>) (peers (pub_sender p) s' (\<lambda>_. [0]) [0]) (peers (pub_sender p) s' (\<lambda>_ _. []) (\<lambda>_. [])) []"
      "snd_settings (pub_sender p) s'" "tags_current (pub_sender p) \<Longrightarrow> updated storages p (pub_subscriber_list p) s'"
      by (rule pub_force_update_ok [where env = env and storages = storages, OF inv _ C(1) st]) blast
    note S = snd_settingsD [OF s'(3)]
    have inv': "pub_inv ?l (p\<lparr>pub_sender := s'\<rparr>) (\<lambda>_. [0]) (\<lambda>_ _. []) []"
      by (rule pub_inv_cong [OF s'(2)]) (simp add: peers_def)
    have "tags_current (pub_sender p)" by (simp add: tags_current_def none)
    then have current: "tags_current s'" using s'(4) by (auto simp: updated_def tags_current_def)
    have open': "\<forall>(i, port) \<in> set subscribers. (\<exists>a. storages (sub_subscriber_id port) = Created a) \<and>
        sub_buffer_size port \<le> psc_subscriber_max_buffer_size sc \<longrightarrow> snd_connections s' ! i \<noteq> None"
      using s'(4) [OF \<open>tags_current (pub_sender p)\<close>] by (fastforce simp: updated_def openable_def p(2) none)
    have new: "pub_new env create_mgmt storages subscribers k deployed registered pid sc config =
        Some (if \<not> deployed then Inl FailedToDeployThreadsafetyPolicy
          else if registered then Inr (p\<lparr>pub_sender := s'\<rparr>) else Inl ExceedsMaxSupportedPublishers)"
      using 3(1) s'(1) by (simp add: pub_new_def eq p_def)
    show ?thesis
    proof (cases "deployed \<and> registered")
      case True
      then show ?thesis
        using new inv' current S none open' by (intro created [of "p\<lparr>pub_sender := s'\<rparr>"]) (simp_all add: p_def)
    next
      case False
      then show ?thesis
        using new by (intro failed [of "if \<not> deployed then FailedToDeployThreadsafetyPolicy else ExceedsMaxSupportedPublishers"]) auto
    qed
  qed
qed

section \<open>The steps of the subscribers\<close>

text \<open>The receiver at connection \<open>i\<close> moves a chunk that stays in flight.\<close>

lemma receiver_step:
  assumes inv: "pub_inv l p cnt b loans" and i: "i < length (snd_connections (pub_sender p))" "snd_connections (pub_sender p) ! i = Some c"
    and con: "con_inv l (pub_sender p) (c\<lparr>con_sender := m\<rparr>) cnt' b' False"
    and same: "mset (in_flight (mgmt_channels m ! 0) (b' 0)) = mset (in_flight (mgmt_channels (con_sender c) ! 0) (b i 0))"
  shows "pub_inv l (p\<lparr>pub_sender := snd_put_management (pub_sender p) i c m\<rparr>) (cnt(i := cnt')) (b(i := b')) loans"
proof -
  let ?s = "pub_sender p"
  let ?s' = "snd_put_management ?s i c m"
  note D = pub_invD [OF inv]
  have cs: "snd_connections ?s' = (snd_connections ?s)[i := Some (c\<lparr>con_sender := m\<rparr>)]"
    by (simp add: snd_put_management_def snd_put_connection_def)
  have fixed: "snd_fixed ?s ?s'" unfolding snd_put_management_def by (rule snd_fixed_put_connection)
  have "snd_flight ?s' (b(i := b')) + con_flight 1 (Some c) (b i) = snd_flight ?s b + con_flight 1 (Some (c\<lparr>con_sender := m\<rparr>)) b'"
    using snd_flight_update [OF i(1) cs snd_fixedD(1) [OF fixed], of "b(i := b')" b] i(2) D(8) by simp
  moreover have "con_flight 1 (Some (c\<lparr>con_sender := m\<rparr>)) b' = con_flight 1 (Some c) (b i)"
    using same by (simp add: con_flight_def)
  ultimately have fl: "snd_flight ?s' (b(i := b')) = snd_flight ?s b" by simp
  have refs: "snd_refs l (snd_number_of_samples ?s) ?s' H R" if "snd_refs l (snd_number_of_samples ?s) ?s H R" for H R
    using that by (simp add: snd_refs_def snd_put_management_def snd_put_connection_def)
  have "snd_inv l ?s' (cnt(i := cnt')) (b(i := b')) (\<lambda>_. False) (pub_held p loans)"
    by (rule snd_inv_put [OF D(1) i(1) fixed cs]) (use refs [OF snd_invD(1) [OF D(1)]] con fl in auto)
  moreover have "snd_settings ?s ?s'" using fixed by (rule snd_settings_fixed) (simp add: cs)
  ultimately show ?thesis
    using D(3-7) fl snd_fixedD(4) [OF fixed] by (intro pub_inv_sender [OF inv]) auto
qed

lemma receive_ok:
  assumes inv: "pub_inv l p cnt b loans" and i: "i < length (snd_connections (pub_sender p))" "snd_connections (pub_sender p) ! i = Some c"
  obtains r m cnt' where "zcc_receive dbg (con_sender c) (cnt i) 0 = Some (r, m, cnt')"
    "pub_inv l (p\<lparr>pub_sender := snd_put_management (pub_sender p) i c m\<rparr>) (cnt(i := cnt'))
       (b(i := (b i)(0 := b i 0 @ (case r of Inr (Some q) \<Rightarrow> [q] | _ \<Rightarrow> [])))) loans"
    "r = (if length (b i 0) = mgmt_max_borrowed_samples (con_sender c) then Inl ReceiveWouldExceedMaxBorrowValue
          else Inr (if con_queue c 0 = [] then None else Some (hd (con_queue c 0))))"
proof -
  note D = pub_invD [OF inv]
  note con = snd_invD(5) [OF D(1) i]
  have ch: "0 < length (mgmt_channels (con_sender c))" and zcc: "zcc_inv (chunk_size l) (con_sender c) (cnt i) (b i)"
    using con_invD(1,4) [OF D(1) con] D(8) by simp_all
  let ?c = "mgmt_channels (con_sender c) ! 0"
  have "\<exists>r m cnt'. zcc_receive dbg (con_sender c) (cnt i) 0 = Some (r, m, cnt') \<and>
    r = (if length (b i 0) = mgmt_max_borrowed_samples (con_sender c) then Inl ReceiveWouldExceedMaxBorrowValue
          else Inr (if con_queue c 0 = [] then None else Some (hd (con_queue c 0)))) \<and>
    mset (in_flight (mgmt_channels m ! 0) (b i 0 @ (case r of Inr (Some q) \<Rightarrow> [q] | _ \<Rightarrow> []))) = mset (in_flight ?c (b i 0))"
    using zcc ch
    by (cases rule: zcc_receive_cases [where dbg = dbg]) (use ch in \<open>auto simp: con_queue_def in_flight_def\<close>)
  then obtain r m cnt' where r: "zcc_receive dbg (con_sender c) (cnt i) 0 = Some (r, m, cnt')"
    "r = (if length (b i 0) = mgmt_max_borrowed_samples (con_sender c) then Inl ReceiveWouldExceedMaxBorrowValue
          else Inr (if con_queue c 0 = [] then None else Some (hd (con_queue c 0))))"
    "mset (in_flight (mgmt_channels m ! 0) (b i 0 @ (case r of Inr (Some q) \<Rightarrow> [q] | _ \<Rightarrow> []))) = mset (in_flight ?c (b i 0))"
    by blast
  have "con_inv l (pub_sender p) (c\<lparr>con_sender := m\<rparr>) cnt' ((b i)(0 := b i 0 @ (case r of Inr (Some q) \<Rightarrow> [q] | _ \<Rightarrow> []))) False"
    using con run_inv_receive [OF _ ch r(1)] by (auto simp: con_inv_def)
  from receiver_step [OF inv i this] r show ?thesis by (intro that) simp_all
qed

lemma release_ok:
  assumes inv: "pub_inv l p cnt b loans" and i: "i < length (snd_connections (pub_sender p))" "snd_connections (pub_sender p) ! i = Some c"
    and q: "q \<in> set (b i 0)"
  obtains m cnt' where "zcc_release dbg (con_sender c) (cnt i) q 0 = Some (Inr (), m, cnt')"
    "pub_inv l (p\<lparr>pub_sender := snd_put_management (pub_sender p) i c m\<rparr>) (cnt(i := cnt')) (b(i := (b i)(0 := remove1 q (b i 0)))) loans"
proof -
  note D = pub_invD [OF inv]
  note con = snd_invD(5) [OF D(1) i]
  have ch: "0 < length (mgmt_channels (con_sender c))" and zcc: "zcc_inv (chunk_size l) (con_sender c) (cnt i) (b i)"
    using con_invD(1,4) [OF D(1) con] D(8) by simp_all
  let ?c = "mgmt_channels (con_sender c) ! 0"
  obtain k where k: "k \<le> snd_receiver_max_buffer_size (pub_sender p)"
    "run_inv (chunk_size l) (connection_builder (pub_sender p) k) (con_sender c) (cnt i) (b i) (\<lambda>_. False)"
    using con by (auto simp: con_inv_def)
  have "\<exists>m cnt'. zcc_release dbg (con_sender c) (cnt i) q 0 = Some (Inr (), m, cnt') \<and>
      mset (in_flight (mgmt_channels m ! 0) (remove1 q (b i 0))) = mset (in_flight ?c (b i 0))"
    using zcc ch q
    by (cases rule: zcc_release_cases [where dbg = dbg]) (use release_not_full [OF k(2) ch q] ch q in \<open>auto simp: in_flight_def\<close>)
  then obtain m cnt' where r: "zcc_release dbg (con_sender c) (cnt i) q 0 = Some (Inr (), m, cnt')"
    "mset (in_flight (mgmt_channels m ! 0) (remove1 q (b i 0))) = mset (in_flight ?c (b i 0))"
    by blast
  have "con_inv l (pub_sender p) (c\<lparr>con_sender := m\<rparr>) cnt' ((b i)(0 := remove1 q (b i 0))) False"
    using k run_inv_release [OF k(2) ch q r(1)] by (auto simp: con_inv_def)
  from receiver_step [OF inv i this] r show ?thesis by (intro that) simp_all
qed

section \<open>Runs\<close>

text \<open>
  The subscriber at connection \<open>i\<close> has the borrow counters \<open>sys_counter i\<close> and has received and not yet
  released the offsets \<open>sys_borrowed i\<close>. The entries of a connection that the publisher opens for another
  port start empty: a subscriber that has left is gone with its samples.
\<close>

record pubsub_system =
  sys_publisher :: publisher
  sys_loans :: "chunk_mut list"
  sys_counter :: "nat \<Rightarrow> nat list"
  sys_borrowed :: "nat \<Rightarrow> ChannelId \<Rightarrow> PointerOffset list"

abbreviation sys_sender :: "pubsub_system \<Rightarrow> sender" where
  "sys_sender y \<equiv> pub_sender (sys_publisher y)"

definition sys_start :: "publisher \<Rightarrow> pubsub_system" where
  "sys_start p = \<lparr>sys_publisher = p, sys_loans = [], sys_counter = (\<lambda>_. [0]), sys_borrowed = (\<lambda>_ _. [])\<rparr>"

definition sys_reconnect :: "pubsub_system \<Rightarrow> publisher \<Rightarrow> chunk_mut list \<Rightarrow> pubsub_system" where
  "sys_reconnect y p loans = \<lparr>sys_publisher = p, sys_loans = loans,
     sys_counter = peers (sys_sender y) (pub_sender p) (sys_counter y) [0],
     sys_borrowed = peers (sys_sender y) (pub_sender p) (sys_borrowed y) (\<lambda>_. [])\<rparr>"

definition sys_loan :: "environment \<Rightarrow> nat \<Rightarrow> pubsub_system \<Rightarrow> ((LoanError + chunk_mut \<times> nat) \<times> pubsub_system) option" where
  "sys_loan env slice_len y = do {
     (r, p) \<leftarrow> pub_loan_slice_uninit env (sys_publisher y) slice_len;
     Some (r, y\<lparr>sys_publisher := p, sys_loans := (case r of Inl _ \<Rightarrow> [] | Inr (c, _) \<Rightarrow> [c]) @ sys_loans y\<rparr>) }"

definition sys_drop :: "environment \<Rightarrow> chunk_mut \<Rightarrow> pubsub_system \<Rightarrow> pubsub_system option" where
  "sys_drop env c y = do {
     p \<leftarrow> sample_mut_drop env (sys_publisher y) (chm_offset c);
     Some (y\<lparr>sys_publisher := p, sys_loans := remove1 c (sys_loans y)\<rparr>) }"

definition sys_send ::
  "environment \<Rightarrow> (port_id \<Rightarrow> storage) \<Rightarrow> subscriber_list option \<Rightarrow> chunk_mut \<Rightarrow> pubsub_system \<Rightarrow> (delivery \<times> pubsub_system) option" where
  "sys_send env storages update c y = do {
     (d, p) \<leftarrow> sample_mut_send env storages update (sys_publisher y) (chm_offset c) (chm_size c);
     Some (d, sys_reconnect y p (remove1 c (sys_loans y))) }"

definition sys_update ::
  "environment \<Rightarrow> (port_id \<Rightarrow> storage) \<Rightarrow> subscriber_list option \<Rightarrow> pubsub_system \<Rightarrow> ((ZeroCopyCreationError + unit) \<times> pubsub_system) option" where
  "sys_update env storages update y = do {
     (r, p) \<leftarrow> pub_update_connections env storages update (sys_publisher y);
     Some (r, sys_reconnect y p (sys_loans y)) }"

definition sys_put :: "pubsub_system \<Rightarrow> nat \<Rightarrow> connection \<Rightarrow> shared_management_data \<Rightarrow> nat list \<Rightarrow> PointerOffset list \<Rightarrow> pubsub_system" where
  "sys_put y i c m cnt bs = y\<lparr>sys_publisher := (sys_publisher y)\<lparr>pub_sender := snd_put_management (sys_sender y) i c m\<rparr>,
     sys_counter := (sys_counter y)(i := cnt), sys_borrowed := (sys_borrowed y)(i := (sys_borrowed y i)(0 := bs))\<rparr>"

definition sys_receive ::
  "environment \<Rightarrow> nat \<Rightarrow> connection \<Rightarrow> pubsub_system \<Rightarrow> ((ZeroCopyReceiveError + PointerOffset option) \<times> pubsub_system) option" where
  "sys_receive env i c y = do {
     (r, m, cnt) \<leftarrow> zcc_receive (env_debug env) (con_sender c) (sys_counter y i) 0;
     Some (r, sys_put y i c m cnt (sys_borrowed y i 0 @ (case r of Inr (Some q) \<Rightarrow> [q] | _ \<Rightarrow> []))) }"

definition sys_release ::
  "environment \<Rightarrow> nat \<Rightarrow> connection \<Rightarrow> PointerOffset \<Rightarrow> pubsub_system \<Rightarrow> ((ZeroCopyReleaseError + unit) \<times> pubsub_system) option" where
  "sys_release env i c q y = do {
     (r, m, cnt) \<leftarrow> zcc_release (env_debug env) (con_sender c) (sys_counter y i) q 0;
     Some (r, sys_put y i c m cnt (remove1 q (sys_borrowed y i 0))) }"

definition connected_at :: "pubsub_system \<Rightarrow> nat \<Rightarrow> connection \<Rightarrow> bool" where
  "connected_at y i c \<longleftrightarrow> i < length (snd_connections (sys_sender y)) \<and> snd_connections (sys_sender y) ! i = Some c"

definition reported :: "nat \<Rightarrow> (port_id \<Rightarrow> storage) \<Rightarrow> subscriber_list option \<Rightarrow> bool" where
  "reported k storages update \<longleftrightarrow> (\<forall>i. storage_fresh (storages i)) \<and>
     (\<forall>xs. update = Some xs \<longrightarrow> distinct (map fst xs) \<and> (\<forall>(i, port) \<in> set xs. i < k))"

inductive pubsub_run :: "environment \<Rightarrow> nat \<Rightarrow> pubsub_config \<Rightarrow> publisher_config \<Rightarrow> pubsub_system \<Rightarrow> bool"
  for env k sc config where
  created: "pub_new env create_mgmt storages subscribers k deployed registered pid sc config = Some (Inr p) \<Longrightarrow>
    reported k storages (Some subscribers) \<Longrightarrow> pubsub_run env k sc config (sys_start p)"
| loaned: "pubsub_run env k sc config y \<Longrightarrow> sys_loan env slice_len y = Some (r, y') \<Longrightarrow> pubsub_run env k sc config y'"
| dropped: "pubsub_run env k sc config y \<Longrightarrow> c \<in> set (sys_loans y) \<Longrightarrow> sys_drop env c y = Some y' \<Longrightarrow> pubsub_run env k sc config y'"
| sent: "pubsub_run env k sc config y \<Longrightarrow> c \<in> set (sys_loans y) \<Longrightarrow> reported k storages update \<Longrightarrow>
    sys_send env storages update c y = Some (d, y') \<Longrightarrow> pubsub_run env k sc config y'"
| updated: "pubsub_run env k sc config y \<Longrightarrow> reported k storages update \<Longrightarrow> sys_update env storages update y = Some (u, y') \<Longrightarrow>
    pubsub_run env k sc config y'"
| received: "pubsub_run env k sc config y \<Longrightarrow> connected_at y i c \<Longrightarrow> sys_receive env i c y = Some (v, y') \<Longrightarrow>
    pubsub_run env k sc config y'"
| released: "pubsub_run env k sc config y \<Longrightarrow> connected_at y i c \<Longrightarrow> q \<in> set (sys_borrowed y i 0) \<Longrightarrow>
    sys_release env i c q y = Some (w, y') \<Longrightarrow> pubsub_run env k sc config y'"
| closed: "pubsub_run env k sc config y \<Longrightarrow> pubsub_run env k sc config (y\<lparr>sys_publisher := pub_drop (sys_publisher y)\<rparr>)"

definition sys_inv :: "nat \<Rightarrow> pubsub_config \<Rightarrow> publisher_config \<Rightarrow> pubsub_system \<Rightarrow> bool" where
  "sys_inv k sc config y \<longleftrightarrow>
     pub_inv (setup_layout sc config) (sys_publisher y) (sys_counter y) (sys_borrowed y) (sys_loans y) \<and>
     pub_config (sys_publisher y) = config \<and> snd_message_type_details (sys_sender y) = psc_message_type_details sc \<and>
     snd_sender_max_borrowed_samples (sys_sender y) = puc_max_loaned_samples config \<and> length (snd_connections (sys_sender y)) = k \<and>
     snd_number_of_samples (sys_sender y) = required_amount_of_samples_per_data_segment sc (puc_max_loaned_samples config) \<and>
     tags_current (sys_sender y)"

lemma sys_invD:
  assumes "sys_inv k sc config y"
  shows "pub_inv (setup_layout sc config) (sys_publisher y) (sys_counter y) (sys_borrowed y) (sys_loans y)"
    "pub_config (sys_publisher y) = config" "snd_message_type_details (sys_sender y) = psc_message_type_details sc"
    "snd_sender_max_borrowed_samples (sys_sender y) = puc_max_loaned_samples config" "length (snd_connections (sys_sender y)) = k"
    "snd_number_of_samples (sys_sender y) = required_amount_of_samples_per_data_segment sc (puc_max_loaned_samples config)"
    "tags_current (sys_sender y)"
  using assms by (simp_all add: sys_inv_def)

lemma reportedD:
  assumes "reported k storages update" "sys_inv k sc config y"
  shows "storage_fresh (storages i)" "update_ok (sys_publisher y) update"
  using assms sys_invD(5) [OF assms(2)] by (simp_all add: reported_def update_ok_def list_ok_def)

lemma setup_loanable:
  assumes "sys_inv k sc config y" "mtd_ok (psc_message_type_details sc)" "n \<le> puc_initial_max_slice_len config"
  shows "loanable (sys_publisher y) (setup_layout sc config) n"
  using assms sys_invD(3) [OF assms(1)]
  by (auto simp: loanable_def snd_sample_layout_def sample_layout_def mtd_ok_def intro!: align_mono diff_le_mono add_le_mono)

lemma sys_loan_cases:
  assumes ok: "setup_ok env k sc config" and inv: "sys_inv k sc config y"
  obtains
    (too_large) "sys_loan env n y = Some (Inl ExceedsMaxLoanSize, y)" "puc_initial_max_slice_len config < n"
  | (exceeds) y' where "sys_loan env n y = Some (Inl ExceedsMaxLoans, y')" "n \<le> puc_initial_max_slice_len config"
      "length (sys_loans y) = puc_max_loaned_samples config" "sys_inv k sc config y'"
  | (loaned) c y' where "sys_loan env n y = Some (Inr (c, n), y')" "n \<le> puc_initial_max_slice_len config"
      "length (sys_loans y) < puc_max_loaned_samples config" "sys_inv k sc config y'" "sys_loans y' = c # sys_loans y"
      "pub_history (sys_publisher y') = pub_history (sys_publisher y)" "sys_borrowed y' = sys_borrowed y"
      "snd_ports (sys_sender y') = snd_ports (sys_sender y)" "pub_is_active (sys_publisher y') = pub_is_active (sys_publisher y)"
proof (cases "puc_initial_max_slice_len config < n")
  case True
  with ok show ?thesis
    by (intro too_large) (simp_all add: sys_loan_def pub_loan_slice_uninit_def pub_loan_slice_uninit_impl_def setup_ok_def Let_def sys_invD(2) [OF inv])
next
  case False
  then have n: "n \<le> puc_initial_max_slice_len config" by simp
  have mtd: "mtd_ok (psc_message_type_details sc)" using ok by (simp add: setup_ok_def Let_def)
  note I = sys_invD [OF inv]
  have run: "sys_loan env n y = Some (case r of Inl e \<Rightarrow> Inl e | Inr c \<Rightarrow> Inr (c, n),
      y\<lparr>sys_publisher := (sys_publisher y)\<lparr>pub_sender := s'\<rparr>, sys_loans := (case r of Inl _ \<Rightarrow> [] | Inr c \<Rightarrow> [c]) @ sys_loans y\<rparr>)"
    if "snd_allocate env (sys_sender y) (snd_sample_layout (sys_sender y) n) = Some (r, s')" for r s'
    using that False
    by (simp add: sys_loan_def pub_loan_slice_uninit_def pub_loan_slice_uninit_impl_def I(2) split: sum.split)
  from I(1) setup_loanable [OF inv mtd n] show ?thesis
  proof (cases rule: pub_loan_cases [where env = env])
    case (exceeds s')
    have "sys_inv k sc config (y\<lparr>sys_publisher := (sys_publisher y)\<lparr>pub_sender := s'\<rparr>\<rparr>)"
      using I exceeds(3) snd_settingsD [OF exceeds(4)] tags_current_ports [OF exceeds(5)] by (simp add: sys_inv_def)
    with n run [OF exceeds(1)] exceeds(2) I(4) that(2) show ?thesis by simp
  next
    case (loaned c s')
    have "sys_inv k sc config (y\<lparr>sys_publisher := (sys_publisher y)\<lparr>pub_sender := s'\<rparr>, sys_loans := c # sys_loans y\<rparr>)"
      using I loaned(3) snd_settingsD [OF loaned(4)] tags_current_ports [OF loaned(5)] by (simp add: sys_inv_def)
    with n run [OF loaned(1)] loaned(2,5) I(4) that(3) show ?thesis by simp
  qed
qed

lemma sys_drop_ok:
  assumes inv: "sys_inv k sc config y" and c: "c \<in> set (sys_loans y)"
  obtains y' where "sys_drop env c y = Some y'" "sys_inv k sc config y'"
proof -
  note I = sys_invD [OF inv]
  obtain s' where s': "sample_mut_drop env (sys_publisher y) (chm_offset c) = Some ((sys_publisher y)\<lparr>pub_sender := s'\<rparr>)"
    "pub_inv (setup_layout sc config) ((sys_publisher y)\<lparr>pub_sender := s'\<rparr>) (sys_counter y) (sys_borrowed y) (remove1 c (sys_loans y))"
    "snd_settings (sys_sender y) s'" "snd_ports s' = snd_ports (sys_sender y)"
    by (rule pub_drop_ok [OF I(1) c])
  let ?y = "y\<lparr>sys_publisher := (sys_publisher y)\<lparr>pub_sender := s'\<rparr>, sys_loans := remove1 c (sys_loans y)\<rparr>"
  have "sys_inv k sc config ?y" using I s'(2) snd_settingsD [OF s'(3)] tags_current_ports [OF s'(4)] by (simp add: sys_inv_def)
  with s'(1) show ?thesis by (intro that [of ?y]) (simp_all add: sys_drop_def)
qed

lemma sys_send_ok:
  assumes ok: "env_ok env" and inv: "sys_inv k sc config y" and c: "c \<in> set (sys_loans y)" and rep: "reported k storages update"
  obtains r y' where "sys_send env storages update c y = Some (Delivered r, y')" "sys_inv k sc config y'"
proof -
  note I = sys_invD [OF inv]
  obtain r p where p: "sample_mut_send env storages update (sys_publisher y) (chm_offset c) (chm_size c) = Some (Delivered r, p)"
    "pub_inv (setup_layout sc config) p (peers (sys_sender y) (pub_sender p) (sys_counter y) [0])
       (peers (sys_sender y) (pub_sender p) (sys_borrowed y) (\<lambda>_. [])) (remove1 c (sys_loans y))"
    "snd_settings (sys_sender y) (pub_sender p)" "pub_config p = pub_config (sys_publisher y)" "tags_current (pub_sender p)"
    by (rule sample_mut_send_ok [where env = env and storages = storages, OF I(1) c reportedD(2) [OF rep inv] ok reportedD(1) [OF rep inv]]) (use I(7) in blast)
  have "sys_inv k sc config (sys_reconnect y p (remove1 c (sys_loans y)))"
    using I p(2,4,5) snd_settingsD [OF p(3)] by (simp add: sys_inv_def sys_reconnect_def)
  with p(1) show ?thesis by (intro that) (simp_all add: sys_send_def)
qed

lemma sys_update_ok:
  assumes ok: "env_ok env" and inv: "sys_inv k sc config y" and rep: "reported k storages update"
  obtains r y' where "sys_update env storages update y = Some (r, y')" "sys_inv k sc config y'"
    "\<forall>xs. update = Some xs \<longrightarrow> updated storages (sys_publisher y) xs (sys_sender y')"
proof -
  note I = sys_invD [OF inv]
  obtain r p where p: "pub_update_connections env storages update (sys_publisher y) = Some (r, p)"
    "pub_inv (setup_layout sc config) p (peers (sys_sender y) (pub_sender p) (sys_counter y) [0])
       (peers (sys_sender y) (pub_sender p) (sys_borrowed y) (\<lambda>_. [])) (sys_loans y)"
    "snd_settings (sys_sender y) (pub_sender p)" "pub_config p = pub_config (sys_publisher y)" "tags_current (pub_sender p)"
    "\<forall>xs. update = Some xs \<longrightarrow> updated storages (sys_publisher y) xs (pub_sender p)"
    by (rule pub_update_ok [where env = env and storages = storages, OF I(1) reportedD(2) [OF rep inv] ok reportedD(1) [OF rep inv]]) (use I(7) in blast)
  have "sys_inv k sc config (sys_reconnect y p (sys_loans y))"
    using I p(2,4,5) snd_settingsD [OF p(3)] by (simp add: sys_inv_def sys_reconnect_def)
  with p(1,6) show ?thesis
    by (intro that [of r "sys_reconnect y p (sys_loans y)"]) (simp_all add: sys_update_def sys_reconnect_def)
qed

lemma sys_put_inv:
  assumes inv: "sys_inv k sc config y" and c: "connected_at y i c"
    and pub: "pub_inv (setup_layout sc config) ((sys_publisher y)\<lparr>pub_sender := snd_put_management (sys_sender y) i c m\<rparr>)
      ((sys_counter y)(i := cnt)) ((sys_borrowed y)(i := (sys_borrowed y i)(0 := bs))) (sys_loans y)"
  shows "sys_inv k sc config (sys_put y i c m cnt bs)"
proof -
  have "snd_ports (snd_put_management (sys_sender y) i c m) = snd_ports (sys_sender y)"
    using c by (simp add: snd_ports_def snd_put_management_def snd_put_connection_def connected_at_def map_update list_update_same_conv)
  with sys_invD [OF inv] pub tags_current_ports [OF this] show ?thesis
    by (simp add: sys_inv_def sys_put_def snd_put_management_def snd_put_connection_def)
qed

lemma sys_receive_ok:
  assumes inv: "sys_inv k sc config y" and c: "connected_at y i c"
  obtains r y' where "sys_receive env i c y = Some (r, y')" "sys_inv k sc config y'"
    "r = (if length (sys_borrowed y i 0) = mgmt_max_borrowed_samples (con_sender c) then Inl ReceiveWouldExceedMaxBorrowValue
          else Inr (if con_queue c 0 = [] then None else Some (hd (con_queue c 0))))"
proof -
  have i: "i < length (snd_connections (sys_sender y))" "snd_connections (sys_sender y) ! i = Some c" using c by (simp_all add: connected_at_def)
  obtain r m cnt' where r: "zcc_receive (env_debug env) (con_sender c) (sys_counter y i) 0 = Some (r, m, cnt')"
    "pub_inv (setup_layout sc config) ((sys_publisher y)\<lparr>pub_sender := snd_put_management (sys_sender y) i c m\<rparr>) ((sys_counter y)(i := cnt'))
       ((sys_borrowed y)(i := (sys_borrowed y i)(0 := sys_borrowed y i 0 @ (case r of Inr (Some q) \<Rightarrow> [q] | _ \<Rightarrow> [])))) (sys_loans y)"
    "r = (if length (sys_borrowed y i 0) = mgmt_max_borrowed_samples (con_sender c) then Inl ReceiveWouldExceedMaxBorrowValue
          else Inr (if con_queue c 0 = [] then None else Some (hd (con_queue c 0))))"
    by (rule receive_ok [OF sys_invD(1) [OF inv] i])
  from sys_put_inv [OF inv c r(2)] r(1,3) show ?thesis by (intro that [of r]) (simp_all add: sys_receive_def)
qed

lemma sys_release_ok:
  assumes inv: "sys_inv k sc config y" and c: "connected_at y i c" and q: "q \<in> set (sys_borrowed y i 0)"
  obtains y' where "sys_release env i c q y = Some (Inr (), y')" "sys_inv k sc config y'"
proof -
  have i: "i < length (snd_connections (sys_sender y))" "snd_connections (sys_sender y) ! i = Some c" using c by (simp_all add: connected_at_def)
  obtain m cnt' where m: "zcc_release (env_debug env) (con_sender c) (sys_counter y i) q 0 = Some (Inr (), m, cnt')"
    "pub_inv (setup_layout sc config) ((sys_publisher y)\<lparr>pub_sender := snd_put_management (sys_sender y) i c m\<rparr>) ((sys_counter y)(i := cnt'))
       ((sys_borrowed y)(i := (sys_borrowed y i)(0 := remove1 q (sys_borrowed y i 0)))) (sys_loans y)"
    by (rule release_ok [OF sys_invD(1) [OF inv] i q])
  from sys_put_inv [OF inv c m(2)] m(1) show ?thesis by (intro that) (simp_all add: sys_release_def)
qed

definition segments_grow :: "environment \<Rightarrow> bool" where
  "segments_grow env \<longleftrightarrow> (\<forall>sz base start. env_create_segment env 0 sz = Inr (base, start) \<longrightarrow> base \<le> start)"

lemma pubsub_run_inv:
  assumes "pubsub_run env k sc config y" and ok: "setup_ok env k sc config" "segments_grow env"
  shows "sys_inv k sc config y"
  using assms(1)
proof induction
  case (created create_mgmt storages subscribers deployed registered pid p)
  have st: "storage_fresh (storages i)" for i using created(2) by (simp add: reported_def)
  have xs: "distinct (map fst subscribers)" "\<forall>(i, port) \<in> set subscribers. i < k" using created(2) by (simp_all add: reported_def)
  have grow: "base \<le> start" if "env_create_segment env 0 sz = Inr (base, start)" for sz base start
    using that ok(2) by (simp add: segments_grow_def)
  show ?case
    by (rule pub_new_ok [where storages = storages and create_mgmt = create_mgmt and deployed = deployed and registered = registered
      and pid = pid, OF ok(1) grow st xs]) (use created(1) in \<open>auto simp: sys_inv_def sys_start_def\<close>)
next
  case (loaned y n r y')
  from ok(1) loaned.IH show ?case by (cases rule: sys_loan_cases [where n = n]) (use loaned in auto)
next
  case (dropped y c y')
  show ?case by (rule sys_drop_ok [where env = env, OF dropped.IH dropped.hyps(2)]) (use dropped in simp)
next
  case (sent y c storages update d y')
  have "env_ok env" using ok(1) by (simp add: setup_ok_def Let_def)
  from sys_send_ok [OF this sent.IH sent.hyps(2,3)] sent.hyps(4) show ?case by auto
next
  case (updated y storages update u y')
  have "env_ok env" using ok(1) by (simp add: setup_ok_def Let_def)
  from sys_update_ok [OF this updated.IH updated.hyps(2)] updated.hyps(3) show ?case by auto
next
  case (received y i c v y')
  from sys_receive_ok [OF received.IH received.hyps(2), where env = env] received.hyps(3) show ?case by auto
next
  case (released y i c q w y')
  from sys_release_ok [OF released.IH released.hyps(2,3), where env = env] released.hyps(4) show ?case by auto
next
  case (closed y)
  from closed.IH show ?case by (simp add: sys_inv_def pub_drop_def pub_inv_def pub_held_def)
qed

lemma sys_chunks:
  assumes inv: "sys_inv k sc config y"
  obtains m where "snd_data_segment (sys_sender y) = StaticMemory m"
    "shm_free m = chunks (setup_layout sc config) (required_amount_of_samples_per_data_segment sc (puc_max_loaned_samples config)) -
      (set (loan_offsets (sys_loans y)) \<union> set (history_list (pub_history (sys_publisher y))) \<union> set_mset (snd_flight (sys_sender y) (sys_borrowed y)))"
proof -
  note I = sys_invD [OF inv]
  from snd_invD(1) [OF pub_invD(1) [OF I(1)]] obtain m st where m: "snd_data_segment (sys_sender y) = StaticMemory m"
    "segment_refs (setup_layout sc config) (snd_number_of_samples (sys_sender y)) m st
       (set_mset (pub_held (sys_publisher y) (sys_loans y) + snd_flight (sys_sender y) (sys_borrowed y)))
       (pub_held (sys_publisher y) (sys_loans y) + snd_flight (sys_sender y) (sys_borrowed y))"
    by (auto simp: snd_refs_def)
  from m(2) I(6) have "shm_free m = chunks (setup_layout sc config) (required_amount_of_samples_per_data_segment sc (puc_max_loaned_samples config)) -
      (set (loan_offsets (sys_loans y)) \<union> set (history_list (pub_history (sys_publisher y))) \<union> set_mset (snd_flight (sys_sender y) (sys_borrowed y)))"
    by (simp add: segment_refs_def pub_held_def)
  with m(1) show ?thesis by (rule that)
qed

lemma in_flight_at:
  assumes inv: "sys_inv k sc config y" and c: "connected_at y i c" and x: "x \<in> set (con_queue c 0) \<union> set (sys_borrowed y i 0)"
  shows "x \<in># snd_flight (sys_sender y) (sys_borrowed y)"
proof (rule ccontr)
  note I = pub_invD [OF sys_invD(1) [OF inv]]
  assume "x \<notin># snd_flight (sys_sender y) (sys_borrowed y)"
  from not_in_connection [OF I(1) this, of i c 0] c I(8) x show False
    by (auto simp: connected_at_def in_flight_def con_queue_def)
qed

section \<open>Guarantees\<close>

text \<open>
  C1: Whatever a publisher with a static segment and its subscribers have done before, no operation
  panics or fails for lack of memory: a loan below the limit of the publisher succeeds, a loaned sample
  can be sent or dropped, connections can be updated with any subscriber list, every subscriber can
  receive, and releasing a received sample never finds the completion queue full. The size of the segment
  that \<open>required_amount_of_samples_per_data_segment\<close> computes is enough for that.
\<close>

theorem pubsub_never_fails:
  assumes "pubsub_run env k sc config y" "setup_ok env k sc config" "segments_grow env"
  shows "(\<forall>n \<le> puc_initial_max_slice_len config. length (sys_loans y) < puc_max_loaned_samples config \<longrightarrow>
        (\<exists>c y'. sys_loan env n y = Some (Inr (c, n), y')))
   \<and> (\<forall>c \<in> set (sys_loans y). (\<exists>y'. sys_drop env c y = Some y') \<and>
        (\<forall>storages update. reported k storages update \<longrightarrow> (\<exists>r y'. sys_send env storages update c y = Some (Delivered r, y'))))
   \<and> (\<forall>storages update. reported k storages update \<longrightarrow> (\<exists>r y'. sys_update env storages update y = Some (r, y')))
   \<and> (\<forall>i c. connected_at y i c \<longrightarrow> (\<exists>r y'. sys_receive env i c y = Some (r, y')) \<and>
        (\<forall>q \<in> set (sys_borrowed y i 0). \<exists>y'. sys_release env i c q y = Some (Inr (), y')))"
proof (intro conjI allI ballI impI)
  note inv = pubsub_run_inv [OF assms]
  have env: "env_ok env" using assms(2) by (simp add: setup_ok_def Let_def)
  show "\<exists>c y'. sys_loan env n y = Some (Inr (c, n), y')"
    if "n \<le> puc_initial_max_slice_len config" "length (sys_loans y) < puc_max_loaned_samples config" for n
    using assms(2) inv by (cases rule: sys_loan_cases [where n = n]) (use that in auto)
  show "\<exists>y'. sys_drop env c y = Some y'" if "c \<in> set (sys_loans y)" for c
    by (rule sys_drop_ok [OF inv that]) blast
  show "\<exists>r y'. sys_send env storages update c y = Some (Delivered r, y')"
    if "c \<in> set (sys_loans y)" "reported k storages update" for c storages update
    by (rule sys_send_ok [OF env inv that]) blast
  show "\<exists>r y'. sys_update env storages update y = Some (r, y')" if "reported k storages update" for storages update
    by (rule sys_update_ok [OF env inv that]) blast
  show "\<exists>r y'. sys_receive env i c y = Some (r, y')" if "connected_at y i c" for i c
    by (rule sys_receive_ok [OF inv that]) blast
  show "\<exists>y'. sys_release env i c q y = Some (Inr (), y')" if "connected_at y i c" "q \<in> set (sys_borrowed y i 0)" for i c q
    by (rule sys_release_ok [OF inv that]) blast
qed


text \<open>
  C3: No chunk is lost and none is free while it is in use: in every state the free chunks of the
  segment are exactly those that are not loaned, not in the history, not queued, borrowed or about to be
  reclaimed in a connection.
\<close>

theorem pubsub_no_leak:
  assumes "pubsub_run env k sc config y" "setup_ok env k sc config" "segments_grow env"
  shows "\<exists>m. snd_data_segment (sys_sender y) = StaticMemory m \<and>
    shm_free m = chunks (setup_layout sc config) (required_amount_of_samples_per_data_segment sc (puc_max_loaned_samples config)) -
      (set (loan_offsets (sys_loans y)) \<union> set (history_list (pub_history (sys_publisher y))) \<union>
       set_mset (snd_flight (sys_sender y) (sys_borrowed y)))"
  by (rule sys_chunks [OF pubsub_run_inv [OF assms]]) blast

lemma sys_send_delivers:
  assumes ok: "env_ok env" and inv: "sys_inv k sc config y" and c: "c \<in> set (sys_loans y)" and rep: "reported k storages update"
    and active: "pub_is_active (sys_publisher y)"
  obtains r p y' where "pub_update_connections env storages update (sys_publisher y) = Some (r, p)"
    "case r of
       Inl e \<Rightarrow> sys_send env storages update c y = Some (Delivered (Inl (SendConnectionError e)), y')
     | Inr _ \<Rightarrow> sys_send env storages update c y =
           Some (Delivered (Inr (length (filter (takes (pub_sender p) 0) [0..<length (snd_connections (pub_sender p))]))), y') \<and>
         queues_after (chm_offset c) (pub_sender p) (sys_sender y') \<and>
         history_list (pub_history (sys_publisher y')) = remembered p (chm_offset c)"
proof -
  note I = sys_invD [OF inv]
  obtain r p where p: "pub_update_connections env storages update (sys_publisher y) = Some (r, p)"
    "pub_inv (setup_layout sc config) p (peers (sys_sender y) (pub_sender p) (sys_counter y) [0])
       (peers (sys_sender y) (pub_sender p) (sys_borrowed y) (\<lambda>_. [])) (sys_loans y)" "pub_is_active p = pub_is_active (sys_publisher y)"
    by (rule pub_update_ok [where env = env and storages = storages, OF I(1) reportedD(2) [OF rep inv] ok reportedD(1) [OF rep inv]]) blast
  obtain d y' where y': "sys_send env storages update c y = Some (Delivered d, y')"
    by (rule sys_send_ok [OF ok inv c rep]) blast
  show ?thesis
  proof (cases r)
    case (Inl e)
    with y' p(1) active have "d = Inl (SendConnectionError e)"
      by (auto simp: sys_send_def sample_mut_send_def pub_send_sample_def split: bind_split_asm)
    with Inl p(1) y' show ?thesis by (intro that [of r p y']) simp_all
  next
    case (Inr u)
    obtain p2 n s2 s3 where s3: "pub_add_sample_to_history env p (chm_offset c) (chm_size c) = Some p2"
      "snd_deliver_offset env (pub_sender p2) (chm_offset c) (chm_size c) 0 = Some (Delivered (Inr n), s2)"
      "sample_mut_drop env (p2\<lparr>pub_sender := s2\<rparr>) (chm_offset c) = Some (p2\<lparr>pub_sender := s3\<rparr>)"
      "history_list (pub_history p2) = remembered p (chm_offset c)" "queues_after (chm_offset c) (pub_sender p) s3"
      "n = length (filter (takes (pub_sender p) 0) [0..<length (snd_connections (pub_sender p))])"
      by (rule pub_deliver_ok [OF p(2) c])
    have "sys_send env storages update c y = Some (Delivered (Inr n), sys_reconnect y (p2\<lparr>pub_sender := s3\<rparr>) (remove1 c (sys_loans y)))"
      using s3(1-3) p(1,3) active Inr by (simp add: sys_send_def sample_mut_send_def pub_send_sample_def)
    with Inr p(1) s3(4-6) show ?thesis
      by (intro that [of r p "sys_reconnect y (p2\<lparr>pub_sender := s3\<rparr>) (remove1 c (sys_loans y))"]) (simp_all add: sys_reconnect_def)
  qed
qed

text \<open>
  C6: Reclaiming the returned samples, a loop that runs until every completion queue is empty,
  terminates in every state: it returns, leaves every completion queue empty and changes neither the
  connections nor what is queued for the subscribers.
\<close>

theorem retrieve_terminates:
  assumes "pubsub_run env k sc config y" "setup_ok env k sc config" "segments_grow env"
  shows "\<exists>s'. snd_retrieve_returned_samples env (sys_sender y) = Some s' \<and> snd_view s' = snd_view (sys_sender y) \<and>
    (\<forall>i < k. \<forall>c. snd_connections s' ! i = Some c \<longrightarrow> completed (mgmt_channels (con_sender c) ! 0) = [])"
proof -
  note inv = pubsub_run_inv [OF assms]
  note D = pub_invD [OF sys_invD(1) [OF inv]]
  obtain s' where "snd_retrieve_returned_samples env (sys_sender y) = Some s'" "snd_view s' = snd_view (sys_sender y)"
    "\<forall>i < length (snd_connections (sys_sender y)). \<forall>ch < snd_number_of_channels (sys_sender y). drained s' i ch"
    by (rule snd_retrieve_ok [OF D(1), of env])
  with D(8) sys_invD(5) [OF inv] show ?thesis by (auto simp: drained_def)
qed

text \<open>
  C4: Sending a sample first updates the connections. If that reports an error the sample is not
  delivered; otherwise it is appended to the queue of every connected subscriber, dropping the oldest
  entry of a full queue when the service overflows safely and skipping the subscriber when not, the
  result is the number of subscribers that got it, and it joins the history.
\<close>

theorem send_delivers:
  assumes "pubsub_run env k sc config y" "setup_ok env k sc config" "segments_grow env"
    "c \<in> set (sys_loans y)" "reported k storages update" "pub_is_active (sys_publisher y)"
  shows "\<exists>r p y'. pub_update_connections env storages update (sys_publisher y) = Some (r, p) \<and>
    (case r of
       Inl e \<Rightarrow> sys_send env storages update c y = Some (Delivered (Inl (SendConnectionError e)), y')
     | Inr _ \<Rightarrow> sys_send env storages update c y =
           Some (Delivered (Inr (length (filter (takes (pub_sender p) 0) [0..<length (snd_connections (pub_sender p))]))), y') \<and>
         queues_after (chm_offset c) (pub_sender p) (sys_sender y') \<and>
         history_list (pub_history (sys_publisher y')) = remembered p (chm_offset c))"
proof -
  have "env_ok env" using assms(2) by (simp add: setup_ok_def Let_def)
  then show ?thesis by (rule sys_send_delivers [OF _ pubsub_run_inv [OF assms(1-3)] assms(4-6)]) blast
qed

text \<open>
  C5: After an update with a subscriber list, every connection belongs to an entry of the list at its
  slot; a subscriber that was connected stays connected with what is queued for it; a subscriber whose
  connection can be created is connected; and a new connection starts with the last samples of the history
  that fit its buffer.
\<close>

theorem update_follows_list:
  assumes "pubsub_run env k sc config y" "setup_ok env k sc config" "segments_grow env" "reported k storages (Some subscribers)"
  shows "\<exists>r y'. sys_update env storages (Some subscribers) y = Some (r, y') \<and> updated storages (sys_publisher y) subscribers (sys_sender y')"
proof -
  have "env_ok env" using assms(2) by (simp add: setup_ok_def Let_def)
  then show ?thesis by (rule sys_update_ok [OF _ pubsub_run_inv [OF assms(1-3)] assms(4)]) blast
qed

section \<open>An example run\<close>

definition example_env :: environment where
  "example_env = \<lparr>env_debug = True, env_page_size = 4096, env_channel_layout = \<lparr>lsize = 64, lalign = 8\<rparr>,
     env_segment_details_layout = \<lparr>lsize = 32, lalign = 8\<rparr>, env_create_segment = (\<lambda>_ _. Inr (4096, 8192))\<rparr>"

definition example_service :: pubsub_config where
  "example_service = \<lparr>psc_max_subscribers = 1, psc_max_publishers = 1, psc_max_nodes = 1, psc_history_size = 1,
     psc_subscriber_max_buffer_size = 2, psc_subscriber_max_borrowed_samples = 1, psc_enable_safe_overflow = True,
     psc_message_type_details = example_types\<rparr>"

definition example_factory :: publisher_config where
  "example_factory = \<lparr>puc_max_loaned_samples = 1, puc_unable_to_deliver_strategy = DiscardSample, puc_degradation_callback = None,
     puc_initial_max_slice_len = 1, puc_allocation_strategy = Static\<rparr>"

definition example_subscribers :: subscriber_list where
  "example_subscribers = [(0, \<lparr>sub_subscriber_id = 7, sub_buffer_size = 2\<rparr>)]"

abbreviation example_storages :: "port_id \<Rightarrow> storage" where
  "example_storages \<equiv> \<lambda>_. Created 4096"

abbreviation example_run :: "pubsub_system \<Rightarrow> bool" where
  "example_run \<equiv> pubsub_run example_env 1 example_service example_factory"

lemma example_setup: "setup_ok example_env 1 example_service example_factory" "segments_grow example_env"
  "reported 1 example_storages (Some example_subscribers)" "reported 1 example_storages None" "env_ok example_env"
  by (simp_all add: setup_ok_def segments_grow_def example_env_def example_service_def example_factory_def example_subscribers_def
      required_amount_of_samples_per_data_segment_def env_ok_def mtd_ok_def sample_layout_def align_def reported_def storage_fresh_def)

lemmas example_inv = pubsub_run_inv [OF _ example_setup(1,2)]

text \<open>A publisher with one connected subscriber, then the same with a loan, a queued and a received sample.\<close>

lemma connected_ports:
  assumes "snd_ports (sys_sender z) = snd_ports (sys_sender y)" "connected_at y i d"
  shows "\<exists>d'. connected_at z i d'"
  using assms snd_ports_length [OF assms(1)] kept_ports(2) [OF assms(1), of i] by (auto simp: connected_at_def)

lemma connected_room:
  assumes inv: "sys_inv k sc config y" and c: "connected_at y i c"
  shows "0 < con_capacity c 0" "0 < mgmt_max_borrowed_samples (con_sender c)"
proof -
  note D = pub_invD [OF sys_invD(1) [OF inv]]
  have con: "con_inv (setup_layout sc config) (sys_sender y) c (sys_counter y i) (sys_borrowed y i) False"
    using snd_invD(5) [OF D(1)] c by (simp add: connected_at_def)
  have ch: "0 < length (mgmt_channels (con_sender c))" using con_invD(1) [OF D(1) con] D(8) by simp
  show "0 < con_capacity c 0" using con_capacity_pos [OF D(1) con ch] by (simp add: con_capacity_def)
  from con obtain k where "created_with (connection_builder (sys_sender y) k) (con_sender c)" by (auto simp: con_inv_def run_inv_def)
  then show "0 < mgmt_max_borrowed_samples (con_sender c)"
    using created_withD(3) [OF _ ch] connection_builder_simps(5) [OF snd_invD(3,2,4) [OF D(1)], of k] by simp
qed

lemma example_start:
  obtains y d where "example_run y" "connected_at y 0 d" "sys_loans y = []" "pub_is_active (sys_publisher y)" "sys_borrowed y 0 0 = []"
proof -
  have grow: "base \<le> start" if "env_create_segment example_env 0 sz = Inr (base, start)" for sz base start
    using that by (simp add: example_env_def)
  have st: "storage_fresh (example_storages i)" for i :: port_id by (simp add: storage_fresh_def)
  have xs: "distinct (map fst example_subscribers)" "\<forall>(i, port) \<in> set example_subscribers. i < 1"
    by (simp_all add: example_subscribers_def)
  obtain p where p: "pub_new example_env (\<lambda>_. Inr (0, 0)) example_storages example_subscribers 1 True True 5 example_service example_factory = Some (Inr p)"
    "length (snd_connections (pub_sender p)) = 1" "pub_is_active p"
    "\<forall>(i, port) \<in> set example_subscribers. (\<exists>a. example_storages (sub_subscriber_id port) = Created a) \<and>
         sub_buffer_size port \<le> psc_subscriber_max_buffer_size example_service \<longrightarrow> snd_connections (pub_sender p) ! i \<noteq> None"
    by (rule pub_new_ok [where create_mgmt = "\<lambda>_. Inr (0, 0)" and storages = example_storages and deployed = True and registered = True and pid = 5,
          OF example_setup(1) grow st xs]) (auto simp: example_env_def)
  from p(4) obtain d where d: "snd_connections (pub_sender p) ! 0 = Some d" by (auto simp: example_subscribers_def example_service_def)
  have "example_run (sys_start p)" by (rule pubsub_run.created [OF p(1) example_setup(3)])
  then show ?thesis using p(2,3) d by (intro that [of "sys_start p" d]) (simp_all add: sys_start_def connected_at_def)
qed

lemma example_loan:
  obtains y c n z d where "example_run y" "sys_loan example_env 1 y = Some (Inr (c, n), z)" "example_run z" "sys_loans z = [c]"
    "pub_is_active (sys_publisher z)" "connected_at z 0 d" "sys_borrowed z 0 0 = []"
proof -
  obtain y d where y: "example_run y" "connected_at y 0 d" "sys_loans y = []" "pub_is_active (sys_publisher y)" "sys_borrowed y 0 0 = []"
    by (rule example_start)
  from example_setup(1) example_inv [OF y(1)] show ?thesis
  proof (cases rule: sys_loan_cases [where n = 1])
    case (loaned c z)
    from connected_ports [OF loaned(8) y(2)] obtain d' where "connected_at z 0 d'" ..
    with loaned y pubsub_run.loaned [OF y(1) loaned(1)] show ?thesis by (intro that [of y c 1 z d']) simp_all
  qed (use y(3) in \<open>simp_all add: example_factory_def\<close>)
qed

lemma example_send:
  obtains z c r w d q qs where "example_run z" "c \<in> set (sys_loans z)" "pub_is_active (sys_publisher z)"
    "sys_send example_env example_storages None c z = Some (Delivered r, w)" "example_run w" "connected_at w 0 d" "con_queue d 0 = q # qs"
    "sys_borrowed w 0 0 = []"
proof -
  obtain z c d where z: "example_run z" "sys_loans z = [c]" "pub_is_active (sys_publisher z)" "connected_at z 0 d" "sys_borrowed z 0 0 = []"
    by (rule example_loan)
  have c: "c \<in> set (sys_loans z)" using z(2) by simp
  obtain r p w where w: "pub_update_connections example_env example_storages None (sys_publisher z) = Some (r, p)"
    "case r of
       Inl e \<Rightarrow> sys_send example_env example_storages None c z = Some (Delivered (Inl (SendConnectionError e)), w)
     | Inr _ \<Rightarrow> sys_send example_env example_storages None c z =
           Some (Delivered (Inr (length (filter (takes (pub_sender p) 0) [0..<length (snd_connections (pub_sender p))]))), w) \<and>
         queues_after (chm_offset c) (pub_sender p) (sys_sender w) \<and>
         history_list (pub_history (sys_publisher w)) = remembered p (chm_offset c)"
    by (rule sys_send_delivers [OF example_setup(5) example_inv [OF z(1)] c example_setup(4) z(3)])
  then have "r = Inr ()" "p = sys_publisher z" by (simp_all add: pub_update_connections_def)
  with w obtain n where n: "sys_send example_env example_storages None c z = Some (Delivered (Inr n), w)"
    "queues_after (chm_offset c) (sys_sender z) (sys_sender w)" by auto
  have run: "example_run w" by (rule pubsub_run.sent [OF z(1) c example_setup(4) n(1)])
  have "0 < con_capacity d 0" using connected_room [OF example_inv [OF z(1)] z(4)] by simp
  with n(2) z(4) obtain d' where d': "snd_connections (sys_sender w) ! 0 = Some d'" "con_queue d' 0 \<noteq> []"
    by (fastforce simp: queues_after_def connected_at_def split: if_split_asm)
  have "connected_at w 0 d'" using d'(1) sys_invD(5) [OF example_inv [OF run]] by (simp add: connected_at_def)
  moreover have "sys_borrowed w 0 0 = []"
    using n(1) z(5) by (auto simp: sys_send_def sys_reconnect_def peers_def split: bind_split_asm)
  moreover obtain q qs where "con_queue d' 0 = q # qs" using d'(2) by (cases "con_queue d' 0") auto
  ultimately show ?thesis using z(1,3) c n(1) run by (intro that [of z c "Inr n" w d' q qs]) simp_all
qed

lemma example_receive:
  obtains y d q where "example_run y" "connected_at y 0 d" "q \<in> set (sys_borrowed y 0 0)"
proof -
  obtain w d q qs where w: "example_run w" "connected_at w 0 d" "con_queue d 0 = q # qs" "sys_borrowed w 0 0 = []"
    by (rule example_send)
  obtain r y where y: "sys_receive example_env 0 d w = Some (r, y)" "sys_inv 1 example_service example_factory y"
    "r = (if length (sys_borrowed w 0 0) = mgmt_max_borrowed_samples (con_sender d) then Inl ReceiveWouldExceedMaxBorrowValue
          else Inr (if con_queue d 0 = [] then None else Some (hd (con_queue d 0))))"
    by (rule sys_receive_ok [OF example_inv [OF w(1)] w(2)])
  have "r = Inr (Some q)" using y(3) w connected_room [OF example_inv [OF w(1)] w(2)] by simp
  with y(1) w(2) have b: "sys_borrowed y 0 0 = [q]" "length (snd_connections (sys_sender y)) = length (snd_connections (sys_sender w))"
      "snd_connections (sys_sender y) ! 0 \<noteq> None"
    using w(4) by (auto simp: sys_receive_def sys_put_def snd_put_management_def snd_put_connection_def connected_at_def split: bind_split_asm)
  then obtain d' where "connected_at y 0 d'" using w(2) by (auto simp: connected_at_def)
  with pubsub_run.received [OF w(1,2) y(1)] b(1) show ?thesis by (intro that [of y d' q]) simp_all
qed

theorem pubsub_never_fails_witness:
  "(\<exists>y c z r w. example_run y \<and> sys_loan example_env 1 y = Some (Inr (c, 1), z) \<and>
      sys_send example_env example_storages None c z = Some (Delivered r, w)) \<and>
   (\<exists>y d q z. example_run y \<and> connected_at y 0 d \<and> q \<in> set (sys_borrowed y 0 0) \<and> sys_release example_env 0 d q y = Some (Inr (), z))"
proof
  obtain y d where y: "example_run y" "connected_at y 0 d" "sys_loans y = []" by (rule example_start)
  with pubsub_never_fails [OF y(1) example_setup(1,2)]
  obtain c z where z: "sys_loan example_env 1 y = Some (Inr (c, 1), z)" by (auto simp: example_factory_def)
  then have c: "c \<in> set (sys_loans z)" by (auto simp: sys_loan_def split: bind_split_asm sum.split_asm)
  from pubsub_never_fails [OF pubsub_run.loaned [OF y(1) z] example_setup(1,2)] c example_setup(4)
  obtain r w where "sys_send example_env example_storages None c z = Some (Delivered r, w)" by blast
  with y(1) z show "\<exists>y c z r w. example_run y \<and> sys_loan example_env 1 y = Some (Inr (c, 1), z) \<and>
      sys_send example_env example_storages None c z = Some (Delivered r, w)" by blast
  obtain y d q where y: "example_run y" "connected_at y 0 d" "q \<in> set (sys_borrowed y 0 0)" by (rule example_receive)
  with pubsub_never_fails [OF y(1) example_setup(1,2)]
  show "\<exists>y d q z. example_run y \<and> connected_at y 0 d \<and> q \<in> set (sys_borrowed y 0 0) \<and> sys_release example_env 0 d q y = Some (Inr (), z)"
    by blast
qed


theorem pubsub_no_leak_witness:
  "\<exists>y d q m. example_run y \<and> connected_at y 0 d \<and> q \<in> set (sys_borrowed y 0 0) \<and> snd_data_segment (sys_sender y) = StaticMemory m \<and> q \<notin> shm_free m"
proof -
  obtain y d q where y: "example_run y" "connected_at y 0 d" "q \<in> set (sys_borrowed y 0 0)" by (rule example_receive)
  from pubsub_no_leak [OF y(1) example_setup(1,2)] obtain m where "snd_data_segment (sys_sender y) = StaticMemory m"
    "shm_free m = chunks (setup_layout example_service example_factory)
       (required_amount_of_samples_per_data_segment example_service (puc_max_loaned_samples example_factory)) -
      (set (loan_offsets (sys_loans y)) \<union> set (history_list (pub_history (sys_publisher y))) \<union>
       set_mset (snd_flight (sys_sender y) (sys_borrowed y)))" by blast
  with y in_flight_at [OF example_inv [OF y(1)] y(2), of q] show ?thesis by blast
qed

theorem retrieve_terminates_witness:
  "\<exists>y s'. example_run y \<and> snd_connections (sys_sender y) ! 0 \<noteq> None \<and> snd_retrieve_returned_samples example_env (sys_sender y) = Some s'"
proof -
  obtain y d q where y: "example_run y" "connected_at y 0 d" "q \<in> set (sys_borrowed y 0 0)" by (rule example_receive)
  with retrieve_terminates [OF y(1) example_setup(1,2)] show ?thesis by (auto simp: connected_at_def)
qed

theorem send_delivers_witness:
  "\<exists>y c n z. example_run y \<and> sys_send example_env example_storages None c y = Some (Delivered (Inr n), z) \<and>
     queues_after (chm_offset c) (sys_sender y) (sys_sender z)"
proof -
  obtain y c where y: "example_run y" "c \<in> set (sys_loans y)" "pub_is_active (sys_publisher y)" by (rule example_send)
  from send_delivers [OF y(1) example_setup(1,2) y(2) example_setup(4) y(3)] y(1) show ?thesis
    by (auto simp: pub_update_connections_def)
qed

theorem update_follows_list_witness:
  "\<exists>y d r z. example_run y \<and> connected_at y 0 d \<and> sys_update example_env example_storages (Some example_subscribers) y = Some (r, z) \<and>
     updated example_storages (sys_publisher y) example_subscribers (sys_sender z)"
proof -
  obtain y d where y: "example_run y" "connected_at y 0 d" by (rule example_start)
  from update_follows_list [OF y(1) example_setup(1-3)] y show ?thesis by blast
qed

end
