(* ===== verification/Port_Receiver.thy ===== *)
theory Port_Receiver
  imports Port_Sender Container_Vec Slot_Map
begin

text \<open>
  The receiving end of a port, \<open>iceoryx2/src/port/details/receiver.rs\<close>, and the subscriber that uses
  it, \<open>subscriber.rs\<close> and \<open>sample.rs\<close>: the connections are kept in a slot map, the keys of the active
  ones in a vector with one slot per sender, and the keys of expired connections that still hold data in
  a vector of bounded size.

  What the operating system returns when a connection, a segment of a sender or a segment that the
  sender added later is opened is a parameter. Removing a connection from the slot map drops it; the
  removal of the shared storage that this may cause is \<open>remove_port\<close> of \<open>Zero_Copy_Setup\<close>.
\<close>

section \<open>Data\<close>

datatype ConnectionFailure =
  FailedToEstablishConnection ZeroCopyCreationError | UnableToMapSendersDataSegment SharedMemoryOpenError

datatype ReceiveError = ExceedsMaxBorrows | ReceiveConnectionFailure ConnectionFailure

record sender_details =
  sdt_port_id :: port_id
  sdt_number_of_samples :: nat
  sdt_max_number_of_segments :: u8
  sdt_data_segment_type :: DataSegmentType

record chunk_details =
  cd_connection_key :: SlotMapKey
  cd_offset :: PointerOffset
  cd_origin :: port_id

record rcv_connection =
  rco_receiver :: shared_management_data
  rco_borrow_counter :: "nat list"
  rco_data_segment :: data_segment_view
  rco_sender_port_id :: port_id
  rco_tag :: tag

text \<open>What is opened for one sender: the storage of the connection and the segments.\<close>

record sender_access =
  sa_storage :: storage
  sa_static :: "DynamicStorageOpenError + (nat \<times> allocator_details)"
  sa_dynamic :: "SharedMemoryOpenError + shm_memory"
  sa_segment :: "SegmentId \<Rightarrow> SharedMemoryOpenError + shm_memory"

type_synonym access = "port_id \<Rightarrow> sender_access"

record receiver =
  rcv_connections :: "SlotMapKey option list"
  rcv_receiver_port_id :: port_id
  rcv_buffer_size :: nat
  rcv_tagger :: cyclic_tagger
  rcv_to_be_removed_connections :: "SlotMapKey meta_vec option"
  rcv_degradation_callback :: "(port_id \<Rightarrow> port_id \<Rightarrow> DegradationAction) option"
  rcv_message_type_details :: message_type_details
  rcv_receiver_max_borrowed_samples :: nat
  rcv_enable_safe_overflow :: bool
  rcv_number_of_channels :: nat
  rcv_connection_storage :: "rcv_connection slot_map"

section \<open>Opening a connection\<close>

definition receiver_builder :: "receiver \<Rightarrow> sender_details \<Rightarrow> zcc_builder" where
  "receiver_builder r d =
     (let b1 = bld_set_buffer_size bld_new (rcv_buffer_size r);
          b2 = bld_set_max_borrowed b1 (rcv_receiver_max_borrowed_samples r);
          b3 = bld_set_enable_safe_overflow b2 (rcv_enable_safe_overflow r);
          b4 = bld_set_samples_per_segment b3 (sdt_number_of_samples d);
          b5 = bld_set_channels b4 (rcv_number_of_channels r);
          b6 = bld_set_initial_channel_state b5 INVALID_CHANNEL_STATE
      in bld_set_segments b6 (sdt_max_number_of_segments d))"

definition rcv_connection_new ::
  "environment \<Rightarrow> access \<Rightarrow> receiver \<Rightarrow> sender_details \<Rightarrow> (ConnectionFailure + rcv_connection) option" where
  "rcv_connection_new env access r d = do {
     let a = access (sdt_port_id d);
     (connected, _, _) \<leftarrow> create_or_open_shm (env_channel_layout env) (env_segment_details_layout env)
       (receiver_builder r d) STATE_RECEIVER (sa_storage a);
     case connected of
       Inl e \<Rightarrow> Some (Inl (FailedToEstablishConnection e))
     | Inr m \<Rightarrow> do {
         segment \<leftarrow> (case sdt_data_segment_type d of
             StaticSegment \<Rightarrow> dsv_open_static_segment (sa_static a)
           | DynamicSegments \<Rightarrow> dsv_open_dynamic_segment (env_debug env) (sa_dynamic a));
         Some (case segment of
             Inl e \<Rightarrow> Inl (UnableToMapSendersDataSegment e)
           | Inr v \<Rightarrow> Inr \<lparr>rco_receiver = m, rco_borrow_counter = receiver_borrow_counter (receiver_builder r d),
               rco_data_segment = v, rco_sender_port_id = sdt_port_id d, rco_tag = create_tag (rcv_tagger r)\<rparr>) } }"

definition rcv_create ::
  "environment \<Rightarrow> access \<Rightarrow> receiver \<Rightarrow> nat \<Rightarrow> sender_details \<Rightarrow> ((ConnectionFailure + unit) \<times> receiver) option" where
  "rcv_create env access r index d = do {
     connection \<leftarrow> rcv_connection_new env access r d;
     case connection of
       Inl e \<Rightarrow> Some (Inl e, r)
     | Inr c \<Rightarrow> do {
         (key, storage) \<leftarrow> sm_insert (env_debug env) (rcv_connection_storage r) c;
         k \<leftarrow> key;
         connections \<leftarrow> slice_set (rcv_connections r) index (Some k);
         Some (Inr (), r\<lparr>rcv_connection_storage := storage, rcv_connections := connections\<rparr>) } }"

section \<open>Returning a chunk\<close>

definition rcv_put :: "environment \<Rightarrow> receiver \<Rightarrow> SlotMapKey \<Rightarrow> rcv_connection \<Rightarrow> receiver option" where
  "rcv_put env r key c = do {
     (_, storage) \<leftarrow> sm_get_mut (env_debug env) (rcv_connection_storage r) key (\<lambda>_. c);
     Some (r\<lparr>rcv_connection_storage := storage\<rparr>) }"

text \<open>A full completion queue is only logged.\<close>

definition rcv_release_offset :: "environment \<Rightarrow> receiver \<Rightarrow> chunk_details \<Rightarrow> ChannelId \<Rightarrow> receiver option" where
  "rcv_release_offset env r chunk channel_id = do {
     found \<leftarrow> sm_get (env_debug env) (rcv_connection_storage r) (cd_connection_key chunk);
     case found of
       None \<Rightarrow> Some r
     | Some connection \<Rightarrow>
         (if rco_sender_port_id connection \<noteq> cd_origin chunk then Some r
          else do {
            v \<leftarrow> dsv_unregister_offset (env_debug env) (rco_data_segment connection) (cd_offset chunk);
            (_, m, counter) \<leftarrow> zcc_release (env_debug env) (rco_receiver connection) (rco_borrow_counter connection)
              (cd_offset chunk) channel_id;
            rcv_put env r (cd_connection_key chunk)
              (connection\<lparr>rco_data_segment := v, rco_receiver := m, rco_borrow_counter := counter\<rparr>) }) }"

section \<open>Channel states\<close>

definition rcv_set_channel_state :: "environment \<Rightarrow> receiver \<Rightarrow> ChannelId \<Rightarrow> u64 \<Rightarrow> (bool \<times> receiver) option" where
  "rcv_set_channel_state env r channel_id state = do {
     entries \<leftarrow> sm_iter (env_debug env) (rcv_connection_storage r);
     for_each (\<lambda>(ret_val, r1) (key, connection). do {
         (ok, m) \<leftarrow> set_channel_state (env_debug env) (rco_receiver connection) channel_id state;
         r2 \<leftarrow> rcv_put env r1 key (connection\<lparr>rco_receiver := m\<rparr>);
         Some (ret_val \<and> ok, r2) }) entries (True, r) }"

fun any_channel_has_state :: "environment \<Rightarrow> ChannelId \<Rightarrow> u64 \<Rightarrow> (SlotMapKey \<times> rcv_connection) list \<Rightarrow> bool option" where
  "any_channel_has_state env channel_id state [] = Some False"
| "any_channel_has_state env channel_id state ((key, connection) # entries) = do {
     v \<leftarrow> zcc_channel_state (env_debug env) (rco_receiver connection) channel_id;
     if v = state then Some True else any_channel_has_state env channel_id state entries }"

definition rcv_at_least_one_channel_has_state :: "environment \<Rightarrow> receiver \<Rightarrow> ChannelId \<Rightarrow> u64 \<Rightarrow> bool option" where
  "rcv_at_least_one_channel_has_state env r channel_id state = do {
     entries \<leftarrow> sm_iter (env_debug env) (rcv_connection_storage r);
     any_channel_has_state env channel_id state entries }"

definition rcv_invalidate_channel_state :: "environment \<Rightarrow> receiver \<Rightarrow> ChannelId \<Rightarrow> u64 \<Rightarrow> receiver option" where
  "rcv_invalidate_channel_state env r channel_id expected_state = do {
     entries \<leftarrow> sm_iter (env_debug env) (rcv_connection_storage r);
     for_each (\<lambda>r1 (key, connection). do {
         m \<leftarrow> invalidate_channel_state (env_debug env) (rco_receiver connection) channel_id expected_state;
         rcv_put env r1 key (connection\<lparr>rco_receiver := m\<rparr>) }) entries r }"

section \<open>Removing a connection\<close>

fun any_channel_has_data :: "environment \<Rightarrow> shared_management_data \<Rightarrow> ChannelId list \<Rightarrow> bool option" where
  "any_channel_has_data env m [] = Some False"
| "any_channel_has_data env m (channel_id # ids) = do {
     has_data \<leftarrow> zcc_has_data (env_debug env) m channel_id;
     if has_data then Some True else any_channel_has_data env m ids }"

definition rcv_drop_connection :: "environment \<Rightarrow> receiver \<Rightarrow> SlotMapKey \<Rightarrow> receiver option" where
  "rcv_drop_connection env r key = do {
     (_, storage) \<leftarrow> sm_remove (env_debug env) (rcv_connection_storage r) key;
     Some (r\<lparr>rcv_connection_storage := storage\<rparr>) }"

definition rcv_prepare_connection_removal :: "environment \<Rightarrow> receiver \<Rightarrow> nat \<Rightarrow> receiver option" where
  "rcv_prepare_connection_removal env r index = (case rcv_to_be_removed_connections r of
      None \<Rightarrow> Some r
    | Some to_be_removed_connections \<Rightarrow> do {
        slot \<leftarrow> slice_get (rcv_connections r) index;
        case slot of
          None \<Rightarrow> Some r
        | Some key \<Rightarrow> do {
            found \<leftarrow> sm_get (env_debug env) (rcv_connection_storage r) key;
            case found of
              None \<Rightarrow> Some r
            | Some connection \<Rightarrow> do {
                keep_connection \<leftarrow> any_channel_has_data env (rco_receiver connection) [0..<rcv_number_of_channels r];
                if keep_connection
                then do {
                  (pushed, v) \<leftarrow> mv_push (env_debug env) to_be_removed_connections key;
                  let r1 = r\<lparr>rcv_to_be_removed_connections := Some v\<rparr>;
                  if pushed then Some r1 else rcv_drop_connection env r1 key }
                else rcv_drop_connection env r key } } })"

definition rcv_remove_connection :: "environment \<Rightarrow> receiver \<Rightarrow> nat \<Rightarrow> receiver option" where
  "rcv_remove_connection env r index = do {
     r1 \<leftarrow> rcv_prepare_connection_removal env r index;
     connections \<leftarrow> slice_set (rcv_connections r1) index None;
     Some (r1\<lparr>rcv_connections := connections\<rparr>) }"

section \<open>Receiving\<close>

fun any_entry_has_data :: "environment \<Rightarrow> ChannelId \<Rightarrow> (SlotMapKey \<times> rcv_connection) list \<Rightarrow> bool option" where
  "any_entry_has_data env channel_id [] = Some False"
| "any_entry_has_data env channel_id ((key, connection) # entries) = do {
     has_data \<leftarrow> zcc_has_data (env_debug env) (rco_receiver connection) channel_id;
     if has_data then Some True else any_entry_has_data env channel_id entries }"

definition rcv_has_samples :: "environment \<Rightarrow> receiver \<Rightarrow> ChannelId \<Rightarrow> bool option" where
  "rcv_has_samples env r channel_id = do {
     entries \<leftarrow> sm_iter (env_debug env) (rcv_connection_storage r);
     any_entry_has_data env channel_id entries }"

fun any_active_has_data :: "environment \<Rightarrow> receiver \<Rightarrow> ChannelId \<Rightarrow> SlotMapKey option list \<Rightarrow> bool option" where
  "any_active_has_data env r channel_id [] = Some False"
| "any_active_has_data env r channel_id (slot # slots) = (case slot of
      None \<Rightarrow> any_active_has_data env r channel_id slots
    | Some key \<Rightarrow> do {
        found \<leftarrow> sm_get (env_debug env) (rcv_connection_storage r) key;
        case found of
          None \<Rightarrow> any_active_has_data env r channel_id slots
        | Some connection \<Rightarrow> do {
            has_data \<leftarrow> zcc_has_data (env_debug env) (rco_receiver connection) channel_id;
            if has_data then Some True else any_active_has_data env r channel_id slots } })"

definition rcv_has_samples_in_active_connection :: "environment \<Rightarrow> receiver \<Rightarrow> ChannelId \<Rightarrow> bool option" where
  "rcv_has_samples_in_active_connection env r channel_id = any_active_has_data env r channel_id (rcv_connections r)"

text \<open>An offset of a dynamic segment that can no longer be mapped is lost.\<close>

definition rcv_receive_from_connection ::
  "environment \<Rightarrow> access \<Rightarrow> receiver \<Rightarrow> rcv_connection \<Rightarrow> SlotMapKey \<Rightarrow> ChannelId \<Rightarrow>
   ((ReceiveError + (chunk_details \<times> chunk) option) \<times> rcv_connection) option" where
  "rcv_receive_from_connection env access r connection connection_key channel_id = do {
     (received, m, counter) \<leftarrow> zcc_receive (env_debug env) (rco_receiver connection) (rco_borrow_counter connection) channel_id;
     let c1 = connection\<lparr>rco_receiver := m, rco_borrow_counter := counter\<rparr>;
     case received of
       Inl ReceiveWouldExceedMaxBorrowValue \<Rightarrow> Some (Inl ExceedsMaxBorrows, c1)
     | Inr None \<Rightarrow> Some (Inr None, c1)
     | Inr (Some offset) \<Rightarrow> do {
         (translated, v) \<leftarrow> dsv_register_and_translate_offset (env_debug env) (sa_segment (access (rco_sender_port_id c1)))
           (rco_data_segment c1) offset;
         let c2 = c1\<lparr>rco_data_segment := v\<rparr>;
         Some (case translated of
             Inl e \<Rightarrow> (if dsv_is_dynamic v then Inr None else Inl (ReceiveConnectionFailure (UnableToMapSendersDataSegment e)), c2)
           | Inr address \<Rightarrow>
               (Inr (Some (\<lparr>cd_connection_key = connection_key, cd_offset = offset, cd_origin = rco_sender_port_id c2\<rparr>,
                  chunk_new (rcv_message_type_details r) address)), c2)) } }"

fun rcv_scan_to_be_removed ::
  "environment \<Rightarrow> access \<Rightarrow> ChannelId \<Rightarrow> (nat \<times> SlotMapKey) list \<Rightarrow> (nat \<times> SlotMapKey) meta_vec \<Rightarrow> receiver \<Rightarrow>
   ((ReceiveError + (chunk_details \<times> chunk) option) \<times> (nat \<times> SlotMapKey) meta_vec \<times> receiver) option" where
  "rcv_scan_to_be_removed env access channel_id [] clean_connections r = Some (Inr None, clean_connections, r)"
| "rcv_scan_to_be_removed env access channel_id ((n, connection_key) # rest) clean_connections r = do {
     found \<leftarrow> sm_get (env_debug env) (rcv_connection_storage r) connection_key;
     case found of
       None \<Rightarrow> do {
         (_, clean1) \<leftarrow> mv_push (env_debug env) clean_connections (n, connection_key);
         rcv_scan_to_be_removed env access channel_id rest clean1 r }
     | Some connection \<Rightarrow> do {
         borrowed \<leftarrow> zcc_borrow_count (rco_borrow_counter connection) channel_id;
         if borrowed = mgmt_max_borrowed_samples (rco_receiver connection)
         then rcv_scan_to_be_removed env access channel_id rest clean_connections r
         else do {
           (result, connection1) \<leftarrow> rcv_receive_from_connection env access r connection connection_key channel_id;
           r1 \<leftarrow> rcv_put env r connection_key connection1;
           case result of
             Inr None \<Rightarrow> do {
               (_, clean1) \<leftarrow> mv_push (env_debug env) clean_connections (n, connection_key);
               rcv_scan_to_be_removed env access channel_id rest clean1 r1 }
           | _ \<Rightarrow> Some (result, clean_connections, r1) } } }"

definition rcv_clean ::
  "environment \<Rightarrow> receiver \<Rightarrow> SlotMapKey meta_vec \<Rightarrow> (nat \<times> SlotMapKey) list \<Rightarrow> receiver option" where
  "rcv_clean env r to_be_removed_connections idxs = do {
     (v, r1) \<leftarrow> for_each (\<lambda>(v, r1) (n, key). do {
         (_, v1) \<leftarrow> mv_remove (env_debug env) v n;
         r2 \<leftarrow> rcv_drop_connection env r1 key;
         Some (v1, r2) }) idxs (to_be_removed_connections, r);
     Some (r1\<lparr>rcv_to_be_removed_connections := Some v\<rparr>) }"

definition rcv_receive_from_to_be_removed_connections ::
  "environment \<Rightarrow> access \<Rightarrow> receiver \<Rightarrow> ChannelId \<Rightarrow> ((ReceiveError + (chunk_details \<times> chunk) option) \<times> receiver) option" where
  "rcv_receive_from_to_be_removed_connections env access r channel_id = (case rcv_to_be_removed_connections r of
      None \<Rightarrow> Some (Inr None, r)
    | Some to_be_removed_connections \<Rightarrow>
        (if mv_is_empty to_be_removed_connections then Some (Inr None, r)
         else do {
           keys \<leftarrow> mv_deref (env_debug env) to_be_removed_connections;
           (result, clean_connections, r1) \<leftarrow> rcv_scan_to_be_removed env access channel_id (zip [0..<length keys] keys)
             (mv_new (mv_capacity to_be_removed_connections)) r;
           case result of
             Inl e \<Rightarrow> Some (Inl e, r1)
           | Inr ret_val \<Rightarrow> do {
               idxs \<leftarrow> mv_deref (env_debug env) clean_connections;
               r2 \<leftarrow> rcv_clean env r1 to_be_removed_connections (rev idxs);
               Some (Inr ret_val, r2) } }))"

fun rcv_receive_loop ::
  "environment \<Rightarrow> access \<Rightarrow> ChannelId \<Rightarrow> (SlotMapKey \<times> rcv_connection) list \<Rightarrow> nat \<Rightarrow> bool \<Rightarrow> receiver \<Rightarrow>
   ((ReceiveError + (chunk_details \<times> chunk) option) \<times> receiver) option" where
  "rcv_receive_loop env access channel_id [] active_channel_count all_channels_exceed_max_borrows r =
     Some (if all_channels_exceed_max_borrows \<and> active_channel_count \<noteq> 0 then Inl ExceedsMaxBorrows else Inr None, r)"
| "rcv_receive_loop env access channel_id ((connection_key, connection) # entries) active_channel_count
     all_channels_exceed_max_borrows r = do {
     has_data \<leftarrow> zcc_has_data (env_debug env) (rco_receiver connection) channel_id;
     if \<not> has_data
     then rcv_receive_loop env access channel_id entries active_channel_count all_channels_exceed_max_borrows r
     else do {
       borrowed \<leftarrow> zcc_borrow_count (rco_borrow_counter connection) channel_id;
       if borrowed \<ge> mgmt_max_borrowed_samples (rco_receiver connection)
       then rcv_receive_loop env access channel_id entries (active_channel_count + 1) all_channels_exceed_max_borrows r
       else do {
         (result, connection1) \<leftarrow> rcv_receive_from_connection env access r connection connection_key channel_id;
         r1 \<leftarrow> rcv_put env r connection_key connection1;
         case result of
           Inr None \<Rightarrow> rcv_receive_loop env access channel_id entries (active_channel_count + 1) False r1
         | _ \<Rightarrow> Some (result, r1) } } }"

definition rcv_receive ::
  "environment \<Rightarrow> access \<Rightarrow> receiver \<Rightarrow> ChannelId \<Rightarrow> ((ReceiveError + (chunk_details \<times> chunk) option) \<times> receiver) option" where
  "rcv_receive env access r channel_id = do {
     (result, r1) \<leftarrow> rcv_receive_from_to_be_removed_connections env access r channel_id;
     case result of
       Inr None \<Rightarrow> do {
         entries \<leftarrow> sm_iter (env_debug env) (rcv_connection_storage r1);
         rcv_receive_loop env access channel_id entries 0 True r1 }
     | _ \<Rightarrow> Some (result, r1) }"

section \<open>Updating the connections\<close>

definition rcv_start_update_connection_cycle :: "receiver \<Rightarrow> receiver" where
  "rcv_start_update_connection_cycle r = r\<lparr>rcv_tagger := next_cycle (rcv_tagger r)\<rparr>"

definition rcv_update_connection ::
  "environment \<Rightarrow> access \<Rightarrow> receiver \<Rightarrow> nat \<Rightarrow> sender_details \<Rightarrow> ((ConnectionFailure + unit) \<times> receiver) option" where
  "rcv_update_connection env access r index d = do {
     slot \<leftarrow> slice_get (rcv_connections r) index;
     (is_connected, r1) \<leftarrow> (case slot of
         None \<Rightarrow> Some (True, r)
       | Some connection_key \<Rightarrow> do {
           found \<leftarrow> sm_get (env_debug env) (rcv_connection_storage r) connection_key;
           case found of
             None \<Rightarrow> Some (True, r)
           | Some connection \<Rightarrow>
               (if rco_sender_port_id connection = sdt_port_id d
                then map_option (Pair False)
                  (rcv_put env r connection_key (connection\<lparr>rco_tag := tag_with (rcv_tagger r) (rco_tag connection)\<rparr>))
                else Some (True, r)) });
     if is_connected
     then do {
       r2 \<leftarrow> rcv_prepare_connection_removal env r1 index;
       (created, r3) \<leftarrow> rcv_create env access r2 index d;
       Some (case created of
           Inr _ \<Rightarrow> Inr ()
         | Inl e \<Rightarrow> (case rcv_degradation_callback r3 of
             None \<Rightarrow> Inr ()
           | Some f \<Rightarrow> if f (sdt_port_id d) (rcv_receiver_port_id r3) = Fail then Inl e else Inr ()), r3) }
     else Some (Inr (), r1) }"

definition rcv_finish_update_connection_cycle :: "environment \<Rightarrow> receiver \<Rightarrow> receiver option" where
  "rcv_finish_update_connection_cycle env r =
     for_each (\<lambda>r1 n. do {
         slot \<leftarrow> slice_get (rcv_connections r1) n;
         case slot of
           None \<Rightarrow> Some r1
         | Some connection_key \<Rightarrow> do {
             found \<leftarrow> sm_get (env_debug env) (rcv_connection_storage r1) connection_key;
             case found of
               None \<Rightarrow> Some r1
             | Some connection \<Rightarrow>
                 (if \<not> was_tagged_by (rco_tag connection) (rcv_tagger r1) then rcv_remove_connection env r1 n else Some r1) } })
       [0..<length (rcv_connections r)] r"

definition rcv_payload_size :: "receiver \<Rightarrow> nat" where
  "rcv_payload_size r = td_size (mtd_payload (rcv_message_type_details r))"

section \<open>Subscribers\<close>

datatype SubscriberCreateError =
  ExceedsMaxSupportedSubscribers | BufferSizeExceedsMaxSupportedBufferSizeOfService | SubscriberFailedToDeployThreadsafetyPolicy

type_synonym publisher_list = "(nat \<times> sender_details) list"

record subscriber =
  sub_receiver :: receiver
  sub_publisher_list :: publisher_list

definition sub_force_update_connections ::
  "environment \<Rightarrow> access \<Rightarrow> subscriber \<Rightarrow> ((ConnectionFailure + unit) \<times> subscriber) option" where
  "sub_force_update_connections env access s = do {
     (result, r) \<leftarrow> for_each (\<lambda>(result, r) (index, details). do {
         (inner_result, r1) \<leftarrow> rcv_update_connection env access r index details;
         Some (case result of Inr _ \<Rightarrow> inner_result | Inl e \<Rightarrow> Inl e, r1) })
       (sub_publisher_list s) (Inr (), rcv_start_update_connection_cycle (sub_receiver s));
     r1 \<leftarrow> rcv_finish_update_connection_cycle env r;
     Some (result, s\<lparr>sub_receiver := r1\<rparr>) }"

text \<open>\<open>update\<close> is the list of publishers when it has changed since the last look.\<close>

definition sub_update_connections ::
  "environment \<Rightarrow> access \<Rightarrow> publisher_list option \<Rightarrow> subscriber \<Rightarrow> ((ConnectionFailure + unit) \<times> subscriber) option" where
  "sub_update_connections env access update s = (case update of
      Some publishers \<Rightarrow> sub_force_update_connections env access (s\<lparr>sub_publisher_list := publishers\<rparr>)
    | None \<Rightarrow> Some (Inr (), s))"

definition sub_has_samples ::
  "environment \<Rightarrow> access \<Rightarrow> publisher_list option \<Rightarrow> subscriber \<Rightarrow> ((ConnectionFailure + bool) \<times> subscriber) option" where
  "sub_has_samples env access update s = do {
     (result, s1) \<leftarrow> sub_update_connections env access update s;
     case result of
       Inl e \<Rightarrow> Some (Inl e, s1)
     | Inr _ \<Rightarrow> do { b \<leftarrow> rcv_has_samples env (sub_receiver s1) 0; Some (Inr b, s1) } }"

definition sub_receive_impl ::
  "environment \<Rightarrow> access \<Rightarrow> publisher_list option \<Rightarrow> subscriber \<Rightarrow>
   ((ReceiveError + (chunk_details \<times> chunk) option) \<times> subscriber) option" where
  "sub_receive_impl env access update s = do {
     (result, s1) \<leftarrow> sub_update_connections env access update s;
     case result of
       Inl e \<Rightarrow> Some (Inl (ReceiveConnectionFailure e), s1)
     | Inr _ \<Rightarrow> do {
         (received, r) \<leftarrow> rcv_receive env access (sub_receiver s1) 0;
         Some (received, s1\<lparr>sub_receiver := r\<rparr>) } }"

definition sample_drop :: "environment \<Rightarrow> subscriber \<Rightarrow> chunk_details \<Rightarrow> subscriber option" where
  "sample_drop env s details = do {
     r \<leftarrow> rcv_release_offset env (sub_receiver s) details 0;
     Some (s\<lparr>sub_receiver := r\<rparr>) }"

record subscriber_config =
  suc_buffer_size :: "nat option"
  suc_degradation_callback :: "(port_id \<Rightarrow> port_id \<Rightarrow> DegradationAction) option"

text \<open>
  Of the service the subscriber reads the buffer size, the number of samples it may borrow, the overflow
  mode, the message type and the capacity of the publisher list, of the configuration the number of
  expired connections it keeps.
\<close>

definition sub_new ::
  "environment \<Rightarrow> access \<Rightarrow> publisher_list \<Rightarrow> nat \<Rightarrow> nat \<Rightarrow> bool \<Rightarrow> bool \<Rightarrow> port_id \<Rightarrow> nat \<Rightarrow> nat \<Rightarrow> bool \<Rightarrow>
   message_type_details \<Rightarrow> subscriber_config \<Rightarrow> (SubscriberCreateError + subscriber) option" where
  "sub_new env access publishers number_of_active_connections number_of_to_be_removed_connections policy_deployed registered
     subscriber_id subscriber_max_buffer_size subscriber_max_borrowed_samples enable_safe_overflow message_type_details config =
     (let buffer_size = (case suc_buffer_size config of Some b \<Rightarrow> b | None \<Rightarrow> subscriber_max_buffer_size)
      in if subscriber_max_buffer_size < buffer_size then Some (Inl BufferSizeExceedsMaxSupportedBufferSizeOfService)
      else do {
        storage \<leftarrow> sm_new (env_debug env) (number_of_to_be_removed_connections + number_of_active_connections);
        if \<not> policy_deployed then Some (Inl SubscriberFailedToDeployThreadsafetyPolicy)
        else do {
          (_, s) \<leftarrow> sub_force_update_connections env access
            \<lparr>sub_receiver = \<lparr>rcv_connections = replicate number_of_active_connections None,
               rcv_receiver_port_id = subscriber_id, rcv_buffer_size = buffer_size, rcv_tagger = tagger_new,
               rcv_to_be_removed_connections = Some (mv_new number_of_to_be_removed_connections),
               rcv_degradation_callback = suc_degradation_callback config, rcv_message_type_details = message_type_details,
               rcv_receiver_max_borrowed_samples = subscriber_max_borrowed_samples, rcv_enable_safe_overflow = enable_safe_overflow,
               rcv_number_of_channels = 1, rcv_connection_storage = storage\<rparr>,
             sub_publisher_list = publishers\<rparr>;
          Some (if registered then Inr s else Inl ExceedsMaxSupportedSubscribers) } })"

end
