(* ===== verification/Key_Store.thy ===== *)
theory Key_Store
  imports Slot_Map
begin

text \<open>
  The interface that the ports see of the slot map: a store of values under keys it hands out, with the
  laws a client relies on, and that the slot map keeps them.
\<close>

section \<open>Interface\<close>

locale key_store =
  fixes inv :: "'s \<Rightarrow> bool" and contents :: "'s \<Rightarrow> nat \<Rightarrow> 'a option" and cap :: "'s \<Rightarrow> nat"
    and lookup :: "'s \<Rightarrow> nat \<Rightarrow> 'a option option" and overwrite :: "'s \<Rightarrow> nat \<Rightarrow> 'a \<Rightarrow> (bool \<times> 's) option"
    and add :: "'s \<Rightarrow> 'a \<Rightarrow> (nat option \<times> 's) option" and delete :: "'s \<Rightarrow> nat \<Rightarrow> (bool \<times> 's) option"
    and entries :: "'s \<Rightarrow> (nat \<times> 'a) list option"
  assumes keys: "inv s \<Longrightarrow> contents s k = Some v \<Longrightarrow> k < cap s"
    and lookup: "inv s \<Longrightarrow> k < cap s \<Longrightarrow> lookup s k = Some (contents s k)"
    and overwrite: "inv s \<Longrightarrow> contents s k = Some v \<Longrightarrow>
      \<exists>s'. overwrite s k w = Some (True, s') \<and> inv s' \<and> contents s' = (contents s)(k \<mapsto> w) \<and> cap s' = cap s"
    and add: "inv s \<Longrightarrow> \<exists>r s'. add s v = Some (r, s') \<and> inv s' \<and> cap s' = cap s \<and>
      (case r of None \<Rightarrow> card (dom (contents s)) = cap s \<and> contents s' = contents s
       | Some k \<Rightarrow> k < cap s \<and> contents s k = None \<and> contents s' = (contents s)(k \<mapsto> v))"
    and delete: "inv s \<Longrightarrow> k < cap s \<Longrightarrow>
      \<exists>s'. delete s k = Some (contents s k \<noteq> None, s') \<and> inv s' \<and> contents s' = (contents s)(k := None) \<and> cap s' = cap s"
    and entries: "inv s \<Longrightarrow> entries s = Some (map (\<lambda>k. (k, the (contents s k))) (filter (\<lambda>k. contents s k \<noteq> None) [0..<cap s]))"
begin

lemma keys_finite: "inv s \<Longrightarrow> finite (dom (contents s))" "inv s \<Longrightarrow> dom (contents s) \<subseteq> {..<cap s}"
proof -
  assume s: "inv s"
  show sub: "dom (contents s) \<subseteq> {..<cap s}" using keys [OF s] by auto
  then show "finite (dom (contents s))" by (rule finite_subset) simp
qed

text \<open>A client whose keys are among fewer than the capacity always gets another one.\<close>

lemma add_room:
  assumes s: "inv s" and K: "finite K" "dom (contents s) \<subseteq> K" "card K < cap s"
  obtains k s' where "add s v = Some (Some k, s')" "inv s'" "cap s' = cap s" "k < cap s" "contents s k = None"
    "contents s' = (contents s)(k \<mapsto> v)"
proof -
  obtain r s' where r: "add s v = Some (r, s')" "inv s'" "cap s' = cap s"
    "case r of None \<Rightarrow> card (dom (contents s)) = cap s \<and> contents s' = contents s
       | Some k \<Rightarrow> k < cap s \<and> contents s k = None \<and> contents s' = (contents s)(k \<mapsto> v)"
    using add [OF s, of v] by blast
  have "card (dom (contents s)) < cap s" using card_mono [OF K(1,2)] K(3) by linarith
  with r that show ?thesis by (cases r) auto
qed

lemma entries_map:
  assumes "inv s"
  obtains es where "entries s = Some es" "distinct (map fst es)" "\<And>k v. (k, v) \<in> set es \<longleftrightarrow> contents s k = Some v"
proof
  show "entries s = Some (map (\<lambda>k. (k, the (contents s k))) (filter (\<lambda>k. contents s k \<noteq> None) [0..<cap s]))"
    using assms by (rule entries)
  show "distinct (map fst (map (\<lambda>k. (k, the (contents s k))) (filter (\<lambda>k. contents s k \<noteq> None) [0..<cap s])))"
    by (simp add: comp_def)
  show "(k, v) \<in> set (map (\<lambda>k. (k, the (contents s k))) (filter (\<lambda>k. contents s k \<noteq> None) [0..<cap s])) \<longleftrightarrow> contents s k = Some v" for k v
    using keys [OF assms, of k v] by auto
qed

end

section \<open>The slot map as a store\<close>

definition sm_store :: "'a slot_map \<Rightarrow> bool" where
  "sm_store m \<longleftrightarrow> sm_inv m \<and> (\<exists>fs. sm_free m fs)"

lemma sm_next_available_key_map:
  assumes inv: "sm_inv m" and ns: "\<forall>n \<in> set ns. n < sm_capacity m"
  shows "sm_next_available_key m ns = Some (case filter (\<lambda>n. sm_map m n \<noteq> None) ns of [] \<Rightarrow> None | n # _ \<Rightarrow> Some (n, the (sm_map m n)))"
  using ns
proof (induction ns)
  case (Cons n ns)
  then have n: "n < sm_capacity m" by simp
  show ?case
  proof (cases "sm_idx_to_data m ! n = INVALID")
    case True
    with Cons n sm_map_None_iff [OF inv n] show ?thesis by (simp add: sm_capacity_def)
  next
    case False
    obtain v where v: "slice_get (sm_data m) (sm_idx_to_data m ! n) = Some (Some v)" "sm_map m n = Some v"
      by (rule sm_data_used [OF inv n False])
    with False n show ?thesis by (simp add: sm_capacity_def)
  qed
qed simp

lemma sm_iter_from_map:
  assumes inv: "sm_inv m"
  shows "sm_iter_from m key = Some (map (\<lambda>k. (k, the (sm_map m k))) (filter (\<lambda>k. sm_map m k \<noteq> None) [key..<sm_capacity m]))"
proof (induction "sm_capacity m - key" arbitrary: key rule: less_induct)
  case less
  let ?f = "\<lambda>key. filter (\<lambda>k. sm_map m k \<noteq> None) [key..<sm_capacity m]"
  have step: "sm_next_available_key_after m key = Some (case ?f key of [] \<Rightarrow> None | n # _ \<Rightarrow> Some (n, the (sm_map m n)))"
    unfolding sm_next_available_key_after_def sm_capacity_def [symmetric]
    by (rule sm_next_available_key_map [OF inv]) simp
  show ?case
  proof (cases "?f key")
    case Nil
    with step show ?thesis by (simp add: sm_iter_from.simps [of m key])
  next
    case (Cons n ns)
    then have "n \<in> set (?f key)" by simp
    then have n: "key \<le> n" "n < sm_capacity m" "sm_map m n \<noteq> None" by auto
    have split: "[key..<sm_capacity m] = [key..<n] @ n # [Suc n..<sm_capacity m]"
      using n upt_add_eq_append [of key n "sm_capacity m - n"] upt_conv_Cons [of n "sm_capacity m"] by simp
    have "ns = ?f (n + 1)"
    proof -
      have "filter (\<lambda>k. sm_map m k \<noteq> None) [key..<n] = []"
      proof (rule ccontr)
        assume "filter (\<lambda>k. sm_map m k \<noteq> None) [key..<n] \<noteq> []"
        then obtain a as where a: "filter (\<lambda>k. sm_map m k \<noteq> None) [key..<n] = a # as" by (auto simp: neq_Nil_conv)
        with Cons split have "a = n" by simp
        moreover have "a \<in> set [key..<n]" using arg_cong [OF a, of set] by auto
        ultimately show False by simp
      qed
      with Cons split n(3) show ?thesis by simp
    qed
    moreover have "sm_iter_from m (n + 1) = Some (map (\<lambda>k. (k, the (sm_map m k))) (?f (n + 1)))"
      using n by (intro less) simp
    ultimately show ?thesis using step Cons by (simp add: sm_iter_from.simps [of m key])
  qed
qed


lemma sm_iter_map:
  "sm_inv m \<Longrightarrow> sm_iter dbg m = Some (map (\<lambda>k. (k, the (sm_map m k))) (filter (\<lambda>k. sm_map m k \<noteq> None) [0..<sm_capacity m]))"
  by (simp add: sm_iter_def sm_verify_init_def sm_invD(1) sm_iter_from_map)

lemma sm_store_overwrite:
  assumes "sm_store m" "sm_map m k = Some v"
  obtains m' where "sm_get_mut dbg m k (\<lambda>_. w) = Some (True, m')" "sm_store m'" "sm_map m' = (sm_map m)(k \<mapsto> w)"
    "sm_capacity m' = sm_capacity m"
proof -
  from assms(1) obtain fs where inv: "sm_inv m" and free: "sm_free m fs" by (auto simp: sm_store_def)
  from assms(2) have k: "k < sm_capacity m" "sm_idx_to_data m ! k \<noteq> INVALID" by (auto simp: sm_map_def split: if_split_asm)
  let ?m = "m\<lparr>sm_data := (sm_data m)[sm_idx_to_data m ! k := Some w]\<rparr>"
  obtain v' where "slice_get (sm_data m) (sm_idx_to_data m ! k) = Some (Some v')" by (rule sm_data_used [OF inv k])
  with k sm_invD(1) [OF inv] have "sm_get_mut dbg m k (\<lambda>_. w) = Some (True, ?m)"
    by (simp add: sm_get_mut_def sm_verify_init_def sm_capacity_def)
  moreover have "sm_free ?m fs" using free by (simp add: sm_free_def sm_capacity_def)
  ultimately show ?thesis
    using sm_map_overwrite [OF inv k, of w] by (intro that [of ?m]) (auto simp: sm_store_def sm_capacity_def)
qed

lemma sm_store_step:
  assumes "sm_store m" "sm_op_valid (sm_capacity m) op"
  obtains r m' where "slot_step dbg m op = Some (r, m')" "map_step (sm_capacity m) (sm_map m) op r (sm_map m')" "sm_store m'"
    "sm_capacity m' = sm_capacity m"
proof -
  from assms(1) obtain fs where "sm_inv m" "sm_free m fs" by (auto simp: sm_store_def)
  then show ?thesis by (rule slot_step_refines [OF _ _ assms(2), of _ dbg]) (use that in \<open>auto simp: sm_store_def\<close>)
qed

interpretation slot_store: key_store sm_store sm_map sm_capacity "sm_get dbg" "\<lambda>m k v. sm_get_mut dbg m k (\<lambda>_. v)"
  "sm_insert dbg" "sm_remove dbg" "sm_iter dbg" for dbg
proof unfold_locales
  fix m :: "'a slot_map" and k and v w :: 'a
  assume m: "sm_store m"
  then have inv: "sm_inv m" by (simp add: sm_store_def)
  show "k < sm_capacity m" if "sm_map m k = Some v" using that by (auto simp: sm_map_def split: if_split_asm)
  show "sm_get dbg m k = Some (sm_map m k)" if "k < sm_capacity m" using inv that by (rule sm_get_map)
  show "\<exists>m'. sm_get_mut dbg m k (\<lambda>_. w) = Some (True, m') \<and> sm_store m' \<and> sm_map m' = (sm_map m)(k \<mapsto> w) \<and> sm_capacity m' = sm_capacity m"
    if "sm_map m k = Some v" by (rule sm_store_overwrite [OF m that]) blast
  show "\<exists>r m'. sm_insert dbg m v = Some (r, m') \<and> sm_store m' \<and> sm_capacity m' = sm_capacity m \<and>
      (case r of None \<Rightarrow> card (dom (sm_map m)) = sm_capacity m \<and> sm_map m' = sm_map m
       | Some k \<Rightarrow> k < sm_capacity m \<and> sm_map m k = None \<and> sm_map m' = (sm_map m)(k \<mapsto> v))"
    by (rule sm_store_step [OF m, of "SInsert v" dbg]) (auto simp: domIff apfst_def map_prod_def)
  show "\<exists>m'. sm_remove dbg m k = Some (sm_map m k \<noteq> None, m') \<and> sm_store m' \<and> sm_map m' = (sm_map m)(k := None) \<and> sm_capacity m' = sm_capacity m"
    if "k < sm_capacity m"
    by (rule sm_store_step [OF m, of "SRemove k" dbg]) (use that in \<open>auto simp: domIff apfst_def map_prod_def\<close>)
  show "sm_iter dbg m = Some (map (\<lambda>k. (k, the (sm_map m k))) (filter (\<lambda>k. sm_map m k \<noteq> None) [0..<sm_capacity m]))"
    using inv by (rule sm_iter_map)
qed

lemma sm_store_new:
  assumes "0 < capacity" "capacity < INVALID"
  obtains m :: "'a slot_map" where "sm_new dbg capacity = Some m" "sm_store m" "sm_map m = Map.empty" "sm_capacity m = capacity"
  by (rule sm_new_fresh [OF assms, of dbg]) (auto simp: sm_store_def)

end
