(* ===== verification/Receiver_Connections.thy ===== *)
theory Receiver_Connections
  imports Port_Receiver Sender_Connections Key_Store
begin

text \<open>
  The invariant of a receiver: every stored connection is either in a slot or expired, so that the
  storage has room for a connection per slot, and the connections are those of the protocol of
  \<open>Zero_Copy_Protocol\<close>. Every operation of the receiver returns and keeps it.
\<close>

section \<open>Views of segments\<close>

definition dsv_ok :: "data_segment_view \<Rightarrow> bool" where
  "dsv_ok v = (case v of StaticView _ \<Rightarrow> True
     | DynamicView d \<Rightarrow> sm_ok (dv_shared_memory_map d) \<and> sm_capacity (dv_shared_memory_map d) = MAX_NUMBER_OF_REALLOCATIONS \<and>
         (dv_current_idx d = INVALID_KEY \<or> dv_current_idx d < MAX_NUMBER_OF_REALLOCATIONS))"

lemma segment_id_key: "unat (s :: SegmentId) < MAX_NUMBER_OF_REALLOCATIONS"
  using unat_less_exp [of s] by (simp add: MAX_256)

lemma dv_release_old_ok:
  assumes "sm_ok m" "old = INVALID_KEY \<or> old < sm_capacity m"
  obtains m' where "dv_release_old_unused_segments dbg m old = Some m'" "sm_ok m'" "sm_capacity m' = sm_capacity m"
proof (cases "old \<noteq> INVALID_KEY \<and> (\<exists>e. sm_map m old = Some e \<and> se_chunk_count e = 0)")
  case True
  then obtain e where e: "old \<noteq> INVALID_KEY" "sm_map m old = Some e" "se_chunk_count e = 0" by blast
  obtain m' where "sm_remove dbg m old = Some (True, m')" "sm_ok m'" "sm_capacity m' = sm_capacity m"
    by (rule sm_ok_remove [OF assms(1) e(2)])
  with e assms sm_ok_get [OF assms(1), of old dbg] that show ?thesis by (simp add: dv_release_old_unused_segments_def)
next
  case False
  with assms sm_ok_get [OF assms(1), of old dbg] have "dv_release_old_unused_segments dbg m old = Some m"
    by (auto simp: dv_release_old_unused_segments_def split: option.split)
  with assms(1) that show ?thesis by blast
qed

lemma dsv_register_ok:
  assumes "dsv_ok v"
  obtains t v' where "dsv_register_and_translate_offset dbg open_segment v p = Some (t, v')" "dsv_ok v'"
    "dsv_is_dynamic v' = dsv_is_dynamic v" "\<not> dsv_is_dynamic v \<Longrightarrow> v' = v \<and> (\<exists>a. t = Inr a)"
proof (cases v)
  case (StaticView m)
  with assms show ?thesis
    by (intro that [of "Inr (po_offset p + shm_payload_start_address m)" v]) (simp_all add: dsv_register_and_translate_offset_def)
next
  case (DynamicView d)
  let ?m = "dv_shared_memory_map d" and ?k = "unat (po_segment_id p)"
  from assms DynamicView have d: "sm_ok ?m" "sm_capacity ?m = MAX_NUMBER_OF_REALLOCATIONS"
    "dv_current_idx d = INVALID_KEY \<or> dv_current_idx d < MAX_NUMBER_OF_REALLOCATIONS" by (simp_all add: dsv_ok_def)
  have k: "?k < sm_capacity ?m" using segment_id_key d(2) by simp
  note get = sm_ok_get [OF d(1) k, of dbg]
  have "\<exists>t d'. dv_register_and_translate_offset dbg open_segment d p = Some (t, d') \<and> dsv_ok (DynamicView d')"
  proof (cases "sm_map ?m ?k")
    case (Some e)
    obtain m1 where "sm_get_mut dbg ?m ?k se_register_offset = Some (True, m1)" "sm_ok m1" "sm_capacity m1 = sm_capacity ?m"
      by (rule sm_ok_get_mut [OF d(1) Some])
    with get Some d show ?thesis by (simp add: dv_register_and_translate_offset_def dsv_ok_def)
  next
    case None
    show ?thesis
    proof (cases "open_segment (po_segment_id p)")
      case (Inl e)
      with get None d show ?thesis by (simp add: dv_register_and_translate_offset_def dsv_ok_def)
    next
      case (Inr shm)
      obtain m1 where m1: "sm_insert_at dbg ?m ?k (se_register_offset (se_new shm)) = Some (True, m1)" "sm_ok m1" "sm_capacity m1 = sm_capacity ?m"
        by (rule sm_ok_insert_at [OF d(1) k])
      obtain m2 where "dv_release_old_unused_segments dbg m1 (dv_current_idx d) = Some m2" "sm_ok m2" "sm_capacity m2 = sm_capacity m1"
        by (rule dv_release_old_ok [OF m1(2), of "dv_current_idx d" dbg]) (use d(2,3) m1(3) in simp)
      with get None Inr m1 d k show ?thesis by (simp add: dv_register_and_translate_offset_def dsv_ok_def)
    qed
  qed
  then obtain t d' where "dv_register_and_translate_offset dbg open_segment d p = Some (t, d')" "dsv_ok (DynamicView d')" by blast
  with DynamicView show ?thesis
    by (intro that [of t "DynamicView d'"]) (simp_all add: dsv_register_and_translate_offset_def dsv_is_dynamic_def)
qed

lemma dsv_unregister_ok:
  assumes "dsv_ok v"
  obtains v' where "dsv_unregister_offset dbg v p = Some v'" "dsv_ok v'"
proof (cases v)
  case (StaticView m)
  with assms that show ?thesis by (simp add: dsv_unregister_offset_def)
next
  case (DynamicView d)
  let ?m = "dv_shared_memory_map d" and ?k = "unat (po_segment_id p)"
  from assms DynamicView have d: "sm_ok ?m" "sm_capacity ?m = MAX_NUMBER_OF_REALLOCATIONS"
    "dv_current_idx d = INVALID_KEY \<or> dv_current_idx d < MAX_NUMBER_OF_REALLOCATIONS" by (simp_all add: dsv_ok_def)
  have k: "?k < sm_capacity ?m" using segment_id_key d(2) by simp
  note get = sm_ok_get [OF d(1) k, of dbg]
  show ?thesis
  proof (cases "sm_map ?m ?k")
    case None
    with get d DynamicView that [of v] show ?thesis by (simp add: dsv_unregister_offset_def dv_unregister_offset_def dsv_ok_def)
  next
    case (Some e)
    obtain state e1 where u: "se_unregister_offset e = (state, e1)" by force
    obtain m1 where m1: "sm_get_mut dbg ?m ?k (\<lambda>_. e1) = Some (True, m1)" "sm_ok m1" "sm_map m1 = (sm_map ?m)(?k \<mapsto> e1)"
      "sm_capacity m1 = sm_capacity ?m"
      by (rule sm_ok_get_mut [OF d(1) Some])
    have k1: "sm_map m1 ?k = Some e1" using m1(3) by simp
    obtain m2 where "sm_remove dbg m1 ?k = Some (True, m2)" "sm_ok m2" "sm_capacity m2 = sm_capacity m1"
      by (rule sm_ok_remove [OF m1(2) k1])
    with get Some u m1 d DynamicView show ?thesis
      by (intro that [of "DynamicView (d\<lparr>dv_shared_memory_map := if state = Empty \<and> dv_current_idx d \<noteq> ?k then m2 else m1\<rparr>)"])
        (simp_all add: dsv_unregister_offset_def dv_unregister_offset_def dsv_ok_def Let_def)
  qed
qed

section \<open>The invariant\<close>

definition rco_ok :: "nat \<Rightarrow> rcv_connection \<Rightarrow> (ChannelId \<Rightarrow> PointerOffset list) \<Rightarrow> bool" where
  "rco_ok n c b \<longleftrightarrow> (\<exists>sz. zcc_inv sz (rco_receiver c) (rco_borrow_counter c) b) \<and>
     length (mgmt_channels (rco_receiver c)) = n \<and> dsv_ok (rco_data_segment c)"

text \<open>\<open>ks\<close> are the expired connections, \<open>B\<close> what has been received from each connection and not been returned.\<close>

definition rcv_inv :: "receiver \<Rightarrow> SlotMapKey list \<Rightarrow> (SlotMapKey \<Rightarrow> ChannelId \<Rightarrow> PointerOffset list) \<Rightarrow> bool" where
  "rcv_inv r ks B \<longleftrightarrow>
     (let storage = rcv_connection_storage r in
      sm_store storage \<and>
      (\<exists>v. rcv_to_be_removed_connections r = Some v \<and> mv_rel v ks \<and> length (rcv_connections r) + mv_capacity v \<le> sm_capacity storage) \<and>
      (\<forall>k. Some k \<in> set (rcv_connections r) \<or> k \<in> set ks \<longrightarrow> k < sm_capacity storage) \<and>
      (\<forall>k c. sm_map storage k = Some c \<longrightarrow> Some k \<in> set (rcv_connections r) \<or> k \<in> set ks) \<and>
      (\<forall>k c. sm_map storage k = Some c \<longrightarrow> rco_ok (rcv_number_of_channels r) c (B k)))"

abbreviation rcv_map :: "receiver \<Rightarrow> SlotMapKey \<Rightarrow> rcv_connection option" where
  "rcv_map r \<equiv> sm_map (rcv_connection_storage r)"

lemma rcv_invD:
  assumes "rcv_inv r ks B"
  shows "sm_store (rcv_connection_storage r)"
    "Some k \<in> set (rcv_connections r) \<or> k \<in> set ks \<Longrightarrow> k < sm_capacity (rcv_connection_storage r)"
    "rcv_map r k = Some c \<Longrightarrow> Some k \<in> set (rcv_connections r) \<or> k \<in> set ks"
    "rcv_map r k = Some c \<Longrightarrow> rco_ok (rcv_number_of_channels r) c (B k)"
    "rcv_map r k = Some c \<Longrightarrow> k < sm_capacity (rcv_connection_storage r)"
proof -
  show s: "sm_store (rcv_connection_storage r)"
    and "Some k \<in> set (rcv_connections r) \<or> k \<in> set ks \<Longrightarrow> k < sm_capacity (rcv_connection_storage r)"
    and "rcv_map r k = Some c \<Longrightarrow> Some k \<in> set (rcv_connections r) \<or> k \<in> set ks"
    and "rcv_map r k = Some c \<Longrightarrow> rco_ok (rcv_number_of_channels r) c (B k)"
    using assms unfolding rcv_inv_def Let_def by blast+
  show "rcv_map r k = Some c \<Longrightarrow> k < sm_capacity (rcv_connection_storage r)" using slot_store.keys [OF s] .
qed

lemma rcv_inv_expired:
  assumes "rcv_inv r ks B"
  obtains v where "rcv_to_be_removed_connections r = Some v" "mv_rel v ks"
    "length (rcv_connections r) + mv_capacity v \<le> sm_capacity (rcv_connection_storage r)"
  using assms by (auto simp: rcv_inv_def Let_def)

lemma rcv_get:
  assumes "rcv_inv r ks B" "k < sm_capacity (rcv_connection_storage r)"
  shows "sm_get dbg (rcv_connection_storage r) k = Some (rcv_map r k)"
  using slot_store.lookup [OF rcv_invD(1) [OF assms(1)] assms(2)] .

text \<open>The parts of the receiver that no operation changes.\<close>

definition rcv_settings :: "receiver \<Rightarrow> receiver \<Rightarrow> bool" where
  "rcv_settings r r' \<longleftrightarrow> r' = r\<lparr>rcv_connections := rcv_connections r', rcv_tagger := rcv_tagger r',
       rcv_to_be_removed_connections := rcv_to_be_removed_connections r', rcv_connection_storage := rcv_connection_storage r'\<rparr> \<and>
     length (rcv_connections r') = length (rcv_connections r)"

lemma rcv_settings_refl [simp, intro]: "rcv_settings r r"
  by (simp add: rcv_settings_def)

lemma rcv_settings_trans [trans]: "rcv_settings r r' \<Longrightarrow> rcv_settings r' r'' \<Longrightarrow> rcv_settings r r''"
  by (cases r; cases r'; cases r'') (simp add: rcv_settings_def)

lemma rcv_settingsD:
  assumes "rcv_settings r r'"
  shows "rcv_number_of_channels r' = rcv_number_of_channels r" "length (rcv_connections r') = length (rcv_connections r)"
    "rcv_message_type_details r' = rcv_message_type_details r" "receiver_builder r' = receiver_builder r"
    "rcv_degradation_callback r' = rcv_degradation_callback r" "rcv_receiver_port_id r' = rcv_receiver_port_id r"
  using assms by (cases r; cases r'; simp add: rcv_settings_def receiver_builder_def fun_eq_iff)+

lemma rcv_settings_simps [simp]:
  "rcv_settings r (r\<lparr>rcv_connection_storage := s\<rparr>)" "rcv_settings r (r\<lparr>rcv_to_be_removed_connections := v\<rparr>)"
  "rcv_settings r (r\<lparr>rcv_tagger := t\<rparr>)"
  by (simp_all add: rcv_settings_def)

lemma rcv_put_ok:
  assumes inv: "rcv_inv r ks B" and k: "rcv_map r k = Some c" and c': "rco_ok (rcv_number_of_channels r) c' b'"
  obtains s' where "rcv_put env r k c' = Some (r\<lparr>rcv_connection_storage := s'\<rparr>)"
    "rcv_inv (r\<lparr>rcv_connection_storage := s'\<rparr>) ks (B(k := b'))" "sm_map s' = (rcv_map r)(k \<mapsto> c')"
proof -
  obtain s' where s': "sm_get_mut (env_debug env) (rcv_connection_storage r) k (\<lambda>_. c') = Some (True, s')" "sm_store s'"
    "sm_map s' = (rcv_map r)(k \<mapsto> c')" "sm_capacity s' = sm_capacity (rcv_connection_storage r)"
    using slot_store.overwrite [OF rcv_invD(1) [OF inv] k, of "env_debug env" c'] by blast
  have "rcv_inv (r\<lparr>rcv_connection_storage := s'\<rparr>) ks (B(k := b'))"
    using inv s'(2-4) c' k by (auto simp: rcv_inv_def Let_def)
  with s' show ?thesis by (intro that [of s']) (simp_all add: rcv_put_def)
qed

lemma rcv_drop_ok:
  assumes inv: "rcv_inv r ks B" and k: "k < sm_capacity (rcv_connection_storage r)"
  obtains s' where "rcv_drop_connection env r k = Some (r\<lparr>rcv_connection_storage := s'\<rparr>)"
    "rcv_inv (r\<lparr>rcv_connection_storage := s'\<rparr>) ks B" "sm_map s' = (rcv_map r)(k := None)"
    "sm_capacity s' = sm_capacity (rcv_connection_storage r)"
proof -
  obtain s' where s': "sm_remove (env_debug env) (rcv_connection_storage r) k = Some (rcv_map r k \<noteq> None, s')" "sm_store s'"
    "sm_map s' = (rcv_map r)(k := None)" "sm_capacity s' = sm_capacity (rcv_connection_storage r)"
    using slot_store.delete [OF rcv_invD(1) [OF inv] k, of "env_debug env"] by blast
  have "rcv_inv (r\<lparr>rcv_connection_storage := s'\<rparr>) ks B" using inv s'(2-4) by (auto simp: rcv_inv_def Let_def)
  with s' show ?thesis by (intro that [of s']) (simp_all add: rcv_drop_connection_def)
qed

section \<open>Removing a connection\<close>

definition rco_has_data :: "rcv_connection \<Rightarrow> bool" where
  "rco_has_data c \<longleftrightarrow> (\<exists>ch \<in> set (mgmt_channels (rco_receiver c)). submitted ch \<noteq> [])"

lemma has_data_ok:
  assumes ok: "rco_ok n c b" and ch: "ch < n"
  shows "zcc_has_data dbg (rco_receiver c) ch = Some (submitted (mgmt_channels (rco_receiver c) ! ch) \<noteq> [])"
proof -
  from ok ch obtain sz where "zcc_inv sz (rco_receiver c) (rco_borrow_counter c) b" and len: "ch < length (mgmt_channels (rco_receiver c))"
    by (auto simp: rco_ok_def)
  from zcc_invD(1) [OF this] have "overflow_queue_inv (ch_submission_queue (mgmt_channels (rco_receiver c) ! ch))"
    by (simp add: channel_inv_def)
  with len show ?thesis by (simp add: zcc_has_data_def overflow_queue_is_empty_content)
qed

lemma any_channel_has_data_ok:
  assumes ok: "rco_ok n c b" and ids: "\<forall>ch \<in> set ids. ch < n"
  shows "any_channel_has_data env (rco_receiver c) ids = Some (\<exists>ch \<in> set ids. submitted (mgmt_channels (rco_receiver c) ! ch) \<noteq> [])"
  using ids by (induction ids) (auto simp: has_data_ok [OF ok])

lemma rco_has_data_ok:
  assumes ok: "rco_ok n c b"
  shows "any_channel_has_data env (rco_receiver c) [0..<n] = Some (rco_has_data c)"
proof -
  have len: "length (mgmt_channels (rco_receiver c)) = n" using ok by (simp add: rco_ok_def)
  then have "(\<exists>ch \<in> set [0..<n]. submitted (mgmt_channels (rco_receiver c) ! ch) \<noteq> []) \<longleftrightarrow> rco_has_data c"
    by (force simp: rco_has_data_def in_set_conv_nth Bex_def)
  then show ?thesis using any_channel_has_data_ok [OF ok, of "[0..<n]" env] by simp
qed

text \<open>The keys that are in a slot other than \<open>i\<close>.\<close>

definition other_slots :: "receiver \<Rightarrow> nat \<Rightarrow> SlotMapKey set" where
  "other_slots r i = {k. \<exists>j < length (rcv_connections r). j \<noteq> i \<and> rcv_connections r ! j = Some k}"

lemma slot_cases:
  assumes "Some k \<in> set (rcv_connections r)"
  shows "k \<in> other_slots r i \<or> i < length (rcv_connections r) \<and> rcv_connections r ! i = Some k"
  using assms by (auto simp: other_slots_def in_set_conv_nth)

lemma rcv_prepare_ok:
  assumes inv: "rcv_inv r ks B" and i: "i < length (rcv_connections r)"
  obtains r' ks' where "rcv_prepare_connection_removal env r i = Some r'" "rcv_inv r' ks' B"
    "rcv_connections r' = rcv_connections r" "rcv_settings r r'" "rcv_tagger r' = rcv_tagger r"
    "\<And>k c. rcv_map r' k = Some c \<Longrightarrow> k \<in> other_slots r i \<or> k \<in> set ks'"
    "rcv_map r' = (case rcv_connections r ! i of None \<Rightarrow> rcv_map r | Some k \<Rightarrow>
       if \<exists>c. rcv_map r k = Some c \<and> (\<not> rco_has_data c \<or> \<not> length ks < mv_capacity (the (rcv_to_be_removed_connections r)))
       then (rcv_map r)(k := None) else rcv_map r)"
proof -
  note result = that
  obtain v where v: "rcv_to_be_removed_connections r = Some v" "mv_rel v ks"
    "length (rcv_connections r) + mv_capacity v \<le> sm_capacity (rcv_connection_storage r)"
    by (rule rcv_inv_expired [OF inv])
  have unchanged: ?thesis if run: "rcv_prepare_connection_removal env r i = Some r"
    and free: "\<And>k. rcv_connections r ! i = Some k \<Longrightarrow> rcv_map r k = None"
  proof (rule result [OF run inv])
    show "k \<in> other_slots r i \<or> k \<in> set ks" if k: "rcv_map r k = Some c" for k c
      using rcv_invD(3) [OF inv k] slot_cases [of k r i] free [of k] k by auto
  qed (use free in \<open>auto split: option.split\<close>)
  show ?thesis
  proof (cases "rcv_connections r ! i")
    case None
    with v i show ?thesis by (intro unchanged) (simp_all add: rcv_prepare_connection_removal_def slice_get_def)
  next
    case (Some k)
    have cap: "k < sm_capacity (rcv_connection_storage r)" using rcv_invD(2) [OF inv, of k] Some i by (metis nth_mem)
    note get = rcv_get [OF inv cap, of "env_debug env"]
    show ?thesis
    proof (cases "rcv_map r k")
      case None
      with v i Some get show ?thesis by (intro unchanged) (simp_all add: rcv_prepare_connection_removal_def slice_get_def)
    next
      case c: (Some c)
      note data = rco_has_data_ok [OF rcv_invD(4) [OF inv c], of env]
      have run: "rcv_prepare_connection_removal env r i = (if rco_has_data c
          then do { (pushed, w) \<leftarrow> mv_push (env_debug env) v k;
            if pushed then Some (r\<lparr>rcv_to_be_removed_connections := Some w\<rparr>) else rcv_drop_connection env (r\<lparr>rcv_to_be_removed_connections := Some w\<rparr>) k }
          else rcv_drop_connection env r k)"
        using v(1) i Some get c data by (simp add: rcv_prepare_connection_removal_def slice_get_def Let_def)
      obtain w where w: "mv_push (env_debug env) v k = Some (length ks < mv_capacity v, w)"
        "mv_rel w (if length ks < mv_capacity v then ks @ [k] else ks)" "mv_capacity w = mv_capacity v"
        by (rule mv_push_rel [OF v(2)])
      show ?thesis
      proof (cases "rco_has_data c \<and> length ks < mv_capacity v")
        case True
        let ?r = "r\<lparr>rcv_to_be_removed_connections := Some w\<rparr>"
        have inv': "rcv_inv ?r (ks @ [k]) B" using inv w True v cap by (auto simp: rcv_inv_def Let_def)
        show ?thesis
        proof (rule result [OF _ inv'])
          show "rcv_prepare_connection_removal env r i = Some ?r" using run w True by simp
          show "q \<in> other_slots r i \<or> q \<in> set (ks @ [k])" if q: "rcv_map ?r q = Some d" for q d
            using rcv_invD(3) [OF inv, of q d] slot_cases [of q r i] q Some by auto
        qed (use Some c True v(1) in simp_all)
      next
        case False
        define r1 where "r1 = (if rco_has_data c then r\<lparr>rcv_to_be_removed_connections := Some w\<rparr> else r)"
        have r1: "rcv_connections r1 = rcv_connections r" "rcv_connection_storage r1 = rcv_connection_storage r" "rcv_settings r r1"
          "rcv_tagger r1 = rcv_tagger r"
          by (simp_all add: r1_def)
        have inv1: "rcv_inv r1 ks B" using inv w False v by (auto simp: rcv_inv_def Let_def r1_def)
        obtain s' where s': "rcv_drop_connection env r1 k = Some (r1\<lparr>rcv_connection_storage := s'\<rparr>)"
          "rcv_inv (r1\<lparr>rcv_connection_storage := s'\<rparr>) ks B" "sm_map s' = (rcv_map r1)(k := None)"
          by (rule rcv_drop_ok [OF inv1, of k env]) (use cap r1 in simp_all)
        show ?thesis
        proof (rule result [OF _ s'(2)])
          show "rcv_prepare_connection_removal env r i = Some (r1\<lparr>rcv_connection_storage := s'\<rparr>)"
            using run w(1) s'(1) False by (simp add: r1_def split: if_split_asm)
          show "rcv_settings r (r1\<lparr>rcv_connection_storage := s'\<rparr>)" using r1(3) by (rule rcv_settings_trans) simp
          show "q \<in> other_slots r i \<or> q \<in> set ks" if q: "rcv_map (r1\<lparr>rcv_connection_storage := s'\<rparr>) q = Some d" for q d
            using rcv_invD(3) [OF inv, of q d] slot_cases [of q r i] q Some s'(3) r1(2) by (auto split: if_split_asm)
        qed (use Some c False v(1) s'(3) r1 in auto)
      qed
    qed
  qed
qed

end
