(* ===== verification/Spec2Isabelle.thy ===== *)
theory Spec2Isabelle
  imports Elementary Index_Queue Overflow_Queue Overflow_Queue_Conc Unique_Index_Set Unique_Index_Set_Conc Memory_Allocators Shm_Allocators Zero_Copy_Protocol Container_Vec Slot_Map Pubsub_Run Receiver_Connections
begin

text \<open>
  A verification development of the zero-copy core of iceoryx2, a middleware that moves messages between
  processes without copying them. A publisher writes a message into a chunk of a shared-memory segment and
  passes only the offset of the chunk to its subscribers, which read the message in place and return the
  offset. Nothing is copied, so everything depends on the bookkeeping: who may write or read which chunk,
  when a chunk is free again, and that the queues between the processes never lose, invent or overflow an
  offset. This bookkeeping is what is modelled and verified.

  \<^bold>\<open>The parts of the program and where they are modelled\<close> (paths below \<^verbatim>\<open>src/\<close>, bottom up)

  \<^item> \<open>Prelude\<close>: machine integers, panics, debug assertions, indexed memory, loops; shared by all theories.
  \<^item> \<open>Elementary\<close>: \<^verbatim>\<open>iceoryx2-bb/elementary\<close>: \<open>align\<close>, base-64 names, the bump allocator of the fixed-size
    containers, the cyclic tagger that marks the connections seen during an update.
  \<^item> \<open>Index_Queue\<close>, \<open>Overflow_Queue\<close>: \<^verbatim>\<open>iceoryx2-bb/lock-free/src/spsc\<close>, the two rings a connection consists of, one
    definition per method. \<open>Overflow_Queue_Conc\<close>: the overflowing ring again, with each atomic access a
    step of its own, for every interleaving of a producer and a consumer.
  \<^item> \<open>Unique_Index_Set\<close>: \<^verbatim>\<open>iceoryx2-bb/lock-free/src/mpmc/unique_index_set.rs\<close>, the free list below the pool allocator;
    \<open>Unique_Index_Set_Conc\<close>: its compare-and-swap loops, for any number of threads.
  \<^item> \<open>Container_Queue\<close>, \<open>Container_Vec\<close>, \<open>Slot_Map\<close>: \<^verbatim>\<open>iceoryx2-bb/container/src\<close>: \<^verbatim>\<open>queue.rs\<close> (history of a
    publisher), \<^verbatim>\<open>vec.rs\<close> (expired connections), \<^verbatim>\<open>slotmap.rs\<close> (segments, connections of a receiver).
  \<^item> \<open>Memory_Allocators\<close>: \<^verbatim>\<open>iceoryx2-bb/memory/src\<close>: pool, bump and one-chunk allocator.
  \<^item> \<open>Shm_Allocators\<close>: \<^verbatim>\<open>iceoryx2-cal/src/shm_allocator\<close>: pointer offsets and the allocators of a segment.
  \<^item> \<open>Shared_Memory\<close>, \<open>Resizable_Memory\<close>: \<^verbatim>\<open>iceoryx2-cal/src/shared_memory/common.rs\<close> and
    \<^verbatim>\<open>resizable_shared_memory/dynamic.rs\<close>: a segment, and a growing family of segments with its view.
  \<^item> \<open>Used_Chunk_List\<close>, \<open>Zero_Copy_Connection\<close>, \<open>Zero_Copy_Setup\<close>: \<^verbatim>\<open>iceoryx2-cal/src/zero_copy_connection\<close>: sending,
    receiving, releasing and reclaiming offsets on the channels of a connection; creating, opening and
    leaving one.
  \<^item> \<open>Message_Types\<close>: \<^verbatim>\<open>iceoryx2/src/service/static_config/message_type_details.rs\<close> and the pointers of a chunk.
  \<^item> \<open>Data_Segment\<close>, \<open>Port_Sender\<close>, \<open>Port_Publisher\<close>: \<^verbatim>\<open>iceoryx2/src/port/details/data_segment.rs\<close>,
    \<^verbatim>\<open>segment_state.rs\<close>, \<^verbatim>\<open>sender.rs\<close>, \<^verbatim>\<open>port/publisher.rs\<close> and \<^verbatim>\<open>sample_mut.rs\<close>: loans, reference counters, delivery,
    history and the update of the connections.
  \<^item> \<open>Port_Receiver\<close>: \<^verbatim>\<open>iceoryx2/src/port/details/receiver.rs\<close>, \<^verbatim>\<open>port/subscriber.rs\<close> and \<^verbatim>\<open>sample.rs\<close>.

  \<^bold>\<open>How the code is rendered\<close>

  A struct is a record and an enum a datatype with the names of the source; a method \<open>T::f\<close> is a definition with
  the prefix of its type (\<open>snd_\<close> for \<open>Sender\<close>, \<open>rcv_\<close> for \<open>Receiver\<close>, \<open>pub_\<close> for the publisher, \<open>zcc_\<close> for a connection) that
  takes the state and returns the new one. A value of type \<open>'a option\<close> in a result position stands for a call that
  may panic (\<open>None\<close>: an index out of bounds, a failed assertion, \<open>fatal_panic\<close>), an inner \<open>option\<close> for the
  \<open>Option\<close> of the source, and \<open>'e + 'a\<close> for \<open>Result\<close>. Debug assertions are evaluated when \<open>env_debug\<close> is set, so
  that the theorems hold for both kinds of build. Packed heads, offsets, reference
  counters, sequence numbers and segment ids are words of their width; sizes, indices and the 64-bit positions of
  the rings, which take centuries to wrap, are natural numbers. Calls of the
  operating system are parameters: what is found when a storage or a segment is opened or created.

  \<^bold>\<open>What is shown\<close>

  \<^item> The rings and containers refine lists and maps (\<open>Queue_Interface\<close>, \<open>Index_Pool_Interface\<close> and \<open>Key_Store\<close> state what
    their clients rely on as locales, which the definitions of the code interpret). The concurrent versions
    keep their elements under every interleaving, and \<open>push\<close> is wait-free.
  \<^item> The allocators hand out disjoint, aligned chunks inside their memory, and fail only when nothing is left.
  \<^item> \<open>Zero_Copy_Protocol\<close>: on a connection every offset is in exactly one place, the completion queue is always large
    enough, and after a crash exactly the offsets in flight are recovered. \<open>Zero_Copy_Setup\<close>: the memory that is
    requested suffices, incompatible ports do not connect, and the last port removes the storage.
  \<^item> \<open>Sender_References\<close>, \<open>Sender_Connections\<close>, \<open>Pubsub_System\<close>, \<open>Publish_Subscribe\<close> and \<open>Pubsub_Run\<close>: the reference counters of a
    sender equal the references that exist, over loans, history, delivery, reception and changing
    subscribers. The runs of \<open>pubsub_run\<close> start with \<open>pub_new\<close> and interleave all operations of a publisher and its
    subscribers; in every reachable state nothing panics, a loan within the limits succeeds, chunks that are
    loaned are exclusive, and none leaks. The theorem about the size of the data segment
    (\<open>required_amount_of_samples_per_data_segment\<close>) is the arithmetic behind this.
  \<^item> \<open>Receiver_Connections\<close>: the invariant of a receiver, kept by all its operations, and what \<open>receive\<close> returns.
  \<^item> Some theorems show a defect or a limit of the code: a second bucket that is misaligned, a chunk that is refused
    although it fits, a lost head of a free list, a queue of capacity zero; the names say so.

  \<^bold>\<open>Bounds\<close>

  Loops over collections are recursion on lists; the loop of \<open>retrieve_returned_samples\<close>, whose length depends on the
  queues, is a partial function, and that it ends in every reachable state is proved. No fuel is used. The interleaving
  theorems assume sequentially consistent memory and, for the index set, that a thread is not overtaken by
  \<open>2 ^ 16\<close> updates between a load and its compare-exchange, the bound of the counter in the head. The system
  theorems are about publishers with a static data segment of fewer than \<open>2 ^ 24\<close> chunks (\<open>setup_ok\<close>) and a delivery
  that does not block; each operation of a port runs as a whole.

  \<^bold>\<open>Not modelled\<close>

  \<^item> The POSIX wrappers, the platform layer, files, sockets, monitoring, node and service management: calls of the
    operating system. Where a modelled component calls them, their result is a parameter.
  \<^item> Waiting: a blocking send is one poll of its loop; the wait set, listeners and reactors only wait.
  \<^item> Request-response, event and blackboard ports, which combine the parts above in other ways; the bindings for other
    languages, the command line, tunnels, serialization and logging.
  \<^item> The bytes of a message: a chunk is an offset and its pointers are addresses. The headers written into it
    and the typed wrappers (\<open>Sample\<close>, \<open>SampleMut\<close> as smart pointers) carry no bookkeeping of their own.
  \<^item> Weak memory orderings: the order of the atomic accesses is that of the source.
\<close>

end
